(* ===== verification/Prelude.thy ===== *)
theory Prelude
  imports Main "HOL-Library.Word" "HOL-Library.Monad_Syntax"
begin

text \<open>
  Shared vocabulary of the development: the C integer types as words, pointers and
  undefined behaviour as options, bounds-checked memory accesses, counted loops, and the
  lemmas about them that every component theory uses.

  Conventions, used in every component:
  \<^item> \<open>'a ptr\<close> is a pointer argument: \<open>None\<close> is \<open>NULL\<close>, \<open>Some v\<close> points at an object
    whose value is \<open>v\<close>.  A function that writes through a pointer returns the value of
    the object after the call, again as a \<open>ptr\<close>.
  \<^item> \<open>'a run\<close> is an execution: \<open>None\<close> is undefined behaviour (an access outside its
    object, a dereference of \<open>NULL\<close>, a remainder by zero), \<open>Some r\<close> is a run that returns
    \<open>r\<close>.  A theorem that an operation gives \<open>Some r\<close> is therefore a memory-safety
    statement as well.
  \<^item> \<open>size_t\<close> and \<open>uintptr_t\<close> are \<open>size_bits\<close> wide, and their arithmetic wraps.  The width is
    stated here and nowhere else: it is 64 (an LP64 target), and every theory of the
    development checks as it is with 32 in its place.
\<close>

unbundle bit_operations_syntax

type_synonym u8 = "8 word"
type_synonym u16 = "16 word"
type_synonym u32 = "32 word"
type_synonym size_bits = 64
type_synonym size_t = "size_bits word"
type_synonym uintptr_t = "size_bits word"

abbreviation size_limit :: nat where
  "size_limit \<equiv> 2 ^ LENGTH(size_bits)"

type_synonym 'a ptr = "'a option"
type_synonym 'a run = "'a option"

named_theorems mem_simps \<open>unfolding rules of the memory accesses\<close>

subsection \<open>Memory accesses\<close>

definition deref :: "'a ptr \<Rightarrow> 'a run" where
  "deref p = p"

definition rd :: "'a list \<Rightarrow> nat \<Rightarrow> 'a run" where
  "rd m i = (if i < length m then Some (m ! i) else None)"

definition wr :: "'a list \<Rightarrow> nat \<Rightarrow> 'a \<Rightarrow> 'a list run" where
  "wr m i x = (if i < length m then Some (m[i := x]) else None)"

definition rd_block :: "'a list \<Rightarrow> nat \<Rightarrow> nat \<Rightarrow> 'a list run" where
  "rd_block m off n = (if off + n \<le> length m then Some (take n (drop off m)) else None)"

definition wr_block :: "'a list \<Rightarrow> nat \<Rightarrow> 'a list \<Rightarrow> 'a list run" where
  "wr_block m off bs =
     (if off + length bs \<le> length m
      then Some (take off m @ bs @ drop (off + length bs) m) else None)"

definition c_mod :: "'a::len word \<Rightarrow> 'a word \<Rightarrow> 'a word run" where
  "c_mod a b = (if b = 0 then None else Some (a mod b))"

definition c_div :: "'a::len word \<Rightarrow> 'a word \<Rightarrow> 'a word run" where
  "c_div a b = (if b = 0 then None else Some (a div b))"

text \<open>A shift by at least the width of its operand is undefined in C.\<close>

definition c_shl :: "'a::len word \<Rightarrow> nat \<Rightarrow> 'a word run" where
  "c_shl w n = (if n < LENGTH('a) then Some (push_bit n w) else None)"

definition c_shr :: "'a::len word \<Rightarrow> nat \<Rightarrow> 'a word run" where
  "c_shr w n = (if n < LENGTH('a) then Some (drop_bit n w) else None)"

declare deref_def [simp, mem_simps]
declare c_shl_def [mem_simps] c_shr_def [mem_simps]
declare rd_def [mem_simps] wr_def [mem_simps] rd_block_def [mem_simps] wr_block_def [mem_simps]
declare c_mod_def [mem_simps] c_div_def [mem_simps]

lemma rd_Some [simp]: "i < length m \<Longrightarrow> rd m i = Some (m ! i)"
  by (simp add: rd_def)

lemma rd_None [simp]: "length m \<le> i \<Longrightarrow> rd m i = None"
  by (simp add: rd_def)

lemma rd_eq_Some: "rd m i = Some x \<longleftrightarrow> i < length m \<and> x = m ! i"
  by (auto simp: rd_def)

lemma wr_Some [simp]: "i < length m \<Longrightarrow> wr m i x = Some (m[i := x])"
  by (simp add: wr_def)

lemma rd_block_Some [simp]: "off + n \<le> length m \<Longrightarrow> rd_block m off n = Some (take n (drop off m))"
  by (simp add: rd_block_def)

lemma wr_block_Some [simp]:
  "off + length bs \<le> length m \<Longrightarrow>
   wr_block m off bs = Some (take off m @ bs @ drop (off + length bs) m)"
  by (simp add: wr_block_def)

lemma c_mod_Some [simp]: "b \<noteq> 0 \<Longrightarrow> c_mod a b = Some (a mod b)"
  by (simp add: c_mod_def)

lemma c_div_Some [simp]: "b \<noteq> 0 \<Longrightarrow> c_div a b = Some (a div b)"
  by (simp add: c_div_def)

lemma c_shl_Some [simp]: "n < LENGTH('a) \<Longrightarrow> c_shl (w :: 'a::len word) n = Some (push_bit n w)"
  by (simp add: c_shl_def)

lemma c_shr_Some [simp]: "n < LENGTH('a) \<Longrightarrow> c_shr (w :: 'a::len word) n = Some (drop_bit n w)"
  by (simp add: c_shr_def)

lemma take_min_length [simp]: "take (min (length xs) n) xs = take n xs"
  by (simp add: min_def)

subsection \<open>Counted loops\<close>

text \<open>
  \<open>for_upto n i f s\<close> is \<open>n\<close> rounds of a C loop whose index is \<open>i\<close> in the first round:
  each round runs the body \<open>f\<close> on the index and the loop's state, and an undefined round
  ends the run.
\<close>

primrec for_upto :: "nat \<Rightarrow> nat \<Rightarrow> (nat \<Rightarrow> 's \<Rightarrow> 's run) \<Rightarrow> 's \<Rightarrow> 's run" where
  "for_upto 0 i f s = Some s"
| "for_upto (Suc n) i f s = do { s' \<leftarrow> f i s; for_upto n (Suc i) f s' }"

lemma for_upto_fold:
  "i + n \<le> length xs \<Longrightarrow>
   for_upto n i (\<lambda>k s. do { x \<leftarrow> rd xs k; Some (f s x) }) s = Some (foldl f s (take n (drop i xs)))"
proof (induction n arbitrary: i s)
  case 0
  then show ?case by simp
next
  case (Suc n)
  from Suc.prems have "drop i xs = xs ! i # drop (Suc i) xs"
    by (simp add: Cons_nth_drop_Suc)
  with Suc show ?case by simp
qed

text \<open>A loop that fills positions \<open>i, i + 1, \<dots>\<close> of an array.\<close>

lemma for_upto_fill:
  "i + n \<le> length m \<Longrightarrow>
   for_upto n i (\<lambda>k m. wr m k (f k)) m = Some (take i m @ map f [i ..< i + n] @ drop (i + n) m)"
proof (induction n arbitrary: i m)
  case 0
  then show ?case by simp
next
  case (Suc n)
  then have "take (Suc i) (m[i := f i]) = take i m @ [f i]"
    by (simp add: take_Suc_conv_app_nth)
  moreover have "map f [i ..< i + Suc n] = f i # map f [Suc i ..< Suc i + n]"
    by (simp add: upt_rec)
  ultimately show ?case
    using Suc by simp
qed

subsection \<open>Words\<close>

lemma unat_less_size: "unat (x :: size_t) < size_limit"
  by (rule unsigned_less)

declare unat_less_size [simplified, simp]

lemma unat_of_nat_size: "n < size_limit \<Longrightarrow> unat (of_nat n :: size_t) = n"
  by (simp add: unat_of_nat take_bit_nat_eq_self)

lemma map_unat_of_nat: "n \<le> size_limit \<Longrightarrow> map (\<lambda>i. unat (of_nat i :: size_t)) [0 ..< n] = [0 ..< n]"
  by (rule map_idI) (simp add: unat_of_nat_size)

lemma unat_add_noof:
  "unat (a :: 'a::len word) + unat b < 2 ^ LENGTH('a) \<Longrightarrow> unat (a + b) = unat a + unat b"
  by (simp add: unat_word_ariths)

lemma unat_mult_noof:
  "unat (a :: 'a::len word) * unat b < 2 ^ LENGTH('a) \<Longrightarrow> unat (a * b) = unat a * unat b"
  by (simp add: unat_word_ariths)

lemma unat_sub_noof: "unat b \<le> unat a \<Longrightarrow> unat (a - b :: 'a::len word) = unat a - unat b"
  by (simp add: unat_sub_if')

lemma unat_Suc_noof: "unat (a :: size_t) < unat (b :: size_t) \<Longrightarrow> unat (a + 1) = Suc (unat a)"
proof -
  assume "unat a < unat b"
  then have "unat a + 1 < size_limit"
    using unat_less_size [of b] by linarith
  then show ?thesis
    using unat_add_noof [of a 1] by simp
qed

lemma unat_ucast_up [simp]:
  "LENGTH('a) \<le> LENGTH('b) \<Longrightarrow> unat (ucast (w :: 'a::len word) :: 'b::len word) = unat w"
proof -
  assume le: "LENGTH('a) \<le> LENGTH('b)"
  have "unat w < 2 ^ LENGTH('a)" by simp
  also have "\<dots> \<le> 2 ^ LENGTH('b)" using le by (rule power_increasing) simp
  finally show ?thesis
    by (simp add: unsigned_ucast_eq take_bit_nat_eq_self)
qed

end
