(* ===== verification/CrcModel.thy ===== *)
theory CrcModel
  imports Prelude
begin

text \<open>
  The reference both CRC modules are measured against: a bit-serial shift register over an
  arbitrary width, and the usual parametrised CRC model (polynomial, initial value, input
  and output reflection, final XOR).  The locale \<open>crc_generator\<close> collects what holds for
  every odd polynomial: the register step is linear and injective, a block of bits as wide
  as the register can be fed at once, and any two messages that differ in a burst no longer
  than the register end in different registers.
\<close>

subsection \<open>The bit-serial register\<close>

definition lfsr_step :: "'a::len word \<Rightarrow> 'a word \<Rightarrow> bool \<Rightarrow> 'a word" where
  "lfsr_step g s b =
     (if bit s (LENGTH('a) - 1) \<noteq> b then push_bit 1 s XOR g else push_bit 1 s)"

definition lfsr :: "'a::len word \<Rightarrow> 'a word \<Rightarrow> bool list \<Rightarrow> 'a word" where
  "lfsr g s bs = foldl (lfsr_step g) s bs"

definition byte_bits_msb :: "u8 \<Rightarrow> bool list" where
  "byte_bits_msb b = map (bit b) [7, 6, 5, 4, 3, 2, 1, 0]"

definition byte_bits_lsb :: "u8 \<Rightarrow> bool list" where
  "byte_bits_lsb b = map (bit b) [0, 1, 2, 3, 4, 5, 6, 7]"

definition reflect :: "'a::len word \<Rightarrow> 'a word" where
  "reflect w = horner_sum of_bool 2 (rev (map (bit w) [0..<LENGTH('a)]))"

text \<open>
  The parametrised model: the message bits (each byte most significant bit first, or least
  significant first when the input is reflected) drive the register from the initial value;
  the result is the register, reflected if asked for, XORed with the final value.
\<close>

record 'w crc_params =
  p_poly :: 'w
  p_init :: 'w
  p_refin :: bool
  p_refout :: bool
  p_xorout :: 'w

definition message_bits :: "bool \<Rightarrow> u8 list \<Rightarrow> bool list" where
  "message_bits r bs = concat (map (if r then byte_bits_lsb else byte_bits_msb) bs)"

definition crc_value :: "'a::len word crc_params \<Rightarrow> u8 list \<Rightarrow> 'a word" where
  "crc_value P bs =
     (let r = lfsr (p_poly P) (p_init P) (message_bits (p_refin P) bs)
      in (if p_refout P then reflect r else r) XOR p_xorout P)"

lemma lfsr_simps [simp]:
  "lfsr g s [] = s"
  "lfsr g s (b # bs) = lfsr g (lfsr_step g s b) bs"
  by (simp_all add: lfsr_def)

lemma lfsr_append: "lfsr g s (xs @ ys) = lfsr g (lfsr g s xs) ys"
  by (simp add: lfsr_def)

lemma message_bits_simps [simp]:
  "message_bits r [] = []"
  "message_bits r (b # bs) = (if r then byte_bits_lsb else byte_bits_msb) b @ message_bits r bs"
  by (simp_all add: message_bits_def)

lemma message_bits_append: "message_bits r (xs @ ys) = message_bits r xs @ message_bits r ys"
  by (simp add: message_bits_def)

lemma length_byte_bits [simp]: "length (byte_bits_msb b) = 8" "length (byte_bits_lsb b) = 8"
  by (simp_all add: byte_bits_msb_def byte_bits_lsb_def)

lemma length_message_bits [simp]: "length (message_bits r bs) = 8 * length bs"
  by (induction bs) auto

lemma bit_reflect: "bit (reflect (w :: 'a::len word)) n \<longleftrightarrow> n < LENGTH('a) \<and> bit w (LENGTH('a) - 1 - n)"
  by (auto simp: reflect_def bit_horner_sum_bit_word_iff rev_nth)

lemma reflect_reflect [simp]: "reflect (reflect w) = w"
  by (rule bit_word_eqI) (auto simp: bit_reflect)

lemma reflect_xor: "reflect (v XOR w) = reflect v XOR reflect w"
  by (rule bit_word_eqI) (auto simp: bit_reflect bit_xor_iff)

lemma byte_bits_upt:
  "byte_bits_msb b = map (bit b) (rev [0..<8])"
  "byte_bits_lsb b = map (bit b) [0..<8]"
  by (simp_all add: byte_bits_msb_def byte_bits_lsb_def upt_rec numeral_eq_Suc)

lemma byte_bits_inject:
  "byte_bits_msb x = byte_bits_msb y \<longleftrightarrow> x = y"
  "byte_bits_lsb x = byte_bits_lsb y \<longleftrightarrow> x = y"
  by (auto simp: byte_bits_upt map_eq_conv intro: bit_word_eqI)

lemma message_bits_inject:
  "length xs = length ys \<Longrightarrow> message_bits r xs = message_bits r ys \<longleftrightarrow> xs = ys"
  by (induction xs ys rule: list_induct2) (auto simp: byte_bits_inject)

subsection \<open>Feeding a block at once\<close>

text \<open>
  \<open>align bs\<close> is the word whose top bits are \<open>bs\<close>, first bit uppermost.  Feeding \<open>bs\<close> is
  adding \<open>align bs\<close> to the register and stepping it with zeros.
\<close>

primrec align :: "bool list \<Rightarrow> 'a::len word" where
  "align [] = 0"
| "align (b # bs) = push_bit (LENGTH('a) - 1) (of_bool b) XOR drop_bit 1 (align bs)"

lemma bit_align:
  "bit (align bs :: 'a::len word) n \<longleftrightarrow>
   n < LENGTH('a) \<and> LENGTH('a) - 1 - n < length bs \<and> bs ! (LENGTH('a) - 1 - n)"
proof (induction bs arbitrary: n)
  case Nil
  then show ?case by simp
next
  case (Cons b bs)
  have top: "bit (push_bit (LENGTH('a) - 1) (of_bool b) :: 'a word) n \<longleftrightarrow> n = LENGTH('a) - 1 \<and> b"
    by (auto simp: bit_push_bit_iff bit_of_bool_iff)
  have rest: "bit (drop_bit 1 (align bs) :: 'a word) n \<longleftrightarrow>
      Suc n < LENGTH('a) \<and> LENGTH('a) - 2 - n < length bs \<and> bs ! (LENGTH('a) - 2 - n)"
    by (simp add: bit_drop_bit_eq Cons.IH)
  show ?case
  proof (cases "Suc n < LENGTH('a)")
    case True
    then have "LENGTH('a) - 1 - n = Suc (LENGTH('a) - 2 - n)"
      by simp
    with True top rest show ?thesis
      by (auto simp: bit_xor_iff)
  next
    case False
    have "bit (align (b # bs) :: 'a word) n \<longleftrightarrow> n = LENGTH('a) - 1 \<and> b"
      using False top rest by (simp add: bit_xor_iff)
    also have "\<dots> \<longleftrightarrow> n < LENGTH('a) \<and> LENGTH('a) - 1 - n < length (b # bs) \<and> (b # bs) ! (LENGTH('a) - 1 - n)"
      using False by (cases "n = LENGTH('a) - 1") auto
    finally show ?thesis .
  qed
qed

text \<open>The register step, bit by bit.\<close>

lemma bit_shift_up: "bit (push_bit 1 w :: 'a::len word) n \<longleftrightarrow> n < LENGTH('a) \<and> 0 < n \<and> bit w (n - 1)"
  unfolding bit_push_bit_iff by auto

lemma bit_shift_down: "bit (drop_bit 1 w :: 'a::len word) n \<longleftrightarrow> bit w (Suc n)"
  unfolding bit_drop_bit_eq by simp

lemma bit_lfsr_step:
  "bit (lfsr_step g s b :: 'a::len word) n \<longleftrightarrow>
   n < LENGTH('a) \<and>
   ((0 < n \<and> bit s (n - 1)) \<noteq> ((bit s (LENGTH('a) - 1) \<noteq> b) \<and> bit g n))"
  unfolding lfsr_step_def
  by (simp only: bit_xor_iff bit_shift_up split: if_split) (auto dest: bit_imp_le_length)

lemma bit_top: "bit (push_bit (LENGTH('a) - 1) (of_bool b) :: 'a::len word) n \<longleftrightarrow> n = LENGTH('a) - 1 \<and> b"
  by (auto simp: bit_push_bit_iff bit_of_bool_iff)

locale crc_generator =
  fixes g :: "'a::len word"
  assumes odd_poly: "bit g 0"
begin

lemma step_feed:
  "lfsr_step g s b = lfsr_step g (s XOR push_bit (LENGTH('a) - 1) (of_bool b)) False"
  by (rule bit_word_eqI) (auto simp only: bit_lfsr_step bit_xor_iff bit_top)

lemma step_drop:
  assumes "length bs < LENGTH('a)"
  shows "lfsr_step g (s XOR drop_bit 1 (align bs)) False = lfsr_step g s False XOR align bs"
proof (rule bit_word_eqI)
  fix n
  assume n: "n < LENGTH('a)"
  have "\<not> bit (align bs :: 'a word) 0"
    using assms by (simp add: bit_align)
  then have down: "0 < n \<and> bit (align bs :: 'a word) (Suc (n - 1)) \<longleftrightarrow> bit (align bs :: 'a word) n"
    by (cases n) auto
  have top: "\<not> bit (align bs :: 'a word) (Suc (LENGTH('a) - 1))"
    by (simp add: bit_align)
  show "bit (lfsr_step g (s XOR drop_bit 1 (align bs)) False) n =
      bit (lfsr_step g s False XOR align bs) n"
    using n down top by (auto simp only: bit_lfsr_step bit_xor_iff bit_shift_down)
qed

lemma lfsr_block:
  "length bs \<le> LENGTH('a) \<Longrightarrow> lfsr g s bs = lfsr g (s XOR align bs) (replicate (length bs) False)"
proof (induction bs arbitrary: s)
  case Nil
  then show ?case by simp
next
  case (Cons b bs)
  then have "length bs < LENGTH('a)" by simp
  from Cons.IH [of "lfsr_step g s b"] this
  have "lfsr g s (b # bs) = lfsr g (lfsr_step g s b XOR align bs) (replicate (length bs) False)"
    by simp
  also have "lfsr_step g s b XOR align bs =
      lfsr_step g ((s XOR push_bit (LENGTH('a) - 1) (of_bool b)) XOR drop_bit 1 (align bs)) False"
    by (subst step_feed) (rule step_drop [OF \<open>length bs < LENGTH('a)\<close>, symmetric])
  finally show ?case
    by (simp only: align.simps xor.assoc list.size replicate_Suc lfsr_simps add_0_right add_Suc_right)
qed

lemma step_inject: "lfsr_step g s b = lfsr_step g t b \<Longrightarrow> s = t"
proof (rule bit_word_eqI)
  fix n
  assume eq: "lfsr_step g s b = lfsr_step g t b" and n: "n < LENGTH('a)"
  have bits: "bit (lfsr_step g s b) m = bit (lfsr_step g t b) m" for m
    using eq by simp
  have top: "bit s (LENGTH('a) - 1) = bit t (LENGTH('a) - 1)"
    using bits [of 0] odd_poly by (auto simp only: bit_lfsr_step)
  show "bit s n = bit t n"
  proof (cases "Suc n < LENGTH('a)")
    case True
    with bits [of "Suc n"] top show ?thesis
      by (auto simp only: bit_lfsr_step diff_Suc_1)
  next
    case False
    with n have "n = LENGTH('a) - 1" by simp
    with top show ?thesis by simp
  qed
qed

lemma lfsr_inject: "lfsr g s bs = lfsr g t bs \<Longrightarrow> s = t"
  by (induction bs arbitrary: s t) (auto dest: step_inject)

lemma burst_detected:
  assumes len: "length u = length v" "length u \<le> LENGTH('a)" and "u \<noteq> v"
  shows "lfsr g s (u @ q) \<noteq> lfsr g s (v @ q)"
proof
  assume "lfsr g s (u @ q) = lfsr g s (v @ q)"
  then have "lfsr g s u = lfsr g s v"
    unfolding lfsr_append by (rule lfsr_inject)
  then have "lfsr g (s XOR align u) (replicate (length u) False) =
      lfsr g (s XOR align v) (replicate (length u) False)"
    using len by (simp add: lfsr_block [of u] lfsr_block [of v])
  then have "s XOR align u = s XOR align v"
    by (rule lfsr_inject)
  then have al: "align u = (align v :: 'a word)"
    by (metis xor.assoc xor_self_eq xor.left_neutral)
  have "u ! i = v ! i" if "i < length u" for i
  proof -
    have "LENGTH('a) - 1 - i < LENGTH('a)" "LENGTH('a) - 1 - (LENGTH('a) - 1 - i) = i"
      using that len by auto
    moreover have "bit (align u :: 'a word) (LENGTH('a) - 1 - i) = bit (align v :: 'a word) (LENGTH('a) - 1 - i)"
      using al by simp
    ultimately show ?thesis
      using that len(1) by (simp add: bit_align)
  qed
  with len(1) have "u = v"
    by (simp add: nth_equalityI)
  with \<open>u \<noteq> v\<close> show False ..
qed

text \<open>Feeding the register its own value clears it.\<close>

lemma self_residue:
  "length bs = LENGTH('a) \<Longrightarrow> align bs = s \<Longrightarrow> lfsr g s bs = 0"
proof -
  assume "length bs = LENGTH('a)" "align bs = s"
  then have "lfsr g s bs = lfsr g 0 (replicate (length bs) False)"
    by (subst lfsr_block) simp_all
  also have "lfsr g 0 (replicate n False) = 0" for n
    by (induction n) (auto simp: lfsr_step_def)
  finally show "lfsr g s bs = 0" .
qed

end

subsection \<open>Byte-wise registers\<close>

text \<open>
  What both CRC modules promise of their per-byte update: seen through an involution
  \<open>view\<close> (the identity, or reflection), processing a byte is feeding its bits to the
  bit-serial register.  Everything a caller needs of a checksum follows.
\<close>

locale byte_register = crc_generator g for g :: "'a::len word" +
  fixes process :: "'a word \<Rightarrow> u8 \<Rightarrow> 'a word"
    and view :: "'a word \<Rightarrow> 'a word"
    and refl :: bool
  assumes view_view: "view (view s) = s"
    and process_view: "view (process s b) = lfsr g (view s) (message_bits refl [b])"
begin

lemma view_inject: "view s = view t \<longleftrightarrow> s = t"
  by (metis view_view)

lemma fold_view: "view (foldl process s bs) = lfsr g (view s) (message_bits refl bs)"
  by (induction bs arbitrary: s) (auto simp: process_view lfsr_append)

lemma fold_eq: "foldl process s bs = view (lfsr g (view s) (message_bits refl bs))"
  by (metis fold_view view_view)

lemma fold_inject_register: "foldl process s bs = foldl process t bs \<Longrightarrow> s = t"
  by (metis fold_view lfsr_inject view_inject)

lemma burst_bits:
  assumes "message_bits refl xs = p @ u @ q" "message_bits refl ys = p @ v @ q"
    and "length u = length v" "length u \<le> LENGTH('a)" "u \<noteq> v"
  shows "foldl process s xs \<noteq> foldl process s ys"
  using burst_detected [OF assms(3-5), of "lfsr g (view s) p" q]
  by (metis assms(1,2) fold_view lfsr_append)

lemma burst_bytes:
  assumes "length u = length v" "8 * length u \<le> LENGTH('a)" "u \<noteq> v"
  shows "foldl process s (p @ u @ q) \<noteq> foldl process s (p @ v @ q)"
proof (rule burst_bits)
  show "message_bits refl (p @ u @ q) = message_bits refl p @ message_bits refl u @ message_bits refl q"
    "message_bits refl (p @ v @ q) = message_bits refl p @ message_bits refl v @ message_bits refl q"
    by (simp_all add: message_bits_append)
qed (use assms in \<open>auto simp: message_bits_inject\<close>)

lemma byte_change:
  assumes "i < length xs" "b \<noteq> xs ! i" "8 \<le> LENGTH('a)"
  shows "foldl process s (xs[i := b]) \<noteq> foldl process s xs"
  using burst_bytes [of "[b]" "[xs ! i]" s "take i xs" "drop (Suc i) xs"] assms
  by (simp add: upd_conv_take_nth_drop flip: id_take_nth_drop)

end

end
