(* ===== verification/CrcStream.thy ===== *)
theory CrcStream
  imports Prelude
begin

text \<open>
  What the incremental interface of a checksum module promises (locale
  \<open>streaming_checksum\<close>): the context stands for the message fed to it since it was last
  initialised.  Its clients are arbitrary sequences of calls on one context; each of them is
  answered as the message itself would be.  Provided by CRC-16 (\<open>Crc16\<close>) and CRC-32 (\<open>Crc32\<close>).
\<close>

datatype 'v stream_call =
    StreamInit
  | StreamUpdate "u8 list ptr" size_t
  | StreamResult "'v ptr"

text \<open>A call on a context, and a sequence of calls: what each returns, and its out parameter after the call.\<close>

fun stream_do ::
  "('c ptr \<Rightarrow> ('st \<times> 'c ptr) run) \<Rightarrow> ('c ptr \<Rightarrow> u8 list ptr \<Rightarrow> size_t \<Rightarrow> ('st \<times> 'c ptr) run) \<Rightarrow>
   ('c ptr \<Rightarrow> 'v ptr \<Rightarrow> ('st \<times> 'v ptr) run) \<Rightarrow> 'v stream_call \<Rightarrow> 'c \<Rightarrow> (('st \<times> 'v ptr) \<times> 'c) run" where
  "stream_do initialise update result StreamInit c =
     do { (status, ctx) \<leftarrow> initialise (Some c); c' \<leftarrow> deref ctx; Some ((status, None), c') }"
| "stream_do initialise update result (StreamUpdate data len) c =
     do { (status, ctx) \<leftarrow> update (Some c) data len; c' \<leftarrow> deref ctx; Some ((status, None), c') }"
| "stream_do initialise update result (StreamResult out) c =
     do { reply \<leftarrow> result (Some c) out; Some (reply, c) }"

primrec stream_run ::
  "('v stream_call \<Rightarrow> 'c \<Rightarrow> (('st \<times> 'v ptr) \<times> 'c) run) \<Rightarrow> 'v stream_call list \<Rightarrow> 'c \<Rightarrow>
   (('st \<times> 'v ptr) list \<times> 'c) run" where
  "stream_run act [] c = Some ([], c)"
| "stream_run act (call # calls) c =
     do {
       (reply, c') \<leftarrow> act call c;
       (replies, c'') \<leftarrow> stream_run act calls c';
       Some (reply # replies, c'')
     }"

text \<open>The buffer of a call has the bytes that the call states.\<close>

definition readable :: "'v stream_call \<Rightarrow> bool" where
  "readable call = (case call of StreamUpdate (Some data) len \<Rightarrow> unat len \<le> length data | _ \<Rightarrow> True)"

text \<open>The specification: the state is the message so far.\<close>

fun fed :: "'v stream_call \<Rightarrow> u8 list \<Rightarrow> u8 list" where
  "fed StreamInit msg = []"
| "fed (StreamUpdate (Some data) len) msg = msg @ take (unat len) data"
| "fed call msg = msg"

fun answer :: "'st \<Rightarrow> 'st \<Rightarrow> (u8 list \<Rightarrow> 'v) \<Rightarrow> 'v stream_call \<Rightarrow> u8 list \<Rightarrow> 'st \<times> 'v ptr" where
  "answer ok null checksum (StreamUpdate None len) msg = (if len = 0 then ok else null, None)"
| "answer ok null checksum (StreamResult None) msg = (null, None)"
| "answer ok null checksum (StreamResult (Some x)) msg = (ok, Some (checksum msg))"
| "answer ok null checksum call msg = (ok, None)"

primrec answers :: "'st \<Rightarrow> 'st \<Rightarrow> (u8 list \<Rightarrow> 'v) \<Rightarrow> 'v stream_call list \<Rightarrow> u8 list \<Rightarrow> ('st \<times> 'v ptr) list" where
  "answers ok null checksum [] msg = []"
| "answers ok null checksum (call # calls) msg =
     answer ok null checksum call msg # answers ok null checksum calls (fed call msg)"

locale streaming_checksum =
  fixes initialise :: "'c ptr \<Rightarrow> ('st \<times> 'c ptr) run"
    and update :: "'c ptr \<Rightarrow> u8 list ptr \<Rightarrow> size_t \<Rightarrow> ('st \<times> 'c ptr) run"
    and result :: "'c ptr \<Rightarrow> 'v ptr \<Rightarrow> ('st \<times> 'v ptr) run"
    and ok null :: 'st
    and checksum :: "u8 list \<Rightarrow> 'v"
    and stands_for :: "'c \<Rightarrow> u8 list \<Rightarrow> bool"
  assumes initialise: "\<exists>c'. initialise (Some c) = Some (ok, Some c') \<and> stands_for c' []"
    and update: "stands_for c msg \<Longrightarrow> unat len \<le> length data \<Longrightarrow>
      \<exists>c'. update (Some c) (Some data) len = Some (ok, Some c') \<and> stands_for c' (msg @ take (unat len) data)"
    and update_null: "update (Some c) None len = Some (if len = 0 then ok else null, Some c)"
    and result: "stands_for c msg \<Longrightarrow> result (Some c) (Some x) = Some (ok, Some (checksum msg))"
    and result_null: "result (Some c) None = Some (null, None)"
begin

lemma call_answered:
  assumes "stands_for c msg" "readable call"
  shows "\<exists>c'. stream_do initialise update result call c = Some (answer ok null checksum call msg, c') \<and>
    stands_for c' (fed call msg)"
proof (cases call)
  case StreamInit
  with initialise [of c] show ?thesis by (auto simp: deref_def)
next
  case (StreamUpdate data len)
  with assms update [of c msg len] update_null [of c len] show ?thesis
    by (cases data) (fastforce simp: readable_def deref_def)+
next
  case (StreamResult out)
  with assms(1) result [of c msg] result_null [of c] show ?thesis
    by (cases out) auto
qed

theorem calls_answered:
  assumes "stands_for c msg" "\<forall>call\<in>set calls. readable call"
  shows "\<exists>c'. stream_run (stream_do initialise update result) calls c = Some (answers ok null checksum calls msg, c') \<and>
    stands_for c' (fold fed calls msg)"
  using assms
proof (induction calls arbitrary: c msg)
  case Nil
  then show ?case by simp
next
  case (Cons call calls)
  obtain c1 where "stream_do initialise update result call c = Some (answer ok null checksum call msg, c1)"
    "stands_for c1 (fed call msg)"
    using call_answered [of c msg call] Cons.prems by auto
  with Cons.IH [of c1 "fed call msg"] Cons.prems(2) show ?case by auto
qed

text \<open>Whatever the context held before it is initialised.\<close>

corollary session_answered:
  assumes "\<forall>call\<in>set calls. readable call"
  shows "\<exists>c'. stream_run (stream_do initialise update result) (StreamInit # calls) c =
    Some ((ok, None) # answers ok null checksum calls [], c')"
proof -
  obtain c1 where "initialise (Some c) = Some (ok, Some c1)" "stands_for c1 []"
    using initialise [of c] by blast
  with calls_answered [OF this(2) assms] show ?thesis by (auto simp: deref_def)
qed

end

end
