(* ===== verification/Crc32.thy ===== *)
theory Crc32
  imports CrcModel CrcStream
begin

text \<open>
  The CRC-32/ISO-HDLC module (\<open>include/crc32.h\<close>, \<open>src/crc32.c\<close>): the context, the status
  codes, the reflected right-shifting register update and the five public functions.  The
  lemmas show that this register is, read backwards, the normal-form register with the
  polynomial \<open>0x04C11DB7\<close> fed with each byte least significant bit first (the argument
  \<open>docs/crc32-design.md\<close>, section 2, makes in words), and that the final XOR is applied
  once, on reading, and never stored.
\<close>

definition CRC32_POLYNOMIAL :: u32 where
  "CRC32_POLYNOMIAL = 0x04C11DB7"

definition CRC32_INITIAL_VALUE :: u32 where
  "CRC32_INITIAL_VALUE = 0xFFFFFFFF"

definition CRC32_FINAL_XOR :: u32 where
  "CRC32_FINAL_XOR = 0xFFFFFFFF"

definition CRC32_REFLECTED_POLYNOMIAL :: u32 where
  "CRC32_REFLECTED_POLYNOMIAL = 0xEDB88320"

record CRC32_Context_t =
  currentCRC32 :: u32

datatype CRC32_Status_t =
    CRC32_SUCCESS
  | CRC32_ERROR_NULL_POINTER
  | CRC32_ERROR_MISMATCH

definition validateContext32 :: "CRC32_Context_t ptr \<Rightarrow> CRC32_Status_t" where
  "validateContext32 ctx = (if ctx = None then CRC32_ERROR_NULL_POINTER else CRC32_SUCCESS)"

definition validateBuffer32 :: "u8 list ptr \<Rightarrow> size_t \<Rightarrow> CRC32_Status_t" where
  "validateBuffer32 data len =
     (if data = None \<and> len > 0 then CRC32_ERROR_NULL_POINTER else CRC32_SUCCESS)"

text \<open>One round of the loop of \<open>crc32ProcessByte\<close>, and the whole function.\<close>

definition crc32Round :: "u32 \<Rightarrow> u32" where
  "crc32Round crc =
     (if crc AND 0x00000001 \<noteq> 0
      then drop_bit 1 crc XOR CRC32_REFLECTED_POLYNOMIAL
      else drop_bit 1 crc)"

definition crc32ProcessByte :: "u32 \<Rightarrow> u8 \<Rightarrow> u32" where
  "crc32ProcessByte crc byteIn = (crc32Round ^^ 8) (crc XOR ucast byteIn)"

definition crc32Init :: "CRC32_Context_t ptr \<Rightarrow> (CRC32_Status_t \<times> CRC32_Context_t ptr) run" where
  "crc32Init ctx =
     (let status = validateContext32 ctx in
      if status \<noteq> CRC32_SUCCESS then Some (status, ctx)
      else do {
        c \<leftarrow> deref ctx;
        Some (CRC32_SUCCESS, Some (c\<lparr>currentCRC32 := CRC32_INITIAL_VALUE\<rparr>))
      })"

definition crc32Update ::
  "CRC32_Context_t ptr \<Rightarrow> u8 list ptr \<Rightarrow> size_t \<Rightarrow> (CRC32_Status_t \<times> CRC32_Context_t ptr) run" where
  "crc32Update ctx data len =
     (let status = validateContext32 ctx in
      if status \<noteq> CRC32_SUCCESS then Some (status, ctx)
      else let status = validateBuffer32 data len in
      if status \<noteq> CRC32_SUCCESS then Some (status, ctx)
      else do {
        c \<leftarrow> deref ctx;
        c' \<leftarrow> for_upto (unat len) 0
               (\<lambda>i c. do {
                  bytes \<leftarrow> deref data;
                  b \<leftarrow> rd bytes i;
                  Some (c\<lparr>currentCRC32 := crc32ProcessByte (currentCRC32 c) b\<rparr>)
                }) c;
        Some (CRC32_SUCCESS, Some c')
      })"

definition crc32GetResult :: "CRC32_Context_t ptr \<Rightarrow> u32 ptr \<Rightarrow> (CRC32_Status_t \<times> u32 ptr) run" where
  "crc32GetResult ctx crc =
     (let status = validateContext32 ctx in
      if status \<noteq> CRC32_SUCCESS then Some (status, crc)
      else if crc = None then Some (CRC32_ERROR_NULL_POINTER, crc)
      else do {
        c \<leftarrow> deref ctx;
        Some (CRC32_SUCCESS, Some (currentCRC32 c XOR CRC32_FINAL_XOR))
      })"

text \<open>
  \<open>ctx\<close> is a local variable of \<open>crc32Compute\<close>; its value before \<open>crc32Init\<close> is
  indeterminate in C and is the argument \<open>junk\<close> here.
\<close>

definition crc32ComputeFrom ::
  "CRC32_Context_t \<Rightarrow> u8 list ptr \<Rightarrow> size_t \<Rightarrow> u32 ptr \<Rightarrow> (CRC32_Status_t \<times> u32 ptr) run" where
  "crc32ComputeFrom junk data len crc =
     (if crc = None then Some (CRC32_ERROR_NULL_POINTER, crc)
      else do {
        (status, ctx) \<leftarrow> crc32Init (Some junk);
        if status \<noteq> CRC32_SUCCESS then Some (status, crc)
        else do {
          (status, ctx) \<leftarrow> crc32Update ctx data len;
          if status \<noteq> CRC32_SUCCESS then Some (status, crc)
          else crc32GetResult ctx crc
        }
      })"

definition crc32Compute :: "u8 list ptr \<Rightarrow> size_t \<Rightarrow> u32 ptr \<Rightarrow> (CRC32_Status_t \<times> u32 ptr) run" where
  "crc32Compute = crc32ComputeFrom \<lparr>currentCRC32 = 0\<rparr>"

definition crc32Verify :: "u8 list ptr \<Rightarrow> size_t \<Rightarrow> u32 \<Rightarrow> CRC32_Status_t run" where
  "crc32Verify data len receivedCRC =
     do {
       (status, calculated) \<leftarrow> crc32Compute data len (Some 0);
       if status \<noteq> CRC32_SUCCESS then Some status
       else do {
         calculatedCRC \<leftarrow> deref calculated;
         if calculatedCRC \<noteq> receivedCRC then Some CRC32_ERROR_MISMATCH else Some CRC32_SUCCESS
       }
     }"

subsection \<open>The register\<close>

definition CRC32_params :: "u32 crc_params" where
  "CRC32_params =
     \<lparr>p_poly = 0x04C11DB7, p_init = 0xFFFFFFFF, p_refin = True, p_refout = True,
      p_xorout = 0xFFFFFFFF\<rparr>"

text \<open>The fold that \<open>crc32Update\<close> performs, without its guards.\<close>

definition crc32_fold :: "u32 \<Rightarrow> u8 list \<Rightarrow> u32" where
  "crc32_fold s bs = foldl crc32ProcessByte s bs"

definition crc32_of :: "u8 list \<Rightarrow> u32" where
  "crc32_of bs = crc32_fold CRC32_INITIAL_VALUE bs XOR CRC32_FINAL_XOR"

lemma low_bit_iff: "(s :: u32) AND 1 \<noteq> 0 \<longleftrightarrow> bit s 0"
  using and_exp_eq_0_iff_not_bit [of s 0] by simp

lemma reflect_poly: "reflect CRC32_REFLECTED_POLYNOMIAL = CRC32_POLYNOMIAL"
  by (simp add: reflect_def CRC32_REFLECTED_POLYNOMIAL_def CRC32_POLYNOMIAL_def upt_rec)

lemma reflect_init: "reflect CRC32_INITIAL_VALUE = CRC32_INITIAL_VALUE"
  by (simp add: reflect_def CRC32_INITIAL_VALUE_def upt_rec)

lemma reflect_drop: "reflect (drop_bit 1 s) = (push_bit 1 (reflect s) :: u32)"
proof (rule bit_word_eqI)
  fix n
  assume n: "n < LENGTH(32)"
  have "bit (reflect (drop_bit 1 s)) n \<longleftrightarrow> bit s (Suc (31 - n))"
    using n by (simp add: bit_reflect bit_shift_down del: One_nat_def)
  also have "\<dots> \<longleftrightarrow> 0 < n \<and> bit s (31 - (n - 1))"
  proof (cases n)
    case 0
    then show ?thesis by (auto dest: bit_imp_le_length)
  next
    case (Suc m)
    with n have "Suc (31 - n) = 31 - (n - 1)" by simp
    with Suc show ?thesis by simp
  qed
  also have "\<dots> \<longleftrightarrow> bit (push_bit 1 (reflect s)) n"
    using n by (auto simp add: bit_reflect bit_shift_up simp del: One_nat_def)
  finally show "bit (reflect (drop_bit 1 s)) n = bit (push_bit 1 (reflect s)) n" .
qed

lemma crc32Round_lfsr: "reflect (crc32Round s) = lfsr_step CRC32_POLYNOMIAL (reflect s) False"
  unfolding crc32Round_def lfsr_step_def
  by (simp only: low_bit_iff reflect_xor reflect_drop reflect_poly bit_reflect if_distrib [of reflect]) simp

lemma rounds_lfsr32:
  "reflect ((crc32Round ^^ n) s) = lfsr CRC32_POLYNOMIAL (reflect s) (replicate n False)"
  by (induction n arbitrary: s) (simp_all add: crc32Round_lfsr funpow_Suc_right del: funpow.simps)

lemma align_byte32: "align (byte_bits_lsb b) = (reflect (ucast b) :: u32)"
proof (rule bit_word_eqI)
  fix n
  assume "n < LENGTH(32)"
  moreover have "bit b (31 - n) \<Longrightarrow> 31 - n < 8"
    using bit_imp_le_length [of b "31 - n"] by simp
  ultimately show "bit (align (byte_bits_lsb b) :: u32) n = bit (reflect (ucast b) :: u32) n"
    by (auto simp: bit_align byte_bits_upt bit_reflect bit_ucast_iff)
qed

interpretation crc32_gen: crc_generator CRC32_POLYNOMIAL
  by unfold_locales (simp add: CRC32_POLYNOMIAL_def)

lemma crc32ProcessByte_lfsr:
  "reflect (crc32ProcessByte s b) = lfsr CRC32_POLYNOMIAL (reflect s) (byte_bits_lsb b)"
  using crc32_gen.lfsr_block [of "byte_bits_lsb b" "reflect s"]
  by (simp add: crc32ProcessByte_def rounds_lfsr32 reflect_xor align_byte32 del: funpow.simps)

interpretation crc32_reg: byte_register CRC32_POLYNOMIAL crc32ProcessByte reflect True
  by unfold_locales (simp_all add: crc32ProcessByte_lfsr)

lemma crc32_fold_simps [simp]:
  "crc32_fold s [] = s"
  "crc32_fold s (b # bs) = crc32_fold (crc32ProcessByte s b) bs"
  "crc32_fold s (xs @ ys) = crc32_fold (crc32_fold s xs) ys"
  by (simp_all add: crc32_fold_def)

lemma crc32_of_model: "crc32_of bs = crc_value CRC32_params bs"
  using crc32_reg.fold_eq [of CRC32_INITIAL_VALUE bs]
  unfolding reflect_init
  by (simp add: crc32_of_def crc32_fold_def crc_value_def CRC32_params_def
      CRC32_POLYNOMIAL_def CRC32_INITIAL_VALUE_def CRC32_FINAL_XOR_def)

subsection \<open>The public functions\<close>

lemma crc32Init_simps:
  "crc32Init None = Some (CRC32_ERROR_NULL_POINTER, None)"
  "crc32Init (Some c) = Some (CRC32_SUCCESS, Some (c\<lparr>currentCRC32 := CRC32_INITIAL_VALUE\<rparr>))"
  by (simp_all add: crc32Init_def validateContext32_def)

lemma crc32_loop:
  "n \<le> length bytes \<Longrightarrow>
   for_upto n 0 (\<lambda>i c. do { b \<leftarrow> rd bytes i; Some (c\<lparr>currentCRC32 := crc32ProcessByte (currentCRC32 c) b\<rparr>) }) c
   = Some (c\<lparr>currentCRC32 := crc32_fold (currentCRC32 c) (take n bytes)\<rparr>)"
proof -
  have "foldl (\<lambda>c b. c\<lparr>currentCRC32 := crc32ProcessByte (currentCRC32 c) b\<rparr>) c bs
      = c\<lparr>currentCRC32 := crc32_fold (currentCRC32 c) bs\<rparr>" for bs
    by (induction bs arbitrary: c) auto
  then show "n \<le> length bytes \<Longrightarrow> ?thesis"
    by (subst for_upto_fold) auto
qed

lemma crc32Update_NULL:
  "crc32Update None data len = Some (CRC32_ERROR_NULL_POINTER, None)"
  "len \<noteq> 0 \<Longrightarrow> crc32Update (Some c) None len = Some (CRC32_ERROR_NULL_POINTER, Some c)"
  "crc32Update (Some c) data 0 = Some (CRC32_SUCCESS, Some c)"
  by (simp_all add: crc32Update_def validateContext32_def validateBuffer32_def word_neq_0_conv)

lemma crc32Update_ok:
  "unat len \<le> length bytes \<Longrightarrow>
   crc32Update (Some c) (Some bytes) len =
   Some (CRC32_SUCCESS, Some (c\<lparr>currentCRC32 := crc32_fold (currentCRC32 c) (take (unat len) bytes)\<rparr>))"
  by (simp add: crc32Update_def validateContext32_def validateBuffer32_def crc32_loop)

lemma crc32GetResult_simps:
  "crc32GetResult None crc = Some (CRC32_ERROR_NULL_POINTER, crc)"
  "crc32GetResult (Some c) None = Some (CRC32_ERROR_NULL_POINTER, None)"
  "crc32GetResult (Some c) (Some x) = Some (CRC32_SUCCESS, Some (currentCRC32 c XOR CRC32_FINAL_XOR))"
  by (simp_all add: crc32GetResult_def validateContext32_def)

lemma crc32ComputeFrom_ok:
  "unat len \<le> length bytes \<Longrightarrow>
   crc32ComputeFrom junk (Some bytes) len (Some x) = Some (CRC32_SUCCESS, Some (crc32_of (take (unat len) bytes)))"
  by (simp add: crc32ComputeFrom_def crc32Init_simps crc32Update_ok crc32GetResult_simps crc32_of_def)

lemma crc32Compute_ok:
  "unat len \<le> length bytes \<Longrightarrow>
   crc32Compute (Some bytes) len (Some x) = Some (CRC32_SUCCESS, Some (crc32_of (take (unat len) bytes)))"
  by (simp add: crc32Compute_def crc32ComputeFrom_ok)

lemma crc32Compute_NULL:
  "crc32Compute data len None = Some (CRC32_ERROR_NULL_POINTER, None)"
  "len \<noteq> 0 \<Longrightarrow> crc32Compute None len (Some x) = Some (CRC32_ERROR_NULL_POINTER, Some x)"
  "crc32Compute data 0 (Some x) = Some (CRC32_SUCCESS, Some (crc32_of []))"
  by (simp_all add: crc32_of_def crc32Compute_def crc32ComputeFrom_def crc32Init_simps crc32Update_NULL
      crc32GetResult_simps)

lemma crc32Verify_NULL: "len \<noteq> 0 \<Longrightarrow> crc32Verify None len r = Some CRC32_ERROR_NULL_POINTER"
  by (simp add: crc32Verify_def crc32Compute_NULL)

lemma crc32Verify_ok:
  "unat len \<le> length bytes \<Longrightarrow>
   crc32Verify (Some bytes) len r =
   Some (if crc32_of (take (unat len) bytes) = r then CRC32_SUCCESS else CRC32_ERROR_MISMATCH)"
  by (simp add: crc32Verify_def crc32Compute_ok)

lemma crc32Verify_empty:
  "crc32Verify None 0 r = Some (if r = crc_value CRC32_params [] then CRC32_SUCCESS else CRC32_ERROR_MISMATCH)"
  by (simp add: crc32Verify_def crc32Compute_def crc32ComputeFrom_def crc32Init_def crc32Update_def
      crc32GetResult_def validateContext32_def validateBuffer32_def crc32_of_model [symmetric] crc32_of_def crc32_fold_def)

subsection \<open>Properties\<close>

text \<open>The context stands for the bytes fed to it.\<close>

interpretation crc32_stream: streaming_checksum crc32Init crc32Update crc32GetResult
    CRC32_SUCCESS CRC32_ERROR_NULL_POINTER "crc_value CRC32_params"
    "\<lambda>c msg. currentCRC32 c = crc32_fold CRC32_INITIAL_VALUE msg"
proof unfold_locales
  fix c len
  show "crc32Update (Some c) None len =
      Some (if len = 0 then CRC32_SUCCESS else CRC32_ERROR_NULL_POINTER, Some c)"
    by (cases "len = 0") (simp_all add: crc32Update_NULL)
qed (simp_all add: crc32Init_simps crc32Update_ok crc32GetResult_simps crc32_of_model [symmetric] crc32_of_def)

lemma xor_cancel32: "(a :: u32) XOR c = b XOR c \<Longrightarrow> a = b"
  by (drule arg_cong [where f = "\<lambda>w. w XOR c"]) (simp add: xor.assoc)

text \<open>C17: \<open>crc32Compute\<close> on a readable buffer of \<open>len\<close> bytes succeeds, whatever the local
  context held before, and stores the CRC-32 of exactly those bytes: the value
  of the bit-serial parametrised model with polynomial 0x04C11DB7, initial value and
  final XOR 0xFFFFFFFF, input and output reflected.\<close>

theorem crc32_compute_model:
  "unat len \<le> length bytes \<Longrightarrow>
   crc32ComputeFrom junk (Some bytes) len (Some x) =
     Some (CRC32_SUCCESS, Some (crc_value CRC32_params (take (unat len) bytes)))"
  by (simp add: crc32ComputeFrom_ok crc32_of_model)

theorem crc32_compute_model_witness:
  "crc32Compute (Some [0x31, 0x32, 0x33, 0x34, 0x35, 0x36, 0x37, 0x38, 0x39]) 9 (Some 0) =
     Some (CRC32_SUCCESS, Some 0xCBF43926)"
proof -
  have "crc_value CRC32_params (take 9 [0x31, 0x32, 0x33, 0x34, 0x35, 0x36, 0x37, 0x38, 0x39]) = 0xCBF43926"
    by code_simp
  then show ?thesis
    using crc32_compute_model [of 9 "[0x31, 0x32, 0x33, 0x34, 0x35, 0x36, 0x37, 0x38, 0x39]" "\<lparr>currentCRC32 = 0\<rparr>" 0]
    by (simp add: crc32Compute_def)
qed

text \<open>What a verification of a readable buffer reports.\<close>

lemma crc32_verify_exact:
  assumes "unat len \<le> length bytes"
  shows "crc32Verify (Some bytes) len r =
      Some (if r = crc_value CRC32_params (take (unat len) bytes) then CRC32_SUCCESS else CRC32_ERROR_MISMATCH)"
  using assms by (simp add: crc32Verify_ok crc32_of_model)

text \<open>C33: CRC-32 detects every error burst of at most 32 bits: if two messages of one length
  agree but for a window of at most 32 consecutive bits (least significant bit of each byte
  first) and differ inside it, then verifying one against the CRC computed for the other
  reports a mismatch.\<close>

theorem crc32_detects_bursts:
  assumes "message_bits True xs = p @ u @ q" "message_bits True ys = p @ v @ q"
    and "length u = length v" "length u \<le> 32" "u \<noteq> v" "length xs < size_limit"
  shows "\<exists>c. crc32Compute (Some xs) (of_nat (length xs)) (Some 0) = Some (CRC32_SUCCESS, Some c) \<and>
    crc32Verify (Some ys) (of_nat (length ys)) c = Some CRC32_ERROR_MISMATCH"
proof -
  have "length ys = length xs"
    using arg_cong [OF assms(1), of length] arg_cong [OF assms(2), of length] assms(3) by simp
  moreover have "crc32_of xs \<noteq> crc32_of ys"
    using crc32_reg.burst_bits [OF assms(1,2,3) _ assms(5)] assms(4)
    by (auto simp: crc32_of_def crc32_fold_def dest: xor_cancel32)
  ultimately show ?thesis
    using assms(6) by (simp add: crc32Compute_ok crc32Verify_ok unat_of_nat_size)
qed

theorem crc32_detects_bursts_witness:
  "\<exists>c. crc32Compute (Some [0x12, 0x34]) 2 (Some 0) = Some (CRC32_SUCCESS, Some c) \<and>
    crc32Verify (Some [0x12, 0x35]) 2 c = Some CRC32_ERROR_MISMATCH"
proof -
  have "message_bits True [0x12, 0x34] = take 8 (message_bits True [0x12, 0x34]) @ [False] @ drop 9 (message_bits True [0x12, 0x34])"
    "message_bits True [0x12, 0x35] = take 8 (message_bits True [0x12, 0x34]) @ [True] @ drop 9 (message_bits True [0x12, 0x34])"
    by code_simp+
  from crc32_detects_bursts [OF this] show ?thesis by simp
qed

end
