(* ===== verification/BitUtils.thy ===== *)
theory BitUtils
  imports Prelude
begin

text \<open>
  The bit utilities (\<open>include/bitUtils.h\<close>, \<open>src/bitUtils.c\<close>): six operations on a 32-bit
  value, each with its argument checks, its out parameter and its status.  The lemmas say
  what each does bit by bit, that the shifts are never by 32 or more, and that a field
  inserted is the field extracted.
\<close>

definition BIT_UTILS_MAX_BIT_POSITION :: u8 where
  "BIT_UTILS_MAX_BIT_POSITION = 31"

definition BIT_UTILS_WORD_SIZE_BITS :: u32 where
  "BIT_UTILS_WORD_SIZE_BITS = 32"

datatype BitUtilsStatus_t =
    BITUTILS_SUCCESS
  | BITUTILS_ERROR_NULL_POINTER
  | BITUTILS_ERROR_INVALID_BIT_POSITION
  | BITUTILS_ERROR_INVALID_START_BIT
  | BITUTILS_ERROR_INVALID_NUM_BITS
  | BITUTILS_ERROR_INVALID_VALUE

definition validateBitPosition :: "u8 \<Rightarrow> BitUtilsStatus_t" where
  "validateBitPosition bitPosition =
     (if ucast bitPosition \<ge> BIT_UTILS_WORD_SIZE_BITS
      then BITUTILS_ERROR_INVALID_BIT_POSITION else BITUTILS_SUCCESS)"

definition validateBitRange :: "u8 \<Rightarrow> u8 \<Rightarrow> BitUtilsStatus_t" where
  "validateBitRange startBit numBits =
     (if ucast startBit \<ge> BIT_UTILS_WORD_SIZE_BITS then BITUTILS_ERROR_INVALID_START_BIT
      else if numBits = 0 \<or> ucast numBits > BIT_UTILS_WORD_SIZE_BITS - ucast startBit
      then BITUTILS_ERROR_INVALID_NUM_BITS
      else BITUTILS_SUCCESS)"

definition generateMask :: "u8 \<Rightarrow> u32 run" where
  "generateMask numBits =
     (if ucast numBits = BIT_UTILS_WORD_SIZE_BITS then Some 0xFFFFFFFF
      else do { top \<leftarrow> c_shl 1 (unat numBits); Some (top - 1) })"

definition bitUtilsSetBit :: "u32 \<Rightarrow> u8 \<Rightarrow> u32 ptr \<Rightarrow> (BitUtilsStatus_t \<times> u32 ptr) run" where
  "bitUtilsSetBit val bitPosition updatedValue =
     (if updatedValue = None then Some (BITUTILS_ERROR_NULL_POINTER, updatedValue)
      else let status = validateBitPosition bitPosition in
      if status \<noteq> BITUTILS_SUCCESS then Some (status, updatedValue)
      else do {
        m \<leftarrow> c_shl 1 (unat bitPosition);
        Some (BITUTILS_SUCCESS, Some (val OR m))
      })"

definition bitUtilsClearBit :: "u32 \<Rightarrow> u8 \<Rightarrow> u32 ptr \<Rightarrow> (BitUtilsStatus_t \<times> u32 ptr) run" where
  "bitUtilsClearBit val bitPosition updatedValue =
     (if updatedValue = None then Some (BITUTILS_ERROR_NULL_POINTER, updatedValue)
      else let status = validateBitPosition bitPosition in
      if status \<noteq> BITUTILS_SUCCESS then Some (status, updatedValue)
      else do {
        m \<leftarrow> c_shl 1 (unat bitPosition);
        Some (BITUTILS_SUCCESS, Some (val AND NOT m))
      })"

definition bitUtilsToggleBit :: "u32 \<Rightarrow> u8 \<Rightarrow> u32 ptr \<Rightarrow> (BitUtilsStatus_t \<times> u32 ptr) run" where
  "bitUtilsToggleBit val bitPosition updatedValue =
     (if updatedValue = None then Some (BITUTILS_ERROR_NULL_POINTER, updatedValue)
      else let status = validateBitPosition bitPosition in
      if status \<noteq> BITUTILS_SUCCESS then Some (status, updatedValue)
      else do {
        m \<leftarrow> c_shl 1 (unat bitPosition);
        Some (BITUTILS_SUCCESS, Some (val XOR m))
      })"

definition bitUtilsIsBitSet :: "u32 \<Rightarrow> u8 \<Rightarrow> bool ptr \<Rightarrow> (BitUtilsStatus_t \<times> bool ptr) run" where
  "bitUtilsIsBitSet val bitPosition isSet =
     (if isSet = None then Some (BITUTILS_ERROR_NULL_POINTER, isSet)
      else let status = validateBitPosition bitPosition in
      if status \<noteq> BITUTILS_SUCCESS then Some (status, isSet)
      else do {
        m \<leftarrow> c_shl 1 (unat bitPosition);
        Some (BITUTILS_SUCCESS, Some (val AND m \<noteq> 0))
      })"

definition bitUtilsExtractBits ::
  "u32 \<Rightarrow> u8 \<Rightarrow> u8 \<Rightarrow> u32 ptr \<Rightarrow> (BitUtilsStatus_t \<times> u32 ptr) run" where
  "bitUtilsExtractBits val startBit numBits extractedBits =
     (if extractedBits = None then Some (BITUTILS_ERROR_NULL_POINTER, extractedBits)
      else let status = validateBitRange startBit numBits in
      if status \<noteq> BITUTILS_SUCCESS then Some (status, extractedBits)
      else do {
        low \<leftarrow> generateMask numBits;
        mask \<leftarrow> c_shl low (unat startBit);
        field \<leftarrow> c_shr (val AND mask) (unat startBit);
        Some (BITUTILS_SUCCESS, Some field)
      })"

definition bitUtilsInsertBits ::
  "u32 \<Rightarrow> u32 \<Rightarrow> u8 \<Rightarrow> u8 \<Rightarrow> u32 ptr \<Rightarrow> (BitUtilsStatus_t \<times> u32 ptr) run" where
  "bitUtilsInsertBits val bitsToInsert startBit numBits updatedValue =
     (if updatedValue = None then Some (BITUTILS_ERROR_NULL_POINTER, updatedValue)
      else let status = validateBitRange startBit numBits in
      if status \<noteq> BITUTILS_SUCCESS then Some (status, updatedValue)
      else do {
        maxValueForWidth \<leftarrow> generateMask numBits;
        if bitsToInsert > maxValueForWidth then Some (BITUTILS_ERROR_INVALID_VALUE, updatedValue)
        else do {
          mask \<leftarrow> c_shl maxValueForWidth (unat startBit);
          bits \<leftarrow> c_shl bitsToInsert (unat startBit);
          Some (BITUTILS_SUCCESS, Some ((val AND NOT mask) OR (bits AND mask)))
        }
      })"

subsection \<open>Masks and ranges\<close>

lemma ucast_ge_32: "(ucast (b :: u8) :: u32) \<ge> 32 \<longleftrightarrow> 32 \<le> unat b"
  by (simp add: word_le_nat_alt)

lemma validateBitPosition_iff:
  "validateBitPosition p = BITUTILS_SUCCESS \<longleftrightarrow> unat p < 32"
  "validateBitPosition p \<noteq> BITUTILS_SUCCESS \<Longrightarrow> validateBitPosition p = BITUTILS_ERROR_INVALID_BIT_POSITION"
  by (auto simp: validateBitPosition_def BIT_UTILS_WORD_SIZE_BITS_def ucast_ge_32 split: if_splits)

text \<open>The largest position of the header is the largest that is accepted.\<close>

lemma validateBitPosition_max: "validateBitPosition b = BITUTILS_SUCCESS \<longleftrightarrow> b \<le> BIT_UTILS_MAX_BIT_POSITION"
  by (auto simp: validateBitPosition_iff BIT_UTILS_MAX_BIT_POSITION_def word_le_nat_alt)

lemma range_width:
  "unat s < 32 \<Longrightarrow> (ucast (n :: u8) :: u32) > 32 - ucast (s :: u8) \<longleftrightarrow> 32 < unat s + unat n"
proof -
  assume "unat s < 32"
  then have "unat (32 - ucast s :: u32) = 32 - unat s"
    by (subst unat_sub_noof) simp_all
  moreover have "32 - unat s < unat n \<longleftrightarrow> 32 < unat s + unat n"
    using \<open>unat s < 32\<close> by linarith
  ultimately show ?thesis
    by (simp add: word_less_nat_alt)
qed

lemma validateBitRange_cases:
  "validateBitRange s n =
     (if 32 \<le> unat s then BITUTILS_ERROR_INVALID_START_BIT
      else if n = 0 \<or> 32 < unat s + unat n then BITUTILS_ERROR_INVALID_NUM_BITS
      else BITUTILS_SUCCESS)"
  by (auto simp: validateBitRange_def BIT_UTILS_WORD_SIZE_BITS_def ucast_ge_32 range_width)

lemma generateMask_mask: "unat n \<le> 32 \<Longrightarrow> generateMask n = Some (mask (unat n))"
proof -
  assume n: "unat n \<le> 32"
  have "(ucast n :: u32) = 32 \<longleftrightarrow> unat n = 32"
    by (simp add: word_unat_eq_iff)
  moreover have "(mask 32 :: u32) = 0xFFFFFFFF"
    by (simp add: mask_eq_exp_minus_1)
  moreover have "generateMask n = Some (mask (unat n))" if "unat n < 32"
    using that calculation(1)
    by (simp add: generateMask_def BIT_UTILS_WORD_SIZE_BITS_def mask_eq_exp_minus_1 push_bit_of_1)
  ultimately show ?thesis
    using n by (cases "unat n = 32") (auto simp: generateMask_def BIT_UTILS_WORD_SIZE_BITS_def)
qed

lemma le_mask_iff: "n \<le> 32 \<Longrightarrow> (v :: u32) \<le> mask n \<longleftrightarrow> (\<forall>i. bit v i \<longrightarrow> i < n)"
proof -
  assume n: "n \<le> 32"
  have "uint (mask n :: u32) = mask n"
    using n by (simp add: uint_mask_eq min_def)
  then have "v \<le> mask n \<longleftrightarrow> uint v \<le> mask n"
    by (simp add: word_le_def)
  also have "\<dots> \<longleftrightarrow> uint v < 2 ^ n"
    by (simp add: mask_eq_exp_minus_1 zle_diff1_eq)
  also have "\<dots> \<longleftrightarrow> take_bit n (uint v) = uint v"
    by (simp add: take_bit_int_eq_self_iff)
  also have "\<dots> \<longleftrightarrow> take_bit n v = v"
    by (simp add: word_uint_eq_iff unsigned_take_bit_eq)
  also have "\<dots> \<longleftrightarrow> (\<forall>i. bit v i \<longrightarrow> i < n)"
    using bit_imp_le_length [of v] by (auto simp: bit_eq_iff bit_take_bit_iff)
  finally show ?thesis .
qed

subsection \<open>The operations\<close>

lemmas bitUtils_defs =
  bitUtilsSetBit_def bitUtilsClearBit_def bitUtilsToggleBit_def bitUtilsIsBitSet_def
  bitUtilsExtractBits_def bitUtilsInsertBits_def

text \<open>The field of \<open>n\<close> bits from \<open>s\<close> on: the reference for extraction and insertion.\<close>

definition field :: "u32 \<Rightarrow> nat \<Rightarrow> nat \<Rightarrow> u32" where
  "field v s n = take_bit n (drop_bit s v)"

lemma bit_field: "bit (field v s n) i \<longleftrightarrow> i < n \<and> bit v (s + i)"
  by (auto simp: field_def bit_take_bit_iff bit_drop_bit_eq)

lemma single_bit_ok:
  assumes "unat p < 32"
  shows "bitUtilsSetBit v p (Some x) = Some (BITUTILS_SUCCESS, Some (set_bit (unat p) v))"
    and "bitUtilsClearBit v p (Some x) = Some (BITUTILS_SUCCESS, Some (unset_bit (unat p) v))"
    and "bitUtilsToggleBit v p (Some x) = Some (BITUTILS_SUCCESS, Some (flip_bit (unat p) v))"
    and "bitUtilsIsBitSet v p (Some y) = Some (BITUTILS_SUCCESS, Some (bit v (unat p)))"
  using assms validateBitPosition_iff(1) [of p]
  by (simp_all add: bitUtils_defs set_bit_eq_or unset_bit_eq_and_not flip_bit_eq_xor
      push_bit_of_1 and_exp_eq_0_iff_not_bit)

lemma single_bit_bad:
  assumes "32 \<le> unat p"
  shows "bitUtilsSetBit v p (Some x) = Some (BITUTILS_ERROR_INVALID_BIT_POSITION, Some x)"
    and "bitUtilsClearBit v p (Some x) = Some (BITUTILS_ERROR_INVALID_BIT_POSITION, Some x)"
    and "bitUtilsToggleBit v p (Some x) = Some (BITUTILS_ERROR_INVALID_BIT_POSITION, Some x)"
    and "bitUtilsIsBitSet v p (Some y) = Some (BITUTILS_ERROR_INVALID_BIT_POSITION, Some y)"
  using assms validateBitPosition_iff [of p] by (simp_all add: bitUtils_defs)

lemma bitUtils_NULL:
  "bitUtilsSetBit v p None = Some (BITUTILS_ERROR_NULL_POINTER, None)"
  "bitUtilsClearBit v p None = Some (BITUTILS_ERROR_NULL_POINTER, None)"
  "bitUtilsToggleBit v p None = Some (BITUTILS_ERROR_NULL_POINTER, None)"
  "bitUtilsIsBitSet v p None = Some (BITUTILS_ERROR_NULL_POINTER, None)"
  "bitUtilsExtractBits v p n None = Some (BITUTILS_ERROR_NULL_POINTER, None)"
  "bitUtilsInsertBits v w p n None = Some (BITUTILS_ERROR_NULL_POINTER, None)"
  by (simp_all add: bitUtils_defs)

lemma range_bad:
  assumes "32 \<le> unat s \<or> n = 0 \<or> 32 < unat s + unat n"
  shows "bitUtilsExtractBits v s n (Some x) = Some (validateBitRange s n, Some x)"
    and "bitUtilsInsertBits v w s n (Some x) = Some (validateBitRange s n, Some x)"
    and "validateBitRange s n \<in> {BITUTILS_ERROR_INVALID_START_BIT, BITUTILS_ERROR_INVALID_NUM_BITS}"
  using assms by (auto simp: bitUtils_defs validateBitRange_cases)

lemma range_ok:
  assumes "n \<noteq> 0" "unat s + unat n \<le> 32"
  shows "unat s < 32" "unat n \<le> 32" "validateBitRange s n = BITUTILS_SUCCESS"
proof -
  have "0 < unat n" using assms(1) by (simp add: unat_gt_0)
  with assms(2) show "unat s < 32" "unat n \<le> 32" by auto
  with assms show "validateBitRange s n = BITUTILS_SUCCESS"
    by (simp add: validateBitRange_cases)
qed

lemma extract_ok:
  assumes "n \<noteq> 0" "unat s + unat n \<le> 32"
  shows "bitUtilsExtractBits v s n (Some x) = Some (BITUTILS_SUCCESS, Some (field v (unat s) (unat n)))"
proof -
  have "drop_bit (unat s) (v AND push_bit (unat s) (mask (unat n))) = field v (unat s) (unat n)"
    using assms(2)
    by (auto intro!: bit_word_eqI simp: bit_field bit_drop_bit_eq bit_and_iff bit_push_bit_iff bit_mask_iff)
  with range_ok [OF assms] show ?thesis
    by (simp add: bitUtils_defs generateMask_mask)
qed

text \<open>The value with the field from \<open>s\<close> replaced by \<open>w\<close>.\<close>

definition with_field :: "u32 \<Rightarrow> u32 \<Rightarrow> nat \<Rightarrow> nat \<Rightarrow> u32" where
  "with_field v w s n =
     (v AND NOT (push_bit s (mask n))) OR (push_bit s w AND push_bit s (mask n))"

lemma bit_with_field:
  "s + n \<le> 32 \<Longrightarrow> i < 32 \<Longrightarrow>
   bit (with_field v w s n) i \<longleftrightarrow> (if s \<le> i \<and> i < s + n then bit w (i - s) else bit v i)"
  by (auto simp: with_field_def bit_or_iff bit_and_iff bit_not_iff bit_push_bit_iff bit_mask_iff)

lemma insert_ok:
  assumes "n \<noteq> 0" "unat s + unat n \<le> 32"
  shows "bitUtilsInsertBits v w s n (Some x) =
    Some (if w \<le> mask (unat n) then (BITUTILS_SUCCESS, Some (with_field v w (unat s) (unat n)))
          else (BITUTILS_ERROR_INVALID_VALUE, Some x))"
  using range_ok [OF assms]
  by (auto simp: bitUtils_defs generateMask_mask with_field_def not_le)

lemma field_with_field:
  "s + n \<le> 32 \<Longrightarrow> w \<le> mask n \<Longrightarrow> field (with_field v w s n) s n = w"
  by (rule bit_word_eqI) (auto simp: bit_field bit_with_field le_mask_iff)

lemma with_field_field: "s + n \<le> 32 \<Longrightarrow> with_field v (field v s n) s n = v"
  by (rule bit_word_eqI) (auto simp: bit_field bit_with_field)

lemma field_le_mask: "n \<le> 32 \<Longrightarrow> field v s n \<le> mask n"
  by (simp add: le_mask_iff bit_field)

subsection \<open>Properties\<close>

lemma unat_field: "unat (field v s n) = unat v div 2 ^ s mod 2 ^ n"
proof -
  have "unat (field v s n) = take_bit n (drop_bit s (unat v))"
    unfolding field_def unsigned_take_bit_eq unsigned_drop_bit_eq
    using take_bit_nat_eq_self [OF unsigned_less [of v, where ?'a = nat]] by simp
  then show ?thesis
    by (simp only: take_bit_eq_mod drop_bit_eq_div)
qed

lemma le_mask_unat: "n \<le> 32 \<Longrightarrow> w \<le> mask n \<longleftrightarrow> unat (w :: u32) < 2 ^ n"
proof -
  assume n: "n \<le> 32"
  have "uint (mask n :: u32) = mask n"
    using n by (simp add: uint_mask_eq min_def)
  then have "w \<le> mask n \<longleftrightarrow> uint w < 2 ^ n"
    by (simp add: word_le_def mask_eq_exp_minus_1 zle_diff1_eq)
  also have "uint w = int (unat w)"
    by simp
  finally show ?thesis
    by (simp only: of_nat_less_numeral_power_cancel_iff)
qed

text \<open>For every value and every position below 32, set, clear and toggle succeed and
  change exactly the named bit (to one, to zero, to its negation) and the query reports it;
  for every position from 32 on all four fail with the bit-position status and leave the
  output as it was.\<close>

lemma single_bit_operations:
  "(if unat p < 32
    then \<exists>s c t.
      bitUtilsSetBit v p (Some x) = Some (BITUTILS_SUCCESS, Some s) \<and>
      bitUtilsClearBit v p (Some x) = Some (BITUTILS_SUCCESS, Some c) \<and>
      bitUtilsToggleBit v p (Some x) = Some (BITUTILS_SUCCESS, Some t) \<and>
      bitUtilsIsBitSet v p (Some y) = Some (BITUTILS_SUCCESS, Some (bit v (unat p))) \<and>
      (\<forall>i. bit s i = (if i = unat p then True else bit v i) \<and>
           bit c i = (if i = unat p then False else bit v i) \<and>
           bit t i = (if i = unat p then \<not> bit v i else bit v i))
    else
      bitUtilsSetBit v p (Some x) = Some (BITUTILS_ERROR_INVALID_BIT_POSITION, Some x) \<and>
      bitUtilsClearBit v p (Some x) = Some (BITUTILS_ERROR_INVALID_BIT_POSITION, Some x) \<and>
      bitUtilsToggleBit v p (Some x) = Some (BITUTILS_ERROR_INVALID_BIT_POSITION, Some x) \<and>
      bitUtilsIsBitSet v p (Some y) = Some (BITUTILS_ERROR_INVALID_BIT_POSITION, Some y))"
proof (cases "unat p < 32")
  case True
  then have "\<forall>i. bit (set_bit (unat p) v) i = (if i = unat p then True else bit v i) \<and>
      bit (unset_bit (unat p) v) i = (if i = unat p then False else bit v i) \<and>
      bit (flip_bit (unat p) v) i = (if i = unat p then \<not> bit v i else bit v i)"
    by (auto simp: bit_set_bit_iff bit_unset_bit_iff bit_flip_bit_iff dest: bit_imp_le_length)
  with single_bit_ok [OF True] True show ?thesis by auto
next
  case False
  with single_bit_bad [of p] show ?thesis by simp
qed

lemma single_bit_operations_example:
  "bitUtilsIsBitSet 0x80000000 31 (Some False) = Some (BITUTILS_SUCCESS, Some True)"
  using single_bit_operations [where p = 31 and v = "0x80000000" and x = 0 and y = False] by auto

text \<open>C35: extracting a field that lies inside the word succeeds and gives the number
  \<open>(value div 2^startBit) mod 2^numBits\<close>, for every width up to 32; every other range is
  refused, the start bit being judged first, and the output is left as it was.\<close>

theorem extract_bits_value:
  "(if 32 \<le> unat s
    then bitUtilsExtractBits v s n (Some x) = Some (BITUTILS_ERROR_INVALID_START_BIT, Some x)
    else if n = 0 \<or> 32 < unat s + unat n
    then bitUtilsExtractBits v s n (Some x) = Some (BITUTILS_ERROR_INVALID_NUM_BITS, Some x)
    else \<exists>r. bitUtilsExtractBits v s n (Some x) = Some (BITUTILS_SUCCESS, Some r) \<and>
      unat r = unat v div 2 ^ unat s mod 2 ^ unat n)"
proof (cases "32 \<le> unat s \<or> n = 0 \<or> 32 < unat s + unat n")
  case True
  with range_bad(1) [OF True] show ?thesis
    by (auto simp: validateBitRange_cases)
next
  case False
  then have "bitUtilsExtractBits v s n (Some x) = Some (BITUTILS_SUCCESS, Some (field v (unat s) (unat n)))"
    by (intro extract_ok) auto
  with False unat_field show ?thesis by auto
qed

theorem extract_bits_value_witness:
  "\<exists>r. bitUtilsExtractBits 0xABCD 4 8 (Some 0) = Some (BITUTILS_SUCCESS, Some r) \<and> unat r = 0xBC"
  using extract_bits_value [where s = 4 and n = 8 and v = "0xABCD" and x = 0] by simp

text \<open>C34: inserting into a field inside the word succeeds exactly when the value fits the
  width; then extracting the field gives the value back, every bit outside the field is
  unchanged, and inserting the old field again restores the word.  A value too wide is
  refused with the output as it was.\<close>

theorem insert_bits_roundtrip:
  assumes "n \<noteq> 0" "unat s + unat n \<le> 32"
  shows "(if unat w < 2 ^ unat n
    then \<exists>r old. bitUtilsInsertBits v w s n (Some x) = Some (BITUTILS_SUCCESS, Some r) \<and>
      bitUtilsExtractBits r s n (Some y) = Some (BITUTILS_SUCCESS, Some w) \<and>
      (\<forall>i. i < unat s \<or> unat s + unat n \<le> i \<longrightarrow> bit r i = bit v i) \<and>
      bitUtilsExtractBits v s n (Some y) = Some (BITUTILS_SUCCESS, Some old) \<and>
      bitUtilsInsertBits r old s n (Some x) = Some (BITUTILS_SUCCESS, Some v)
    else bitUtilsInsertBits v w s n (Some x) = Some (BITUTILS_ERROR_INVALID_VALUE, Some x))"
proof -
  let ?s = "unat s" and ?n = "unat n"
  have n: "?n \<le> 32"
    using assms(2) by linarith
  show ?thesis
  proof (cases "w \<le> mask ?n")
    case True
    let ?r = "with_field v w ?s ?n" and ?old = "field v ?s ?n"
    have "\<forall>i. i < ?s \<or> ?s + ?n \<le> i \<longrightarrow> bit ?r i = bit v i"
    proof (intro allI impI)
      fix i assume "i < ?s \<or> ?s + ?n \<le> i"
      then show "bit ?r i = bit v i"
        using bit_with_field [OF assms(2), of i v w] bit_imp_le_length [of ?r i] bit_imp_le_length [of v i]
        by (cases "i < 32") auto
    qed
    moreover have "with_field ?r ?old ?s ?n = v"
      using assms(2) by (intro bit_word_eqI) (auto simp: bit_with_field bit_field)
    ultimately show ?thesis
      using True le_mask_unat [OF n, of w] field_le_mask [OF n, of v ?s] field_with_field [OF assms(2) True]
      by (auto simp: insert_ok [OF assms] extract_ok [OF assms])
  next
    case False
    then show ?thesis
      using le_mask_unat [OF n, of w] by (simp add: insert_ok [OF assms])
  qed
qed

theorem insert_bits_roundtrip_witness:
  "\<exists>r. bitUtilsInsertBits 0xFFFFFFFF 5 8 4 (Some 0) = Some (BITUTILS_SUCCESS, Some r) \<and>
     bitUtilsExtractBits r 8 4 (Some 0) = Some (BITUTILS_SUCCESS, Some 5)"
  using insert_bits_roundtrip [where s = 8 and n = 4 and w = 5 and v = "0xFFFFFFFF" and x = 0 and y = 0] by auto

end
