(* ===== verification/Crc16.thy ===== *)
theory Crc16
  imports CrcModel CrcStream
begin

text \<open>
  The CRC-16-CCITT-FALSE module (\<open>include/crc16.h\<close>, \<open>src/crc16.c\<close>): the context, the status
  codes, the per-byte register update and the five public functions, with their argument
  checks in the order of the code.  The lemmas show that the byte-wise register is the
  bit-serial one, that the one-shot and the incremental interfaces agree with the
  parametrised CRC model, and which corruptions the checksum always detects.
\<close>

definition CRC16_CCITT_FALSE_POLYNOMIAL :: u16 where
  "CRC16_CCITT_FALSE_POLYNOMIAL = 0x1021"

definition CRC16_INITIAL_VALUE :: u16 where
  "CRC16_INITIAL_VALUE = 0xFFFF"

definition CRC16_TOP_BIT :: u16 where
  "CRC16_TOP_BIT = 0x8000"

record CRC16_Context_t =
  currentCRC16 :: u16

datatype CRC16_Status_t =
    CRC16_SUCCESS
  | CRC16_ERROR_NULL_POINTER
  | CRC16_ERROR_MISMATCH

definition validateContext16 :: "CRC16_Context_t ptr \<Rightarrow> CRC16_Status_t" where
  "validateContext16 ctx = (if ctx = None then CRC16_ERROR_NULL_POINTER else CRC16_SUCCESS)"

definition validateBuffer16 :: "u8 list ptr \<Rightarrow> size_t \<Rightarrow> CRC16_Status_t" where
  "validateBuffer16 data len =
     (if data = None \<and> len > 0 then CRC16_ERROR_NULL_POINTER else CRC16_SUCCESS)"

text \<open>One round of the loop of \<open>crc16ProcessByte\<close>, and the whole function.\<close>

definition crc16Round :: "u16 \<Rightarrow> u16" where
  "crc16Round crc =
     (if crc AND CRC16_TOP_BIT \<noteq> 0
      then push_bit 1 crc XOR CRC16_CCITT_FALSE_POLYNOMIAL
      else push_bit 1 crc)"

definition crc16ProcessByte :: "u16 \<Rightarrow> u8 \<Rightarrow> u16" where
  "crc16ProcessByte crc byteIn = (crc16Round ^^ 8) (crc XOR push_bit 8 (ucast byteIn))"

definition crc16Init :: "CRC16_Context_t ptr \<Rightarrow> (CRC16_Status_t \<times> CRC16_Context_t ptr) run" where
  "crc16Init ctx =
     (let status = validateContext16 ctx in
      if status \<noteq> CRC16_SUCCESS then Some (status, ctx)
      else do {
        c \<leftarrow> deref ctx;
        Some (CRC16_SUCCESS, Some (c\<lparr>currentCRC16 := CRC16_INITIAL_VALUE\<rparr>))
      })"

definition crc16Update ::
  "CRC16_Context_t ptr \<Rightarrow> u8 list ptr \<Rightarrow> size_t \<Rightarrow> (CRC16_Status_t \<times> CRC16_Context_t ptr) run" where
  "crc16Update ctx data len =
     (let status = validateContext16 ctx in
      if status \<noteq> CRC16_SUCCESS then Some (status, ctx)
      else let status = validateBuffer16 data len in
      if status \<noteq> CRC16_SUCCESS then Some (status, ctx)
      else do {
        c \<leftarrow> deref ctx;
        c' \<leftarrow> for_upto (unat len) 0
               (\<lambda>i c. do {
                  bytes \<leftarrow> deref data;
                  b \<leftarrow> rd bytes i;
                  Some (c\<lparr>currentCRC16 := crc16ProcessByte (currentCRC16 c) b\<rparr>)
                }) c;
        Some (CRC16_SUCCESS, Some c')
      })"

definition crc16GetResult :: "CRC16_Context_t ptr \<Rightarrow> u16 ptr \<Rightarrow> (CRC16_Status_t \<times> u16 ptr) run" where
  "crc16GetResult ctx crc =
     (let status = validateContext16 ctx in
      if status \<noteq> CRC16_SUCCESS then Some (status, crc)
      else if crc = None then Some (CRC16_ERROR_NULL_POINTER, crc)
      else do {
        c \<leftarrow> deref ctx;
        Some (CRC16_SUCCESS, Some (currentCRC16 c))
      })"

text \<open>
  \<open>ctx\<close> is a local variable of \<open>crc16Compute\<close>; its value before \<open>crc16Init\<close> is
  indeterminate in C and is the argument \<open>junk\<close> here.
\<close>

definition crc16ComputeFrom ::
  "CRC16_Context_t \<Rightarrow> u8 list ptr \<Rightarrow> size_t \<Rightarrow> u16 ptr \<Rightarrow> (CRC16_Status_t \<times> u16 ptr) run" where
  "crc16ComputeFrom junk data len crc =
     (if crc = None then Some (CRC16_ERROR_NULL_POINTER, crc)
      else do {
        (status, ctx) \<leftarrow> crc16Init (Some junk);
        if status \<noteq> CRC16_SUCCESS then Some (status, crc)
        else do {
          (status, ctx) \<leftarrow> crc16Update ctx data len;
          if status \<noteq> CRC16_SUCCESS then Some (status, crc)
          else crc16GetResult ctx crc
        }
      })"

definition crc16Compute :: "u8 list ptr \<Rightarrow> size_t \<Rightarrow> u16 ptr \<Rightarrow> (CRC16_Status_t \<times> u16 ptr) run" where
  "crc16Compute = crc16ComputeFrom \<lparr>currentCRC16 = 0\<rparr>"

definition crc16Verify :: "u8 list ptr \<Rightarrow> size_t \<Rightarrow> u16 \<Rightarrow> CRC16_Status_t run" where
  "crc16Verify data len receivedCRC =
     do {
       (status, calculated) \<leftarrow> crc16Compute data len (Some 0);
       if status \<noteq> CRC16_SUCCESS then Some status
       else do {
         calculatedCRC \<leftarrow> deref calculated;
         if calculatedCRC \<noteq> receivedCRC then Some CRC16_ERROR_MISMATCH else Some CRC16_SUCCESS
       }
     }"

subsection \<open>The register\<close>

definition CRC16_params :: "u16 crc_params" where
  "CRC16_params = \<lparr>p_poly = 0x1021, p_init = 0xFFFF, p_refin = False, p_refout = False, p_xorout = 0\<rparr>"

text \<open>The fold that \<open>crc16Update\<close> performs, without its guards.\<close>

definition crc16_fold :: "u16 \<Rightarrow> u8 list \<Rightarrow> u16" where
  "crc16_fold s bs = foldl crc16ProcessByte s bs"

definition crc16_of :: "u8 list \<Rightarrow> u16" where
  "crc16_of bs = crc16_fold CRC16_INITIAL_VALUE bs"

lemma top_bit_iff: "(s :: u16) AND CRC16_TOP_BIT \<noteq> 0 \<longleftrightarrow> bit s 15"
proof -
  have "CRC16_TOP_BIT = 2 ^ 15"
    by (simp add: CRC16_TOP_BIT_def)
  then show ?thesis
    using and_exp_eq_0_iff_not_bit [of s 15] by metis
qed

lemma crc16Round_lfsr: "crc16Round s = lfsr_step CRC16_CCITT_FALSE_POLYNOMIAL s False"
  unfolding crc16Round_def lfsr_step_def by (simp add: top_bit_iff)

lemma rounds_lfsr:
  "(crc16Round ^^ n) s = lfsr CRC16_CCITT_FALSE_POLYNOMIAL s (replicate n False)"
  by (induction n arbitrary: s) (simp_all add: crc16Round_lfsr funpow_Suc_right del: funpow.simps)

lemma align_byte16: "align (byte_bits_msb b) = (push_bit 8 (ucast b) :: u16)"
proof (rule bit_word_eqI)
  fix n
  assume "n < LENGTH(16)"
  then show "bit (align (byte_bits_msb b) :: u16) n = bit (push_bit 8 (ucast b) :: u16) n"
    by (auto simp: bit_align byte_bits_upt rev_nth bit_push_bit_iff bit_ucast_iff)
qed

interpretation crc16_gen: crc_generator CRC16_CCITT_FALSE_POLYNOMIAL
  by unfold_locales (simp add: CRC16_CCITT_FALSE_POLYNOMIAL_def)

lemma crc16ProcessByte_lfsr:
  "crc16ProcessByte s b = lfsr CRC16_CCITT_FALSE_POLYNOMIAL s (byte_bits_msb b)"
  using crc16_gen.lfsr_block [of "byte_bits_msb b" s]
  by (simp add: crc16ProcessByte_def rounds_lfsr align_byte16 del: funpow.simps)

interpretation crc16_reg: byte_register CRC16_CCITT_FALSE_POLYNOMIAL crc16ProcessByte id False
  by unfold_locales (simp_all add: crc16ProcessByte_lfsr)

lemma crc16_fold_simps [simp]:
  "crc16_fold s [] = s"
  "crc16_fold s (b # bs) = crc16_fold (crc16ProcessByte s b) bs"
  "crc16_fold s (xs @ ys) = crc16_fold (crc16_fold s xs) ys"
  by (simp_all add: crc16_fold_def)

lemma crc16_of_model: "crc16_of bs = crc_value CRC16_params bs"
  using crc16_reg.fold_eq [of CRC16_INITIAL_VALUE bs]
  by (simp add: crc16_of_def crc16_fold_def crc_value_def CRC16_params_def
      CRC16_CCITT_FALSE_POLYNOMIAL_def CRC16_INITIAL_VALUE_def)

subsection \<open>The public functions\<close>

lemma crc16Init_simps:
  "crc16Init None = Some (CRC16_ERROR_NULL_POINTER, None)"
  "crc16Init (Some c) = Some (CRC16_SUCCESS, Some (c\<lparr>currentCRC16 := CRC16_INITIAL_VALUE\<rparr>))"
  by (simp_all add: crc16Init_def validateContext16_def)

lemma crc16_loop:
  "n \<le> length bytes \<Longrightarrow>
   for_upto n 0 (\<lambda>i c. do { b \<leftarrow> rd bytes i; Some (c\<lparr>currentCRC16 := crc16ProcessByte (currentCRC16 c) b\<rparr>) }) c
   = Some (c\<lparr>currentCRC16 := crc16_fold (currentCRC16 c) (take n bytes)\<rparr>)"
proof -
  have "foldl (\<lambda>c b. c\<lparr>currentCRC16 := crc16ProcessByte (currentCRC16 c) b\<rparr>) c bs
      = c\<lparr>currentCRC16 := crc16_fold (currentCRC16 c) bs\<rparr>" for bs
    by (induction bs arbitrary: c) auto
  then show "n \<le> length bytes \<Longrightarrow> ?thesis"
    by (subst for_upto_fold) auto
qed

lemma crc16Update_NULL:
  "crc16Update None data len = Some (CRC16_ERROR_NULL_POINTER, None)"
  "len \<noteq> 0 \<Longrightarrow> crc16Update (Some c) None len = Some (CRC16_ERROR_NULL_POINTER, Some c)"
  "crc16Update (Some c) data 0 = Some (CRC16_SUCCESS, Some c)"
  by (simp_all add: crc16Update_def validateContext16_def validateBuffer16_def word_neq_0_conv)

lemma crc16Update_ok:
  "unat len \<le> length bytes \<Longrightarrow>
   crc16Update (Some c) (Some bytes) len =
   Some (CRC16_SUCCESS, Some (c\<lparr>currentCRC16 := crc16_fold (currentCRC16 c) (take (unat len) bytes)\<rparr>))"
  by (simp add: crc16Update_def validateContext16_def validateBuffer16_def crc16_loop)

lemma crc16GetResult_simps:
  "crc16GetResult None crc = Some (CRC16_ERROR_NULL_POINTER, crc)"
  "crc16GetResult (Some c) None = Some (CRC16_ERROR_NULL_POINTER, None)"
  "crc16GetResult (Some c) (Some x) = Some (CRC16_SUCCESS, Some (currentCRC16 c))"
  by (simp_all add: crc16GetResult_def validateContext16_def)

lemma crc16ComputeFrom_ok:
  "unat len \<le> length bytes \<Longrightarrow>
   crc16ComputeFrom junk (Some bytes) len (Some x) = Some (CRC16_SUCCESS, Some (crc16_of (take (unat len) bytes)))"
  by (simp add: crc16ComputeFrom_def crc16Init_simps crc16Update_ok crc16GetResult_simps crc16_of_def)

lemma crc16Compute_ok:
  "unat len \<le> length bytes \<Longrightarrow>
   crc16Compute (Some bytes) len (Some x) = Some (CRC16_SUCCESS, Some (crc16_of (take (unat len) bytes)))"
  by (simp add: crc16Compute_def crc16ComputeFrom_ok)

lemma crc16Compute_NULL:
  "crc16Compute data len None = Some (CRC16_ERROR_NULL_POINTER, None)"
  "len \<noteq> 0 \<Longrightarrow> crc16Compute None len (Some x) = Some (CRC16_ERROR_NULL_POINTER, Some x)"
  "crc16Compute data 0 (Some x) = Some (CRC16_SUCCESS, Some CRC16_INITIAL_VALUE)"
  by (simp_all add: crc16Compute_def crc16ComputeFrom_def crc16Init_simps crc16Update_NULL
      crc16GetResult_simps)

lemma crc16Verify_NULL: "len \<noteq> 0 \<Longrightarrow> crc16Verify None len r = Some CRC16_ERROR_NULL_POINTER"
  by (simp add: crc16Verify_def crc16Compute_NULL)

lemma crc16Verify_ok:
  "unat len \<le> length bytes \<Longrightarrow>
   crc16Verify (Some bytes) len r =
   Some (if crc16_of (take (unat len) bytes) = r then CRC16_SUCCESS else CRC16_ERROR_MISMATCH)"
  by (simp add: crc16Verify_def crc16Compute_ok)

lemma crc16Verify_empty:
  "crc16Verify None 0 r = Some (if r = crc_value CRC16_params [] then CRC16_SUCCESS else CRC16_ERROR_MISMATCH)"
  by (simp add: crc16Verify_def crc16Compute_def crc16ComputeFrom_def crc16Init_def crc16Update_def
      crc16GetResult_def validateContext16_def validateBuffer16_def crc16_of_model [symmetric] crc16_of_def crc16_fold_def)

subsection \<open>Properties\<close>

text \<open>The context stands for the bytes fed to it.\<close>

interpretation crc16_stream: streaming_checksum crc16Init crc16Update crc16GetResult
    CRC16_SUCCESS CRC16_ERROR_NULL_POINTER "crc_value CRC16_params"
    "\<lambda>c msg. currentCRC16 c = crc16_fold CRC16_INITIAL_VALUE msg"
proof unfold_locales
  fix c len
  show "crc16Update (Some c) None len =
      Some (if len = 0 then CRC16_SUCCESS else CRC16_ERROR_NULL_POINTER, Some c)"
    by (cases "len = 0") (simp_all add: crc16Update_NULL)
qed (simp_all add: crc16Init_simps crc16Update_ok crc16GetResult_simps crc16_of_model [symmetric] crc16_of_def)

lemma crc16_residue: "crc16_of (bs @ [ucast (drop_bit 8 (crc16_of bs)), ucast (crc16_of bs AND 0xFF)]) = 0"
proof -
  let ?r = "crc16_of bs"
  let ?tail = "[ucast (drop_bit 8 ?r), ucast (?r AND 0xFF)] :: u8 list"
  have low: "bit (0xFF :: int) n \<longleftrightarrow> n < 8" for n
    using bit_mask_iff [of 8 n, where ?'a = int] by (simp add: mask_eq_exp_minus_1)
  have "align (message_bits False ?tail) = ?r"
  proof (rule bit_word_eqI)
    fix n
    assume "n < LENGTH(16)"
    then show "bit (align (message_bits False ?tail) :: u16) n = bit ?r n"
      by (auto simp: bit_align byte_bits_upt rev_nth nth_append bit_ucast_iff bit_drop_bit_eq bit_and_iff low)
  qed
  then have "lfsr CRC16_CCITT_FALSE_POLYNOMIAL ?r (message_bits False ?tail) = 0"
    by (intro crc16_gen.self_residue) simp_all
  then have "foldl crc16ProcessByte ?r ?tail = 0"
    using crc16_reg.fold_eq [of ?r ?tail] by simp
  then show ?thesis
    unfolding crc16_of_def crc16_fold_def by simp
qed

text \<open>C16: \<open>crc16Compute\<close> on a readable buffer of \<open>len\<close> bytes succeeds, whatever the local
  context held before, and stores the CRC-16/CCITT-FALSE of exactly those bytes: the value
  of the bit-serial parametrised model with polynomial 0x1021, initial value 0xFFFF, no
  reflection and no final XOR.\<close>

theorem crc16_compute_model:
  "unat len \<le> length bytes \<Longrightarrow>
   crc16ComputeFrom junk (Some bytes) len (Some x) =
     Some (CRC16_SUCCESS, Some (crc_value CRC16_params (take (unat len) bytes)))"
  by (simp add: crc16ComputeFrom_ok crc16_of_model)

theorem crc16_compute_model_witness:
  "crc16Compute (Some [0x31, 0x32, 0x33, 0x34, 0x35, 0x36, 0x37, 0x38, 0x39]) 9 (Some 0) =
     Some (CRC16_SUCCESS, Some 0x29B1)"
proof -
  have "crc_value CRC16_params (take 9 [0x31, 0x32, 0x33, 0x34, 0x35, 0x36, 0x37, 0x38, 0x39]) = 0x29B1"
    by code_simp
  then show ?thesis
    using crc16_compute_model [of 9 "[0x31, 0x32, 0x33, 0x34, 0x35, 0x36, 0x37, 0x38, 0x39]" "\<lparr>currentCRC16 = 0\<rparr>" 0]
    by (simp add: crc16Compute_def)
qed

text \<open>What a verification of a readable buffer reports.\<close>

lemma crc16_verify_exact:
  assumes "unat len \<le> length bytes"
  shows "crc16Verify (Some bytes) len r =
      Some (if r = crc_value CRC16_params (take (unat len) bytes) then CRC16_SUCCESS else CRC16_ERROR_MISMATCH)"
  using assms by (simp add: crc16Verify_ok crc16_of_model)

text \<open>CRC-16 detects every error burst of at most 16 bits: if two messages of one length
  agree but for a window of at most 16 consecutive bits (most significant bit of each byte
  first) and differ inside it, then verifying one against the CRC computed for the other
  reports a mismatch.\<close>

lemma crc16_detects_bursts:
  assumes "message_bits False xs = p @ u @ q" "message_bits False ys = p @ v @ q"
    and "length u = length v" "length u \<le> 16" "u \<noteq> v" "length xs < size_limit"
  shows "\<exists>c. crc16Compute (Some xs) (of_nat (length xs)) (Some 0) = Some (CRC16_SUCCESS, Some c) \<and>
    crc16Verify (Some ys) (of_nat (length ys)) c = Some CRC16_ERROR_MISMATCH"
proof -
  have "length ys = length xs"
    using arg_cong [OF assms(1), of length] arg_cong [OF assms(2), of length] assms(3) by simp
  moreover have "crc16_of xs \<noteq> crc16_of ys"
    using crc16_reg.burst_bits [OF assms(1,2,3) _ assms(5)] assms(4)
    by (simp add: crc16_of_def crc16_fold_def)
  ultimately show ?thesis
    using assms(6) by (simp add: crc16Compute_ok crc16Verify_ok unat_of_nat_size)
qed

lemma crc16_detects_bursts_example:
  "\<exists>c. crc16Compute (Some [0x12, 0x34]) 2 (Some 0) = Some (CRC16_SUCCESS, Some c) \<and>
    crc16Verify (Some [0x12, 0x35]) 2 c = Some CRC16_ERROR_MISMATCH"
proof -
  have "message_bits False [0x12, 0x34] = take 15 (message_bits False [0x12, 0x34]) @ [False] @ []"
    "message_bits False [0x12, 0x35] = take 15 (message_bits False [0x12, 0x34]) @ [True] @ []"
    by code_simp+
  from crc16_detects_bursts [OF this] show ?thesis by simp
qed

text \<open>The CRC-16 of a message followed by its own CRC, high byte first, is zero: the
  residue by which a receiver can check a frame in one pass.\<close>

lemma crc16_codeword_residue:
  assumes "length bs + 2 < size_limit"
  shows "\<exists>c. crc16Compute (Some bs) (of_nat (length bs)) (Some x) = Some (CRC16_SUCCESS, Some c) \<and>
    crc16Compute (Some (bs @ [ucast (drop_bit 8 c), ucast (c AND 0xFF)])) (of_nat (length bs + 2)) (Some x) =
      Some (CRC16_SUCCESS, Some 0)"
proof -
  have n: "unat (of_nat (length bs + 2) :: size_t) = length bs + 2" "unat (of_nat (length bs) :: size_t) = length bs"
    using assms by (intro unat_of_nat_size, simp)+
  let ?tail = "[ucast (drop_bit 8 (crc16_of bs)), ucast (crc16_of bs AND 0xFF)]"
  have "crc16Compute (Some (bs @ ?tail)) (of_nat (length bs + 2)) (Some x) = Some (CRC16_SUCCESS, Some 0)"
    using crc16Compute_ok [of "of_nat (length bs + 2)" "bs @ ?tail" x] crc16_residue [of bs]
    unfolding n(1) by simp
  then show ?thesis
    using crc16Compute_ok [of "of_nat (length bs)" bs x] unfolding n(2) by simp
qed

lemma crc16_codeword_residue_example:
  "\<exists>c. crc16Compute (Some [1, 2]) 2 (Some 0) = Some (CRC16_SUCCESS, Some c) \<and>
    crc16Compute (Some ([1, 2] @ [ucast (drop_bit 8 c), ucast (c AND 0xFF)])) 4 (Some 0) =
      Some (CRC16_SUCCESS, Some 0)"
  using crc16_codeword_residue [of "[1, 2]" 0] by simp

end
