(* ===== verification/Frame.thy ===== *)
theory Frame
  imports Crc16
begin

text \<open>
  The wire format of \<open>include/protocol.h\<close>, as constants and as a specification: the frame
  of a command and a payload, independent of how the builder writes it and how the parser
  reads it.  The locale \<open>frame_checksum\<close> states what the two packet modules need of a
  checksum (it separates bodies of one length that differ in at most two adjacent bytes);
  CRC-16 provides it.
\<close>

definition PACKET_HEADER1 :: u8 where "PACKET_HEADER1 = 0xAA"
definition PACKET_HEADER2 :: u8 where "PACKET_HEADER2 = 0x55"
definition PACKET_HEADER_SIZE :: nat where "PACKET_HEADER_SIZE = 2"
definition PACKET_LENGTH_SIZE :: nat where "PACKET_LENGTH_SIZE = 2"
definition PACKET_COMMAND_SIZE :: nat where "PACKET_COMMAND_SIZE = 1"
definition PACKET_CRC_SIZE :: nat where "PACKET_CRC_SIZE = 2"
definition PACKET_MAX_PAYLOAD_SIZE :: nat where "PACKET_MAX_PAYLOAD_SIZE = 255"

definition PACKET_MIN_PACKET_SIZE :: nat where
  "PACKET_MIN_PACKET_SIZE =
     PACKET_HEADER_SIZE + PACKET_LENGTH_SIZE + PACKET_COMMAND_SIZE + PACKET_CRC_SIZE"

definition PACKET_MAX_PACKET_SIZE :: nat where
  "PACKET_MAX_PACKET_SIZE = PACKET_MIN_PACKET_SIZE + PACKET_MAX_PAYLOAD_SIZE"

text \<open>The byte offsets that both \<open>packetParser.c\<close> and \<open>packetBuilder.c\<close> define.\<close>

definition PACKET_OFFSET_HEADER1 :: nat where "PACKET_OFFSET_HEADER1 = 0"
definition PACKET_OFFSET_HEADER2 :: nat where "PACKET_OFFSET_HEADER2 = 1"
definition PACKET_OFFSET_LENGTH :: nat where "PACKET_OFFSET_LENGTH = PACKET_HEADER_SIZE"

definition PACKET_OFFSET_COMMAND :: nat where
  "PACKET_OFFSET_COMMAND = PACKET_HEADER_SIZE + PACKET_LENGTH_SIZE"

definition PACKET_OFFSET_PAYLOAD :: nat where
  "PACKET_OFFSET_PAYLOAD = PACKET_HEADER_SIZE + PACKET_LENGTH_SIZE + PACKET_COMMAND_SIZE"

lemmas packet_consts =
  PACKET_HEADER1_def PACKET_HEADER2_def PACKET_HEADER_SIZE_def PACKET_LENGTH_SIZE_def
  PACKET_COMMAND_SIZE_def PACKET_CRC_SIZE_def PACKET_MAX_PAYLOAD_SIZE_def
  PACKET_MIN_PACKET_SIZE_def PACKET_MAX_PACKET_SIZE_def PACKET_OFFSET_HEADER1_def
  PACKET_OFFSET_HEADER2_def PACKET_OFFSET_LENGTH_def PACKET_OFFSET_COMMAND_def
  PACKET_OFFSET_PAYLOAD_def

text \<open>The values that the sums of the constants have.\<close>

lemma packet_vals:
  "PACKET_HEADER1 = 0xAA" "PACKET_HEADER2 = 0x55" "PACKET_MAX_PAYLOAD_SIZE = 255"
  "PACKET_HEADER_SIZE = 2" "PACKET_LENGTH_SIZE = 2" "PACKET_COMMAND_SIZE = 1" "PACKET_CRC_SIZE = 2"
  "PACKET_MIN_PACKET_SIZE = 7" "PACKET_OFFSET_HEADER1 = 0" "PACKET_OFFSET_HEADER2 = 1"
  "PACKET_OFFSET_LENGTH = 2" "PACKET_OFFSET_COMMAND = 4" "PACKET_OFFSET_PAYLOAD = 5"
  by (simp_all add: packet_consts)

subsection \<open>Big-endian 16-bit values\<close>

definition be16 :: "u16 \<Rightarrow> u8 list" where
  "be16 w = [ucast (drop_bit 8 w), ucast (w AND 0xFF)]"

definition of_be16 :: "u8 \<Rightarrow> u8 \<Rightarrow> u16" where
  "of_be16 hi lo = push_bit 8 (ucast hi) OR ucast lo"

lemma length_be16 [simp]: "length (be16 w) = 2"
  by (simp add: be16_def)

lemma bit_low_byte: "bit (0xFF :: int) n \<longleftrightarrow> n < 8"
  using bit_mask_iff [of 8 n, where ?'a = int] by (simp add: mask_eq_exp_minus_1)

lemma of_be16_be16: "of_be16 (ucast (drop_bit 8 w)) (ucast (w AND 0xFF)) = w"
proof (rule bit_word_eqI)
  fix n
  assume n: "n < LENGTH(16)"
  show "bit (of_be16 (ucast (drop_bit 8 w)) (ucast (w AND 0xFF))) n = bit w n"
    using n
    by (auto simp: of_be16_def bit_or_iff bit_push_bit_iff bit_ucast_iff bit_drop_bit_eq bit_and_iff
        bit_low_byte)
qed

lemma be16_of_be16: "be16 (of_be16 a b) = [a, b]"
proof -
  have "ucast (drop_bit 8 (of_be16 a b)) = a"
    by (rule bit_word_eqI)
      (auto simp: of_be16_def bit_or_iff bit_push_bit_iff bit_ucast_iff bit_drop_bit_eq
        dest: bit_imp_le_length)
  moreover have "ucast (of_be16 a b AND 0xFF) = b"
    by (rule bit_word_eqI)
      (auto simp: of_be16_def bit_or_iff bit_push_bit_iff bit_ucast_iff bit_and_iff
        bit_low_byte)
  ultimately show ?thesis
    by (simp add: be16_def)
qed

lemma be16_inject [simp]: "be16 v = be16 w \<longleftrightarrow> v = w"
  by (metis be16_def list.inject of_be16_be16)

subsection \<open>Frames\<close>

definition frame_body :: "u8 \<Rightarrow> u8 list \<Rightarrow> u8 list" where
  "frame_body cmd payload = be16 (of_nat (Suc (length payload))) @ cmd # payload"

definition frame :: "u8 \<Rightarrow> u8 list \<Rightarrow> u8 list" where
  "frame cmd payload =
     [0xAA, 0x55] @ frame_body cmd payload @ be16 (crc16_of (frame_body cmd payload))"

lemma length_frame_body [simp]: "length (frame_body cmd p) = length p + 3"
  by (simp add: frame_body_def)

lemma length_frame [simp]: "length (frame cmd p) = length p + 7"
  by (simp add: frame_def)

lemma of_nat_length_u16: "n \<le> 255 \<Longrightarrow> unat (of_nat (Suc n) :: u16) = Suc n"
  by (simp add: unat_of_nat take_bit_nat_eq_self del: of_nat_Suc)

text \<open>What the packet modules rely on in their checksum.\<close>

locale frame_checksum =
  fixes chk :: "u8 list \<Rightarrow> u16"
  assumes separates_two:
    "length u = length v \<Longrightarrow> length u \<le> 2 \<Longrightarrow> u \<noteq> v \<Longrightarrow> chk (p @ u @ q) \<noteq> chk (p @ v @ q)"
begin

definition checked :: "u8 list \<Rightarrow> u16 \<Rightarrow> bool" where
  "checked body c \<longleftrightarrow> chk body = c"

lemma checked_self: "checked body (chk body)"
  by (simp add: checked_def)

lemma corrupted_body:
  "checked (p @ u @ q) c \<Longrightarrow> length u = length v \<Longrightarrow> length u \<le> 2 \<Longrightarrow> u \<noteq> v \<Longrightarrow>
   \<not> checked (p @ v @ q) c"
  using separates_two [of u v p q] by (auto simp: checked_def)

lemma corrupted_checksum: "checked body c \<Longrightarrow> c' \<noteq> c \<Longrightarrow> \<not> checked body c'"
  by (simp add: checked_def)

lemma corrupted_byte:
  "checked body c \<Longrightarrow> i < length body \<Longrightarrow> b \<noteq> body ! i \<Longrightarrow> \<not> checked (body[i := b]) c"
  using corrupted_body [of "take i body" "[body ! i]" "drop (Suc i) body" c "[b]"]
  by (simp add: upd_conv_take_nth_drop Cons_nth_drop_Suc)

end

interpretation crc16_chk: frame_checksum crc16_of
  by unfold_locales
    (use crc16_reg.burst_bytes in \<open>simp add: crc16_of_def crc16_fold_def del: append_assoc foldl_append\<close>)

end
