(* ===== verification/PacketParser.thy ===== *)
theory PacketParser
  imports Frame
begin

text \<open>
  The packet parser (\<open>include/packetParser.h\<close>, \<open>src/packetParser.c\<close>).  The payload of a
  parsed packet is a pointer into the caller's buffer, modelled as an offset into it
  (\<open>None\<close> is \<open>NULL\<close>), as the code copies nothing.  Every read is bounds-checked against the
  buffer.  The lemmas show that no buffer makes the parser read out of bounds, that it
  succeeds exactly on buffers that begin with a frame, with that frame's contents, and that
  what lies after the frame does not matter.
\<close>

record ParsedPacket_t =
  commandId :: u8
  payloadLength :: u16
  payload :: "nat ptr"

datatype PacketParserStatus_t =
    PACKET_PARSER_SUCCESS
  | PACKET_PARSER_ERROR_NULL_POINTER
  | PACKET_PARSER_ERROR_INVALID_LENGTH
  | PACKET_PARSER_ERROR_INVALID_HEADER
  | PACKET_PARSER_ERROR_CRC_MISMATCH

definition readUint16BE :: "u8 list \<Rightarrow> nat \<Rightarrow> u16 run" where
  "readUint16BE m off =
     do { hi \<leftarrow> rd m off; lo \<leftarrow> rd m (off + 1); Some (push_bit 8 (ucast hi) OR ucast lo) }"

definition packetParserParse ::
  "u8 list ptr \<Rightarrow> size_t \<Rightarrow> ParsedPacket_t ptr \<Rightarrow> (PacketParserStatus_t \<times> ParsedPacket_t ptr) run" where
  "packetParserParse rawData rawLength parsedPacket =
     (if rawData = None \<or> parsedPacket = None
      then Some (PACKET_PARSER_ERROR_NULL_POINTER, parsedPacket)
      else if rawLength < of_nat PACKET_MIN_PACKET_SIZE
      then Some (PACKET_PARSER_ERROR_INVALID_LENGTH, parsedPacket)
      else do {
        raw \<leftarrow> deref rawData;
        h1 \<leftarrow> rd raw PACKET_OFFSET_HEADER1;
        h2 \<leftarrow> rd raw PACKET_OFFSET_HEADER2;
        if h1 \<noteq> PACKET_HEADER1 \<or> h2 \<noteq> PACKET_HEADER2
        then Some (PACKET_PARSER_ERROR_INVALID_HEADER, parsedPacket)
        else do {
          declaredLength \<leftarrow> readUint16BE raw PACKET_OFFSET_LENGTH;
          if unat declaredLength < PACKET_COMMAND_SIZE \<or>
             unat declaredLength > PACKET_COMMAND_SIZE + PACKET_MAX_PAYLOAD_SIZE
          then Some (PACKET_PARSER_ERROR_INVALID_LENGTH, parsedPacket)
          else let totalPacketSize =
              (of_nat PACKET_HEADER_SIZE + of_nat PACKET_LENGTH_SIZE + ucast declaredLength
               + of_nat PACKET_CRC_SIZE :: size_t) in
          if rawLength < totalPacketSize
          then Some (PACKET_PARSER_ERROR_INVALID_LENGTH, parsedPacket)
          else do {
            let crcRegionSize = (of_nat PACKET_LENGTH_SIZE + ucast declaredLength :: size_t);
            (crcSts, crc) \<leftarrow>
              crc16Compute (Some (drop PACKET_OFFSET_LENGTH raw)) crcRegionSize (Some 0);
            if crcSts \<noteq> CRC16_SUCCESS
            then Some (PACKET_PARSER_ERROR_CRC_MISMATCH, parsedPacket)
            else do {
              computedCrc \<leftarrow> deref crc;
              let crcOffset = (of_nat PACKET_OFFSET_LENGTH + crcRegionSize :: size_t);
              receivedCrc \<leftarrow> readUint16BE raw (unat crcOffset);
              if computedCrc \<noteq> receivedCrc
              then Some (PACKET_PARSER_ERROR_CRC_MISMATCH, parsedPacket)
              else do {
                let payloadLen = declaredLength - of_nat PACKET_COMMAND_SIZE;
                cmd \<leftarrow> rd raw PACKET_OFFSET_COMMAND;
                old \<leftarrow> deref parsedPacket;
                Some (PACKET_PARSER_SUCCESS,
                  Some (old\<lparr>commandId := cmd, payloadLength := payloadLen,
                    payload := (if payloadLen > 0 then Some PACKET_OFFSET_PAYLOAD else None)\<rparr>))
              }
            }
          }
        }
      })"

definition packetParserGetPacketSize :: "u8 list ptr \<Rightarrow> size_t run" where
  "packetParserGetPacketSize rawData =
     (if rawData = None then Some 0
      else do {
        raw \<leftarrow> deref rawData;
        declaredLength \<leftarrow> readUint16BE raw PACKET_OFFSET_LENGTH;
        Some (of_nat PACKET_HEADER_SIZE + of_nat PACKET_LENGTH_SIZE + ucast declaredLength
              + of_nat PACKET_CRC_SIZE)
      })"

text \<open>The bytes that a parsed packet's payload pointer and length denote.\<close>

definition payload_of :: "u8 list \<Rightarrow> ParsedPacket_t \<Rightarrow> u8 list" where
  "payload_of raw p =
     (case payload p of None \<Rightarrow> [] | Some off \<Rightarrow> take (unat (payloadLength p)) (drop off raw))"

subsection \<open>The checks as a decision on the bytes\<close>

lemma readUint16BE_ok:
  "off + 1 < length m \<Longrightarrow> readUint16BE m off = Some (of_be16 (m ! off) (m ! Suc off))"
  by (simp add: readUint16BE_def of_be16_def)

lemma u16_region:
  assumes "unat (d :: u16) \<le> 256"
  shows "unat (2 + ucast d :: size_t) = unat d + 2"
    and "unat (4 + ucast d :: size_t) = unat d + 4"
    and "unat (6 + ucast d :: size_t) = unat d + 6"
  using assms by (subst unat_add_noof; simp)+

text \<open>The declared length, and the decision of the parser once its reads are in bounds.\<close>

definition declared :: "u8 list \<Rightarrow> u16" where
  "declared raw = of_be16 (raw ! 2) (raw ! 3)"

definition parse_status :: "u8 list \<Rightarrow> nat \<Rightarrow> PacketParserStatus_t" where
  "parse_status raw len =
     (let d = unat (declared raw) in
      if len < 7 then PACKET_PARSER_ERROR_INVALID_LENGTH
      else if raw ! 0 \<noteq> 0xAA \<or> raw ! 1 \<noteq> 0x55 then PACKET_PARSER_ERROR_INVALID_HEADER
      else if d < 1 \<or> 256 < d \<or> len < d + 6 then PACKET_PARSER_ERROR_INVALID_LENGTH
      else if crc16_of (take (d + 2) (drop 2 raw)) \<noteq> of_be16 (raw ! (d + 4)) (raw ! (d + 5))
      then PACKET_PARSER_ERROR_CRC_MISMATCH
      else PACKET_PARSER_SUCCESS)"

definition parsed :: "u8 list \<Rightarrow> ParsedPacket_t" where
  "parsed raw =
     \<lparr>commandId = raw ! 4, payloadLength = declared raw - 1,
      payload = (if declared raw = 1 then None else Some 5)\<rparr>"

lemma parse_eq:
  assumes "unat rawLength \<le> length raw"
  shows "packetParserParse (Some raw) rawLength (Some old) =
    Some (parse_status raw (unat rawLength),
      Some (if parse_status raw (unat rawLength) = PACKET_PARSER_SUCCESS then parsed raw else old))"
proof (cases "unat rawLength < 7")
  case True
  then have "rawLength < 7"
    by (simp add: word_less_nat_alt)
  with True show ?thesis
    by (simp add: packetParserParse_def parse_status_def packet_vals)
next
  case False
  then have ge: "\<not> rawLength < 7" and len: "7 \<le> length raw"
    using assms by (simp_all add: word_less_nat_alt)
  have decl: "readUint16BE raw 2 = Some (declared raw)"
    using len by (simp add: readUint16BE_ok declared_def eval_nat_numeral)
  have "0 < length raw" "1 < length raw" "4 < length raw"
    using len by linarith+
  then have rds: "rd raw 0 = Some (raw ! 0)" "rd raw 1 = Some (raw ! 1)" "rd raw 4 = Some (raw ! 4)"
    by (simp_all only: rd_Some)
  let ?d = "declared raw"
  show ?thesis
  proof (cases "raw ! 0 = 0xAA \<and> raw ! 1 = 0x55 \<and> 1 \<le> unat ?d \<and> unat ?d \<le> 256 \<and> unat ?d + 6 \<le> unat rawLength")
    case True
    then have d: "unat ?d \<le> 256" by simp
    have fits: "\<not> rawLength < 6 + ucast ?d"
      using True by (simp add: word_less_nat_alt u16_region [OF d])
    have crc: "crc16Compute (Some (drop 2 raw)) (2 + ucast ?d) (Some 0) =
        Some (CRC16_SUCCESS, Some (crc16_of (take (unat ?d + 2) (drop 2 raw))))"
    proof -
      have "unat (2 + ucast ?d :: size_t) \<le> length (drop 2 raw)"
      proof -
        from True assms have "unat ?d + 6 \<le> length raw" by linarith
        then show ?thesis by (simp add: u16_region [OF d])
      qed
      from crc16Compute_ok [OF this] show ?thesis
        unfolding u16_region(1) [OF d] .
    qed
    have rcv: "readUint16BE raw (unat ?d + 4) = Some (of_be16 (raw ! (unat ?d + 4)) (raw ! (unat ?d + 5)))"
      using True assms by (simp add: readUint16BE_ok eval_nat_numeral)
    have one: "?d - 1 > 0 \<longleftrightarrow> ?d \<noteq> 1"
      by (simp add: word_gt_0)
    show ?thesis
      using True ge rds unfolding packetParserParse_def packet_vals
      by (simp add: Let_def decl) (simp add: fits crc rcv u16_region [OF d] one parse_status_def parsed_def)
  next
    case no: False
    have "rawLength < 6 + ucast ?d \<longleftrightarrow> unat rawLength < unat ?d + 6" if "unat ?d \<le> 256"
      by (simp add: word_less_nat_alt u16_region [OF that])
    with no ge rds False show ?thesis
      unfolding packetParserParse_def packet_vals
      by (auto simp: Let_def decl parse_status_def)
  qed
qed

subsection \<open>Frames and only frames\<close>

text \<open>The packet that a frame of \<open>cmd\<close> and \<open>pl\<close> at the front of the buffer denotes.\<close>

definition packet_of :: "u8 \<Rightarrow> u8 list \<Rightarrow> ParsedPacket_t" where
  "packet_of cmd pl =
     \<lparr>commandId = cmd, payloadLength = of_nat (length pl),
      payload = (if pl = [] then None else Some 5)\<rparr>"

lemma payload_of_packet:
  "length pl \<le> 255 \<Longrightarrow> payload_of (frame cmd pl @ rest) (packet_of cmd pl) = pl"
  by (simp add: payload_of_def packet_of_def frame_def frame_body_def be16_def unat_of_nat
      take_bit_nat_eq_self)

lemma frame_fields:
  assumes "length pl \<le> 255"
  shows "declared (frame cmd pl @ rest) = of_nat (Suc (length pl))"
    and "(frame cmd pl @ rest) ! 0 = 0xAA" "(frame cmd pl @ rest) ! 1 = 0x55"
      "(frame cmd pl @ rest) ! 4 = cmd"
    and "take (length pl + 3) (drop 2 (frame cmd pl @ rest)) = frame_body cmd pl"
    and "of_be16 ((frame cmd pl @ rest) ! (length pl + 5)) ((frame cmd pl @ rest) ! (length pl + 6)) =
      crc16_of (frame_body cmd pl)"
  using of_be16_be16
  by (simp_all add: declared_def frame_def frame_body_def be16_def nth_append eval_nat_numeral)

lemma parse_frame:
  assumes "length pl \<le> 255" "length pl + 7 \<le> len"
  shows "parse_status (frame cmd pl @ rest) len = PACKET_PARSER_SUCCESS"
    and "parsed (frame cmd pl @ rest) = packet_of cmd pl"
proof -
  note f = frame_fields [OF assms(1), of cmd rest]
  have d: "unat (declared (frame cmd pl @ rest)) = Suc (length pl)"
    unfolding f(1) using of_nat_length_u16 [OF assms(1)] .
  show "parse_status (frame cmd pl @ rest) len = PACKET_PARSER_SUCCESS"
    using assms f(2-6) by (simp add: parse_status_def Let_def d eval_nat_numeral)
  show "parsed (frame cmd pl @ rest) = packet_of cmd pl"
    using f(4) d by (auto simp: parsed_def packet_of_def f(1) word_unat_eq_iff)
qed

lemma success_frame:
  assumes ok: "parse_status raw len = PACKET_PARSER_SUCCESS" and len: "len \<le> length raw"
  defines "pl \<equiv> take (unat (declared raw) - 1) (drop 5 raw)"
  shows "length pl \<le> 255 \<and> length pl + 7 \<le> len \<and> raw = frame (raw ! 4) pl @ drop (length pl + 7) raw"
proof -
  let ?d = "unat (declared raw)"
  from ok have h: "raw ! 0 = 0xAA" "raw ! 1 = 0x55" "1 \<le> ?d" "?d \<le> 256" "?d + 6 \<le> len"
    and crc: "crc16_of (take (?d + 2) (drop 2 raw)) = of_be16 (raw ! (?d + 4)) (raw ! (?d + 5))"
    by (auto simp: parse_status_def Let_def split: if_splits)
  have lpl: "length pl = ?d - 1"
    using h(5) len by (simp add: pl_def)
  then have decl: "of_nat (Suc (length pl)) = declared raw"
    using h(3) by simp
  have split: "drop 2 raw = raw ! 2 # raw ! 3 # raw ! 4 # drop 5 raw"
    using h(3,5) len by (simp add: Cons_nth_drop_Suc eval_nat_numeral)
  have tk: "take (?d + 2) (raw ! 2 # raw ! 3 # raw ! 4 # drop 5 raw) = raw ! 2 # raw ! 3 # raw ! 4 # pl"
    using h(3) by (simp add: pl_def take_Cons' eval_nat_numeral)
  have body: "take (?d + 2) (drop 2 raw) = frame_body (raw ! 4) pl"
    by (simp only: split tk frame_body_def decl) (simp add: declared_def be16_of_be16)
  have "2 \<le> length raw"
    using h(5) len by linarith
  then have "raw = [raw ! 0, raw ! 1] @ drop 2 raw"
    by (cases raw rule: list.exhaust; cases "tl raw"; simp)
  moreover have "drop 2 raw = take (?d + 2) (drop 2 raw) @ drop (?d + 4) raw"
    using append_take_drop_id [of "?d + 2" "drop 2 raw"] by (simp add: eval_nat_numeral)
  moreover have "drop (?d + 4) raw = [raw ! (?d + 4), raw ! (?d + 5)] @ drop (?d + 6) raw"
    using h(5) len by (simp add: Cons_nth_drop_Suc eval_nat_numeral)
  moreover have "[raw ! (?d + 4), raw ! (?d + 5)] = be16 (crc16_of (frame_body (raw ! 4) pl))"
    by (simp only: be16_of_be16 flip: body crc) (simp only: crc be16_of_be16)
  ultimately have "raw = frame (raw ! 4) pl @ drop (?d + 6) raw"
    unfolding frame_def using body h(1,2) by simp
  moreover have "length pl + 7 = ?d + 6"
    using lpl h(3) by simp
  ultimately have "raw = frame (raw ! 4) pl @ drop (length pl + 7) raw"
    by metis
  moreover have "length pl \<le> 255" "length pl + 7 \<le> len"
    using lpl h(3-5) by auto
  ultimately show ?thesis by blast
qed

lemma parse_success_iff:
  assumes "len \<le> length raw"
  shows "parse_status raw len = PACKET_PARSER_SUCCESS \<longleftrightarrow>
    (\<exists>cmd pl rest. length pl \<le> 255 \<and> length pl + 7 \<le> len \<and> raw = frame cmd pl @ rest)"
  using success_frame [OF _ assms] parse_frame(1) by blast

text \<open>The parser reads nothing after the frame.\<close>

lemma parse_status_append:
  assumes "len \<le> length raw"
  shows "parse_status (raw @ extra) len = parse_status raw len"
proof (cases "len < 7")
  case True
  then show ?thesis by (simp add: parse_status_def)
next
  case False
  then have d: "declared (raw @ extra) = declared raw"
    using assms by (simp add: declared_def nth_append)
  have "take (n + 2) (drop 2 (raw @ extra)) = take (n + 2) (drop 2 raw)" if "n + 6 \<le> len" for n
    using that assms by simp
  then show ?thesis
    using False assms unfolding parse_status_def Let_def d
    by (auto simp: nth_append)
qed

subsection \<open>The size of a packet\<close>

lemma getPacketSize_ok:
  "4 \<le> length raw \<Longrightarrow> packetParserGetPacketSize (Some raw) = Some (6 + ucast (declared raw))"
  by (simp add: packetParserGetPacketSize_def packet_vals readUint16BE_ok declared_def
      eval_nat_numeral algebra_simps)

lemma getPacketSize_frame:
  assumes "length pl \<le> 255"
  shows "packetParserGetPacketSize (Some (frame cmd pl @ rest)) = Some (of_nat (length pl + 7))"
proof -
  have "(6 + ucast (of_nat (Suc (length pl)) :: u16) :: size_t) = of_nat (length pl + 7)"
    using of_nat_length_u16 [OF assms] assms u16_region(3) [of "of_nat (Suc (length pl))"]
    by (simp add: word_unat_eq_iff unat_of_nat take_bit_nat_eq_self del: of_nat_Suc of_nat_add)
  then show ?thesis
    using frame_fields(1) [OF assms] by (simp add: getPacketSize_ok)
qed

subsection \<open>Properties\<close>

lemma parse_total:
  "unat rawLength \<le> length raw \<Longrightarrow>
   packetParserParse (Some raw) rawLength (Some old) = Some (PACKET_PARSER_SUCCESS, out) \<Longrightarrow>
   parse_status raw (unat rawLength) = PACKET_PARSER_SUCCESS \<and> out = Some (parsed raw)"
  by (auto simp: parse_eq split: if_splits)

text \<open>C2: on any bytes of the stated length the parser returns.  If it succeeds, the bytes begin
  with the frame of the command it reports and of the payload its pointer and length denote,
  at most 255 bytes and all within the stated length; if it fails, the bytes begin with no
  frame of any command and payload that fits, and the caller's packet is left as it was.\<close>

theorem parse_accepts_frames_only:
  assumes "unat rawLength \<le> length raw"
  shows "\<exists>status out. packetParserParse (Some raw) rawLength (Some old) = Some (status, out) \<and>
    (status = PACKET_PARSER_SUCCESS \<longrightarrow>
       (\<exists>pk rest. out = Some pk \<and> raw = frame (commandId pk) (payload_of raw pk) @ rest \<and>
          length (payload_of raw pk) = unat (payloadLength pk) \<and> unat (payloadLength pk) \<le> 255 \<and>
          unat (payloadLength pk) + 7 \<le> unat rawLength)) \<and>
    (status \<noteq> PACKET_PARSER_SUCCESS \<longrightarrow> out = Some old \<and>
       \<not> (\<exists>cmd pl rest. raw = frame cmd pl @ rest \<and> length pl \<le> 255 \<and> length pl + 7 \<le> unat rawLength))"
proof (cases "parse_status raw (unat rawLength) = PACKET_PARSER_SUCCESS")
  case True
  then obtain cmd pl rest where f: "length pl \<le> 255" "length pl + 7 \<le> unat rawLength" "raw = frame cmd pl @ rest"
    using parse_success_iff [OF assms] by blast
  have pk: "parsed raw = packet_of cmd pl"
    using parse_frame(2) [OF f(1,2), of cmd rest] f(3) by simp
  have "payload_of raw (parsed raw) = pl"
    using payload_of_packet [OF f(1), of cmd rest] pk f(3) by simp
  moreover have "commandId (parsed raw) = cmd" "unat (payloadLength (parsed raw)) = length pl"
    using f(1) unfolding pk by (simp_all add: packet_of_def unat_of_nat take_bit_nat_eq_self)
  ultimately show ?thesis
    using parse_eq [OF assms, of old] True f by auto
next
  case False
  then have "\<not> (\<exists>cmd pl rest. raw = frame cmd pl @ rest \<and> length pl \<le> 255 \<and> length pl + 7 \<le> unat rawLength)"
    using parse_success_iff [OF assms] by blast
  with parse_eq [OF assms, of old] False show ?thesis by simp
qed

theorem parse_accepts_frames_only_witness:
  "\<exists>out. packetParserParse (Some (frame 0x42 [5, 6] @ [1])) 10
      (Some \<lparr>commandId = 0, payloadLength = 0, payload = None\<rparr>) = Some (PACKET_PARSER_SUCCESS, out)"
proof -
  have "unat (10 :: size_t) \<le> length (frame 0x42 [5, 6] @ [1])" by simp
  from parse_accepts_frames_only [OF this, of "\<lparr>commandId = 0, payloadLength = 0, payload = None\<rparr>"]
  obtain status out where *: "packetParserParse (Some (frame 0x42 [5, 6] @ [1])) 10
      (Some \<lparr>commandId = 0, payloadLength = 0, payload = None\<rparr>) = Some (status, out)"
    "status \<noteq> PACKET_PARSER_SUCCESS \<longrightarrow> \<not> (\<exists>cmd pl rest. frame 0x42 [5, 6] @ [1] = frame cmd pl @ rest \<and>
       length pl \<le> 255 \<and> length pl + 7 \<le> unat (10 :: size_t))"
    by blast
  have "length [5 :: u8, 6] \<le> 255 \<and> length [5 :: u8, 6] + 7 \<le> unat (10 :: size_t)"
    by simp
  with *(2) have "status = PACKET_PARSER_SUCCESS" by blast
  with *(1) show ?thesis by blast
qed

text \<open>The parser looks at nothing behind the stated length: with any bytes appended to the
  buffer it returns the same status and the same packet.\<close>

lemma parse_append:
  assumes "unat rawLength \<le> length raw"
  shows "packetParserParse (Some (raw @ extra)) rawLength (Some old) =
         packetParserParse (Some raw) rawLength (Some old)"
proof -
  have "parsed (raw @ extra) = parsed raw"
    if "parse_status raw (unat rawLength) = PACKET_PARSER_SUCCESS"
  proof -
    have "7 \<le> length raw"
      using that assms by (auto simp: parse_status_def Let_def split: if_splits)
    then show ?thesis
      by (simp add: parsed_def declared_def nth_append)
  qed
  then show ?thesis
    using assms parse_eq [of rawLength "raw @ extra" old] parse_eq [OF assms, of old]
      parse_status_append [OF assms, of extra] by simp
qed

lemma parse_append_example:
  "packetParserParse (Some ([0xAA, 0x55, 0, 1, 7, 0, 0] @ [9, 9])) 7
     (Some \<lparr>commandId = 0, payloadLength = 0, payload = None\<rparr>) =
   packetParserParse (Some [0xAA, 0x55, 0, 1, 7, 0, 0]) 7
     (Some \<lparr>commandId = 0, payloadLength = 0, payload = None\<rparr>)"
  by (rule parse_append) simp

lemma frame_codeword:
  assumes "length pl \<le> 255"
  shows "frame cmd pl = [0xAA, 0x55] @ frame_body cmd pl @
    [ucast (drop_bit 8 (crc16_of (frame_body cmd pl))), ucast (crc16_of (frame_body cmd pl) AND 0xFF)]"
  by (simp add: frame_def be16_def)

lemma message_bits_drop: "drop (8 * n) (message_bits r bs) = message_bits r (drop n bs)"
proof (induction n arbitrary: bs)
  case (Suc n)
  then show ?case by (cases bs; cases r) (simp_all add: drop_append)
qed simp

lemma message_bits_take: "take (8 * n) (message_bits r bs) = message_bits r (take n bs)"
proof (induction n arbitrary: bs)
  case (Suc n)
  then show ?case by (cases bs; cases r) (simp_all add: take_append)
qed simp

text \<open>
  The reason for both error properties of the parser: behind an intact header and length
  field, a codeword the register does not take to zero is a CRC mismatch.
\<close>

lemma frame_residue: "length pl \<le> 255 \<Longrightarrow> crc16_of (drop 2 (frame cmd pl)) = 0"
  unfolding frame_codeword using crc16_residue [of "frame_body cmd pl"] by simp

lemma corrupted_frame:
  assumes "length pl \<le> 255" "unat rawLength = length pl + 7" "length raw' = length pl + 7"
    and head: "take 4 raw' = take 4 (frame cmd pl)" and nonzero: "crc16_of (drop 2 raw') \<noteq> 0"
  shows "packetParserParse (Some raw') rawLength (Some old) =
    Some (PACKET_PARSER_ERROR_CRC_MISMATCH, Some old)"
proof -
  let ?raw = "frame cmd pl" and ?n = "length pl"
  have same: "raw' ! i = ?raw ! i" if "i < 4" for i
    using head that by (metis nth_take)
  note f = frame_fields [OF assms(1), of cmd "[]", unfolded append_Nil2]
  have d: "unat (declared raw') = Suc ?n"
    using f(1) same [of 2] same [of 3] of_nat_length_u16 [OF assms(1)] by (simp add: declared_def)
  let ?body = "take (?n + 3) (drop 2 raw')"
  have tail: "drop 2 raw' = ?body @ [raw' ! (?n + 5), raw' ! (?n + 6)]"
  proof -
    have "drop (?n + 5) raw' = [raw' ! (?n + 5), raw' ! (?n + 6)]"
      using assms(3) by (simp add: Cons_nth_drop_Suc [symmetric] eval_nat_numeral)
    then show ?thesis
      using append_take_drop_id [of "?n + 3" "drop 2 raw'"] by (simp add: eval_nat_numeral)
  qed
  have "crc16_of ?body \<noteq> of_be16 (raw' ! (?n + 5)) (raw' ! (?n + 6))"
  proof
    assume "crc16_of ?body = of_be16 (raw' ! (?n + 5)) (raw' ! (?n + 6))"
    then have "[raw' ! (?n + 5), raw' ! (?n + 6)] = be16 (crc16_of ?body)"
      by (simp add: be16_of_be16)
    with tail crc16_residue [of ?body] have "crc16_of (drop 2 raw') = 0"
      unfolding be16_def by metis
    with nonzero show False ..
  qed
  then have "parse_status raw' (?n + 7) = PACKET_PARSER_ERROR_CRC_MISMATCH"
    using same [of 0] same [of 1] f(2,3) d assms(1) by (simp add: parse_status_def Let_def eval_nat_numeral)
  then show ?thesis
    using parse_eq [of rawLength raw' old] assms(2,3) by simp
qed

lemma corrupted_burst:
  assumes "length pl \<le> 255" "unat rawLength = length pl + 7"
    and "message_bits False (frame cmd pl) = p @ u @ q" "message_bits False raw' = p @ v @ q"
    and "length u = length v" "length u \<le> 16" "u \<noteq> v" "32 \<le> length p"
  shows "packetParserParse (Some raw') rawLength (Some old) =
    Some (PACKET_PARSER_ERROR_CRC_MISMATCH, Some old)"
proof (rule corrupted_frame [OF assms(1,2)])
  let ?raw = "frame cmd pl"
  have "8 * length raw' = 8 * length ?raw"
    using arg_cong [OF assms(3), of length] arg_cong [OF assms(4), of length] assms(5)
    unfolding length_message_bits by simp
  then show len: "length raw' = length pl + 7" by simp
  have "message_bits False (take 4 raw') = message_bits False (take 4 ?raw)"
    using message_bits_take [of 4 False raw'] message_bits_take [of 4 False ?raw] assms(3,4,8) by simp
  then show "take 4 raw' = take 4 ?raw"
    using message_bits_inject [of "take 4 raw'" "take 4 ?raw" False] len by simp
  have bits: "message_bits False (drop 2 ?raw) = drop 16 p @ u @ q"
      "message_bits False (drop 2 raw') = drop 16 p @ v @ q"
    using message_bits_drop [of 2 False ?raw] message_bits_drop [of 2 False raw'] assms(3,4,8) by simp_all
  have "crc16_of (drop 2 ?raw) \<noteq> crc16_of (drop 2 raw')"
    using crc16_reg.burst_bits [OF bits assms(5) _ assms(7)] assms(6) by (simp add: crc16_of_def crc16_fold_def)
  then show "crc16_of (drop 2 raw') \<noteq> 0"
    by (simp add: frame_residue [OF assms(1)])
qed

lemma frame_example: "frame 0x42 [5] = [0xAA, 0x55, 0, 2, 0x42, 5, 0xD1, 0xAB]"
proof -
  have "crc_value CRC16_params [0, 2, 0x42, 5] = 0xD1AB"
    by code_simp
  then have "crc16_of (frame_body 0x42 [5]) = 0xD1AB"
    by (simp add: crc16_of_model frame_body_def be16_def)
  then show ?thesis
    by (simp add: frame_def frame_body_def be16_def)
qed

end
