(* ===== verification/CrcDistance.thy ===== *)
theory CrcDistance
  imports Frame
begin

text \<open>
  How many bit errors a CRC detects, wherever they are.  The register is linear, so an error
  pattern goes undetected exactly when it drives the zero register back to zero.  A
  polynomial with an even number of terms keeps the parity of what it is fed
  (locale \<open>even_generator\<close>), and one whose register does not return to 1 within a period
  separates any two single errors closer than that (locale \<open>long_generator\<close>).  The polynomial
  of CRC-16-CCITT is both, with the period 32767, so no codeword of up to 4095 bytes is turned
  into another by fewer than four bit errors.
\<close>

subsection \<open>Linearity\<close>

lemma lfsr_step_xor:
  "lfsr_step g (s XOR t) (b = (\<not> c)) = lfsr_step g s b XOR lfsr_step g t c"
  by (rule bit_word_eqI) (auto simp only: bit_lfsr_step bit_xor_iff)

definition errors :: "bool list \<Rightarrow> bool list \<Rightarrow> bool list" where
  "errors xs ys = map2 (\<noteq>) xs ys"

lemma errors_simps [simp]:
  "errors [] ys = []" "errors (x # xs) (y # ys) = (x \<noteq> y) # errors xs ys"
  by (simp_all add: errors_def)

lemma length_errors: "length (errors xs ys) = min (length xs) (length ys)"
  by (simp add: errors_def)

lemma errors_append:
  "length xs = length ys \<Longrightarrow> errors (xs @ us) (ys @ vs) = errors xs ys @ errors us vs"
  by (simp add: errors_def)

lemma errors_same [simp]: "errors xs xs = replicate (length xs) False"
  by (induction xs) auto

lemma lfsr_xor:
  "length xs = length ys \<Longrightarrow> lfsr g (s XOR t) (errors xs ys) = lfsr g s xs XOR lfsr g t ys"
  by (induction xs ys arbitrary: s t rule: list_induct2) (simp_all add: lfsr_step_xor)

lemma xor_zero_iff: "v XOR w = 0 \<longleftrightarrow> v = (w :: 'a::len word)"
proof
  assume "v XOR w = 0"
  then have "(v XOR w) XOR w = w" by simp
  then show "v = w" by (simp add: xor.assoc)
qed simp

lemma lfsr_difference:
  "length xs = length ys \<Longrightarrow> lfsr g s xs = lfsr g s ys \<longleftrightarrow> lfsr g 0 (errors xs ys) = 0"
  using lfsr_xor [of xs ys g s s] xor_zero_iff [of "lfsr g s xs" "lfsr g s ys"] by simp

lemma lfsr_zero: "lfsr g 0 (replicate n False) = 0"
  by (induction n) (auto simp: lfsr_step_def)

subsection \<open>Parity\<close>

definition parity :: "bool list \<Rightarrow> bool" where
  "parity bs = foldr (\<noteq>) bs False"

definition word_parity :: "'a::len word \<Rightarrow> bool" where
  "word_parity w = parity (map (bit w) [0..<LENGTH('a)])"

lemma parity_simps [simp]: "parity [] = False" "parity (b # bs) = (b \<noteq> parity bs)"
  by (simp_all add: parity_def)

lemma parity_append [simp]: "parity (xs @ ys) = (parity xs \<noteq> parity ys)"
  by (induction xs) auto

lemma parity_count: "parity bs \<longleftrightarrow> odd (count_list bs True)"
  by (induction bs) auto

lemma parity_map_xor: "parity (map (\<lambda>x. f x \<noteq> h x) xs) = (parity (map f xs) \<noteq> parity (map h xs))"
  by (induction xs) auto

lemma word_parity_xor: "word_parity (v XOR w) = (word_parity v \<noteq> word_parity w)"
proof -
  have "bit (v XOR w) = (\<lambda>i. bit v i \<noteq> bit w i)"
    by (simp add: fun_eq_iff bit_xor_iff)
  then show ?thesis
    unfolding word_parity_def by (simp only: parity_map_xor)
qed

lemma word_parity_0 [simp]: "\<not> word_parity 0"
  using word_parity_xor [of 0 0] by simp

lemma word_parity_shift:
  "word_parity (push_bit 1 w :: 'a::len word) = (word_parity w \<noteq> bit w (LENGTH('a) - 1))"
proof -
  obtain n where n: "LENGTH('a) = Suc n"
    using len_gt_0 [where 'a = 'a] gr0_implies_Suc by blast
  define f where "f = bit (push_bit 1 w)"
  have f: "f i \<longleftrightarrow> i < Suc n \<and> 0 < i \<and> bit w (i - 1)" for i
    unfolding f_def n [symmetric] by (rule bit_shift_up)
  have "map f [0..<Suc n] = False # map (bit w) [0..<n]"
    by (rule nth_equalityI) (auto simp: f nth_Cons' simp del: upt_Suc)
  then show ?thesis
    unfolding word_parity_def f_def [symmetric] n by (simp only: parity_simps) auto
qed

locale even_generator = crc_generator +
  assumes even_poly: "word_parity g"
begin

lemma step_parity: "word_parity (lfsr_step g s b) = (word_parity s \<noteq> b)"
  using even_poly unfolding lfsr_step_def by (simp only: word_parity_xor word_parity_shift split: if_split) auto

lemma lfsr_parity: "word_parity (lfsr g s bs) = (word_parity s \<noteq> parity bs)"
  by (induction bs arbitrary: s) (auto simp: step_parity)

lemma odd_detected: "odd (count_list e True) \<Longrightarrow> lfsr g 0 e \<noteq> 0"
  using lfsr_parity [of 0 e] parity_count [of e] by auto

end

subsection \<open>Two errors\<close>

text \<open>\<open>k\<close> steps of the register without input.\<close>

abbreviation spin :: "'a::len word \<Rightarrow> nat \<Rightarrow> 'a word \<Rightarrow> 'a word" where
  "spin g k s \<equiv> lfsr g s (replicate k False)"

lemma spin_add: "spin g (m + n) s = spin g n (spin g m s)"
  by (simp add: replicate_add lfsr_append)

lemma spin_one: "n < LENGTH('a) \<Longrightarrow> spin g n (1 :: 'a::len word) = push_bit n 1"
proof (induction n)
  case (Suc n)
  then have "\<not> bit (push_bit n (1 :: 'a word)) (LENGTH('a) - 1)"
    by (auto simp: bit_exp_iff)
  with Suc spin_add [of g 1 n 1] show ?case
    by (simp add: lfsr_step_def)
qed simp

lemma count_one:
  "count_list e True = Suc n \<Longrightarrow> \<exists>a f. e = replicate a False @ True # f \<and> count_list f True = n"
proof (induction e)
  case (Cons b e)
  show ?case
  proof (cases b)
    case True
    with Cons.prems have "b # e = replicate 0 False @ True # e" "count_list e True = n" by simp_all
    then show ?thesis by blast
  next
    case False
    with Cons obtain a f where "e = replicate a False @ True # f" "count_list f True = n" by auto
    with False have "b # e = replicate (Suc a) False @ True # f" by simp
    with \<open>count_list f True = n\<close> show ?thesis by blast
  qed
qed simp

lemma count_zero: "count_list e True = 0 \<Longrightarrow> e = replicate (length e) False"
  by (induction e) (auto split: if_splits)

locale long_generator = crc_generator g for g :: "'a::len word" +
  fixes period :: nat
  assumes no_return: "0 < k \<Longrightarrow> k < period \<Longrightarrow> spin g k 1 \<noteq> 1"
begin

lemma pair_detected:
  assumes "count_list e True = 2" "length e \<le> period"
  shows "lfsr g 0 e \<noteq> 0"
proof
  assume zero: "lfsr g 0 e = 0"
  obtain a f where f: "e = replicate a False @ True # f" "count_list f True = 1"
    using count_one [of e 1] assms(1) by auto
  obtain k h where h: "f = replicate k False @ True # h" "count_list h True = 0"
    using count_one [of f 0] f(2) by auto
  let ?top = "push_bit (LENGTH('a) - 1) 1 :: 'a word"
  have top: "spin g (LENGTH('a) - 1) 1 = ?top"
    by (simp add: spin_one)
  have first: "lfsr_step g 0 True = lfsr_step g ?top False"
    using step_feed [of 0 True] by simp
  have last: "lfsr_step g s True = lfsr_step g (s XOR ?top) False" for s
    using step_feed [of s True] by simp
  have "lfsr g 0 e = spin g (length h) (lfsr_step g (spin g k (lfsr_step g 0 True)) True)"
    by (subst f(1), subst h(1), subst count_zero [OF h(2)]) (simp add: lfsr_append lfsr_zero)
  with zero have "spin g (length h) (lfsr_step g (spin g k (lfsr_step g 0 True)) True) = spin g (length h) 0"
    by (simp add: lfsr_zero)
  then have "lfsr_step g (spin g k (lfsr_step g 0 True)) True = 0"
    by (rule lfsr_inject)
  moreover have "lfsr_step g 0 False = 0"
    by (simp add: lfsr_step_def)
  ultimately have "lfsr_step g (spin g k (lfsr_step g 0 True) XOR ?top) False = lfsr_step g 0 False"
    unfolding last [symmetric] by (rule trans [OF _ sym])
  then have "spin g k (lfsr_step g 0 True) XOR ?top = 0"
    by (rule step_inject)
  then have "spin g k (lfsr_step g 0 True) = ?top"
    by (simp only: xor_zero_iff)
  then have "spin g (LENGTH('a) - 1 + (Suc k)) 1 = spin g (LENGTH('a) - 1) 1"
    unfolding spin_add top first by simp
  then have "spin g (LENGTH('a) - 1) (spin g (Suc k) 1) = spin g (LENGTH('a) - 1) 1"
    by (simp add: spin_add [symmetric] add.commute del: replicate_Suc)
  then have "spin g (Suc k) 1 = 1"
    by (rule lfsr_inject)
  moreover have "Suc k < period"
    using assms(2) f(1) h(1) by simp
  ultimately show False
    using no_return [of "Suc k"] by simp
qed

end

subsection \<open>The polynomial of CRC-16-CCITT\<close>

text \<open>
  The register without input, on the integers that its states denote: walking it for
  \<open>2 ^ n\<close> steps fails if it comes by 1.  The two walks below are one cycle of 32767 steps.
\<close>

definition spin16 :: "int \<Rightarrow> int" where
  "spin16 s = (if s \<ge> 32768 then (2 * s - 65536) XOR 4129 else 2 * s)"

primrec walk :: "nat \<Rightarrow> int \<Rightarrow> int option" where
  "walk 0 s = (if spin16 s = 1 then None else Some (spin16 s))"
| "walk (Suc n) s = (case walk n s of None \<Rightarrow> None | Some t \<Rightarrow> walk n t)"

primrec walks :: "nat list \<Rightarrow> int \<Rightarrow> int option" where
  "walks [] s = Some s"
| "walks (n # ns) s = (case walk n s of None \<Rightarrow> None | Some t \<Rightarrow> walks ns t)"

lemma walk_steps: "walk n s = Some t \<Longrightarrow> t = (spin16 ^^ (2 ^ n)) s \<and> (\<forall>k. 0 < k \<and> k \<le> 2 ^ n \<longrightarrow> (spin16 ^^ k) s \<noteq> 1)"
proof (induction n arbitrary: s t)
  case 0
  then show ?case by (auto split: if_splits simp: le_Suc_eq)
next
  case (Suc n)
  then obtain u where u: "walk n s = Some u" "walk n u = Some t"
    by (auto split: option.splits)
  note here = Suc.IH [OF u(1)] and there = Suc.IH [OF u(2)]
  have "(spin16 ^^ k) s \<noteq> 1" if k: "0 < k" "k \<le> 2 ^ Suc n" for k
  proof (cases "k \<le> 2 ^ n")
    case False
    then obtain j where j: "k = j + 2 ^ n" "0 < j" "j \<le> 2 ^ n"
      using k(2) by (metis add.commute le_add_diff_inverse less_imp_le linorder_not_le mult_2 nat_add_left_cancel_le
          power_Suc zero_less_diff)
    with here there show ?thesis by (simp add: funpow_add)
  qed (use here k in blast)
  moreover have "t = (spin16 ^^ (2 ^ Suc n)) s"
    using here there by (simp add: funpow_add mult_2)
  ultimately show ?case by blast
qed

lemma walks_steps:
  "walks ns s = Some t \<Longrightarrow> t = (spin16 ^^ sum_list (map (\<lambda>n. 2 ^ n) ns)) s \<and>
     (\<forall>k. 0 < k \<and> k \<le> sum_list (map (\<lambda>n. 2 ^ n) ns) \<longrightarrow> (spin16 ^^ k) s \<noteq> 1)"
proof (induction ns arbitrary: s)
  case (Cons n ns)
  then obtain u where u: "walk n s = Some u" "walks ns u = Some t"
    by (auto split: option.splits)
  note here = walk_steps [OF u(1)] and there = Cons.IH [OF u(2)]
  let ?m = "sum_list (map (\<lambda>n. 2 ^ n) ns)"
  have "(spin16 ^^ k) s \<noteq> 1" if k: "0 < k" "k \<le> 2 ^ n + ?m" for k
  proof (cases "k \<le> 2 ^ n")
    case False
    then have j: "k = (k - 2 ^ n) + 2 ^ n" "0 < k - 2 ^ n" "k - 2 ^ n \<le> ?m"
      using k(2) by simp_all
    have "(spin16 ^^ (k - 2 ^ n)) u \<noteq> 1"
      using there j(2,3) by blast
    with here show ?thesis by (subst j(1), subst funpow_add) simp
  qed (use here k in blast)
  moreover have "t = (spin16 ^^ (2 ^ n + ?m)) s"
    using here there by (simp add: funpow_add add.commute [of "2 ^ n"])
  ultimately show ?case by auto
qed auto

lemma first_walk: "walk 14 1 = Some 17496"
  by code_simp

lemma second_walk: "walks [13, 12, 11, 10, 9, 8, 7, 6, 5, 4, 3, 2, 1] 17496 \<noteq> None"
  by code_simp

lemma spin16_no_return: "0 < k \<Longrightarrow> k < 32767 \<Longrightarrow> (spin16 ^^ k) 1 \<noteq> 1"
proof -
  obtain t where "walks [14, 13, 12, 11, 10, 9, 8, 7, 6, 5, 4, 3, 2, 1] 1 = Some t"
    using first_walk second_walk by auto
  from walks_steps [OF this] show "0 < k \<Longrightarrow> k < 32767 \<Longrightarrow> ?thesis" by auto
qed

lemma uint_spin16: "uint (lfsr_step 0x1021 (s :: u16) False) = spin16 (uint s)"
proof -
  have s: "0 \<le> uint s" "uint s < 65536"
    using uint_lt2p [of s] by simp_all
  have top: "bit s 15 \<longleftrightarrow> 32768 \<le> uint s"
  proof -
    have "bit s 15 \<longleftrightarrow> odd (uint s div 2 ^ 15)"
      using bit_uint_iff [of s 15] by (simp add: bit_iff_odd)
    moreover have "uint s div 2 ^ 15 = (if 32768 \<le> uint s then 1 else 0)"
      using s by auto
    ultimately show ?thesis by simp
  qed
  have shift: "uint (push_bit 1 s) = 2 * uint s mod 65536"
    by (simp add: uint_word_ariths mult.commute)
  have "2 * uint s mod 65536 = 2 * uint s - 65536" if "32768 \<le> uint s"
  proof -
    have "2 * uint s mod 65536 = (2 * uint s - 65536) mod 65536"
      by (rule minus_mod_self2 [symmetric])
    also have "\<dots> = 2 * uint s - 65536"
      using s that by (intro mod_pos_pos_trivial) simp_all
    finally show ?thesis .
  qed
  then have "2 * uint s mod 65536 = (if 32768 \<le> uint s then 2 * uint s - 65536 else 2 * uint s)"
    using s by simp
  with top shift show ?thesis
    by (auto simp: lfsr_step_def spin16_def uint_xor)
qed

lemma uint_spin: "uint (spin 0x1021 k (s :: u16)) = (spin16 ^^ k) (uint s)"
  by (induction k arbitrary: s) (simp_all add: uint_spin16 funpow_Suc_right del: funpow.simps)

interpretation crc16_even: even_generator CRC16_CCITT_FALSE_POLYNOMIAL
proof
  show "word_parity CRC16_CCITT_FALSE_POLYNOMIAL"
    by code_simp
qed

interpretation crc16_long: long_generator CRC16_CCITT_FALSE_POLYNOMIAL 32767
proof
  fix k :: nat
  assume k: "0 < k" "k < 32767"
  have "uint (spin CRC16_CCITT_FALSE_POLYNOMIAL k 1) \<noteq> 1"
    using spin16_no_return [OF k] by (simp add: uint_spin CRC16_CCITT_FALSE_POLYNOMIAL_def)
  then show "spin CRC16_CCITT_FALSE_POLYNOMIAL k 1 \<noteq> 1"
    by auto
qed

text \<open>An error pattern the register notices: an odd number of errors, or at most three close enough.\<close>

definition noticed :: "bool list \<Rightarrow> bool" where
  "noticed e \<longleftrightarrow> odd (count_list e True) \<or> (0 < count_list e True \<and> count_list e True \<le> 3 \<and> length e \<le> 32767)"

lemma crc16_notices: "noticed e \<Longrightarrow> lfsr CRC16_CCITT_FALSE_POLYNOMIAL 0 e \<noteq> 0"
proof -
  assume "noticed e"
  then consider "odd (count_list e True)" | "count_list e True = 2" "length e \<le> 32767"
    by (auto simp: noticed_def le_Suc_eq numeral_3_eq_3)
  then show ?thesis
    using crc16_even.odd_detected crc16_long.pair_detected by cases auto
qed

lemma residue_frame: "crc16_of (bs @ be16 (crc16_of bs)) = 0"
  using crc16_residue [of bs] by (simp add: be16_def)

lemma crc16_lfsr:
  "crc16_of bs = lfsr CRC16_CCITT_FALSE_POLYNOMIAL CRC16_INITIAL_VALUE (message_bits False bs)"
  using crc16_reg.fold_eq [of CRC16_INITIAL_VALUE bs] by (simp add: crc16_of_def crc16_fold_def)

lemma crc16_separates:
  assumes "noticed (errors (message_bits False xs) (message_bits False ys))" "length xs = length ys"
  shows "crc16_of xs \<noteq> crc16_of ys"
  using crc16_notices [OF assms(1)] assms(2)
    lfsr_difference [of "message_bits False xs" "message_bits False ys" CRC16_CCITT_FALSE_POLYNOMIAL CRC16_INITIAL_VALUE]
  unfolding crc16_lfsr by simp

subsection \<open>Verification of a disturbed message\<close>

text \<open>
  Verifying a received message against the received checksum reports a mismatch for every
  noticed pattern of errors in the two together.
\<close>

lemma crc16_detects_bit_errors:
  assumes "crc16Compute (Some xs) (of_nat (length xs)) (Some 0) = Some (CRC16_SUCCESS, Some c)"
    and "noticed (errors (message_bits False (xs @ be16 c)) (message_bits False (ys @ be16 c')))"
    and "length ys = length xs" "length xs < size_limit"
  shows "crc16Verify (Some ys) (of_nat (length ys)) c' = Some CRC16_ERROR_MISMATCH"
proof -
  have "c = crc16_of xs"
    using assms(1,4) by (simp add: crc16Compute_ok unat_of_nat_size)
  moreover have "crc16_of (xs @ be16 c) \<noteq> crc16_of (ys @ be16 c')"
    using assms(2,3) by (intro crc16_separates) simp_all
  ultimately have "crc16_of ys \<noteq> c'"
    using residue_frame [of xs] residue_frame [of ys] by auto
  then show ?thesis
    using assms(3,4) by (simp add: crc16Verify_ok unat_of_nat_size)
qed

end
