(* ===== verification/PacketErrors.thy ===== *)
theory PacketErrors
  imports PacketParser CrcDistance
begin

text \<open>
  What bit errors on the line do to a packet (\<open>src/packetParser.c\<close> on what
  \<open>src/packetBuilder.c\<close> wrote).  Whether an error behind the length field is noticed depends
  on its bits alone; anything less than four bit errors, any odd number of them and any burst
  within 16 bits is, and in every packet there is an error of four bits within 17 that is not.
\<close>

text \<open>The bit errors between a frame and the bytes received in its place.\<close>

definition bit_errors :: "u8 list \<Rightarrow> u8 list \<Rightarrow> nat" where
  "bit_errors xs ys = count_list (errors (message_bits False xs) (message_bits False ys)) True"

lemma bit_errors_append:
  "length xs = length ys \<Longrightarrow> bit_errors (xs @ us) (ys @ vs) = bit_errors xs ys + bit_errors us vs"
  by (simp add: bit_errors_def message_bits_append errors_append)

lemma bit_errors_same [simp]: "bit_errors xs xs = 0"
  by (simp add: bit_errors_def)

lemma bit_errors_middle:
  "length us = length vs \<Longrightarrow> bit_errors (xs @ us @ ys) (xs @ vs @ ys) = bit_errors us vs"
  by (simp add: bit_errors_append)

lemma corrupted_bits:
  assumes "length pl \<le> 255" "unat rawLength = length pl + 7" "length raw' = length pl + 7"
    and "take 4 raw' = take 4 (frame cmd pl)"
    and "bit_errors (frame cmd pl) raw' \<in> {1, 2, 3} \<or> odd (bit_errors (frame cmd pl) raw')"
  shows "packetParserParse (Some raw') rawLength (Some old) =
    Some (PACKET_PARSER_ERROR_CRC_MISMATCH, Some old)"
proof (rule corrupted_frame [OF assms(1-4)])
  let ?raw = "frame cmd pl"
  have "bit_errors (take 2 ?raw) (take 2 raw') = 0"
    using arg_cong [OF assms(4), of "take 2"] by simp
  then have "bit_errors ?raw raw' = bit_errors (drop 2 ?raw) (drop 2 raw')"
    using bit_errors_append [of "take 2 ?raw" "take 2 raw'" "drop 2 ?raw" "drop 2 raw'"] assms(3) by simp
  then have "noticed (errors (message_bits False (drop 2 ?raw)) (message_bits False (drop 2 raw')))"
    using assms(1,3,5) by (auto simp: noticed_def bit_errors_def length_errors)
  then have "crc16_of (drop 2 ?raw) \<noteq> crc16_of (drop 2 raw')"
    using assms(3) by (intro crc16_separates) simp_all
  then show "crc16_of (drop 2 raw') \<noteq> 0"
    by (simp add: frame_residue [OF assms(1)])
qed

subsection \<open>Exactly which errors\<close>

lemma crc16_zero_iff: "crc16_of (bs @ [a, b]) = 0 \<longleftrightarrow> [a, b] = be16 (crc16_of bs)"
proof
  show "[a, b] = be16 (crc16_of bs)" if "crc16_of (bs @ [a, b]) = 0"
  proof (rule ccontr)
    assume "[a, b] \<noteq> be16 (crc16_of bs)"
    then have "crc16_of (bs @ [a, b]) \<noteq> crc16_of (bs @ be16 (crc16_of bs))"
      using crc16_chk.separates_two [of "[a, b]" "be16 (crc16_of bs)" bs "[]"] by simp
    with that show False
      by (simp add: residue_frame)
  qed
qed (simp add: residue_frame)

text \<open>Behind an intact length field, the bytes that leave the register at zero are a frame.\<close>

lemma zero_is_frame:
  assumes "length raw' = length pl + 7" "take 4 raw' = take 4 (frame cmd pl)" "crc16_of (drop 2 raw') = 0"
  shows "raw' = frame (raw' ! 4) (take (length pl) (drop 5 raw'))"
proof -
  let ?n = "length pl"
  let ?cmd = "raw' ! 4" and ?pl = "take ?n (drop 5 raw')"
  have crc: "drop (?n + 5) raw' = [raw' ! (?n + 5), raw' ! (?n + 6)]"
    using assms(1) by (simp add: Cons_nth_drop_Suc [symmetric] eval_nat_numeral)
  have head: "take 4 raw' = [0xAA, 0x55] @ be16 (of_nat (Suc ?n))"
    unfolding assms(2) by (simp add: frame_def frame_body_def be16_def)
  have "drop 4 raw' = ?cmd # drop 5 raw'"
    using assms(1) Cons_nth_drop_Suc [of 4 raw'] by simp
  also have "drop 5 raw' = ?pl @ drop (?n + 5) raw'"
    using append_take_drop_id [of ?n "drop 5 raw'"] by (simp add: add.commute)
  finally have raw: "raw' = [0xAA, 0x55] @ frame_body ?cmd ?pl @ drop (?n + 5) raw'"
    using append_take_drop_id [of 4 raw'] assms(1) unfolding head by (simp add: frame_body_def)
  have "drop 2 raw' = frame_body ?cmd ?pl @ [raw' ! (?n + 5), raw' ! (?n + 6)]"
    using arg_cong [OF raw, of "drop 2"] unfolding crc by simp
  then have "[raw' ! (?n + 5), raw' ! (?n + 6)] = be16 (crc16_of (frame_body ?cmd ?pl))"
    using assms(3) crc16_zero_iff by simp
  with raw show ?thesis
    unfolding crc frame_def by simp
qed

text \<open>The errors between two byte sequences drive the register from zero to their difference.\<close>

definition undetected :: "u8 list \<Rightarrow> u8 list \<Rightarrow> bool" where
  "undetected xs ys \<longleftrightarrow>
     lfsr CRC16_CCITT_FALSE_POLYNOMIAL 0 (errors (message_bits False xs) (message_bits False ys)) = 0"

lemma undetected_iff: "length xs = length ys \<Longrightarrow> undetected xs ys \<longleftrightarrow> crc16_of xs = crc16_of ys"
  unfolding undetected_def crc16_lfsr by (rule lfsr_difference [symmetric]) simp

lemma undetected_append:
  assumes "length xs = length ys"
  shows "undetected (us @ xs @ vs) (us @ ys @ vs) \<longleftrightarrow> undetected xs ys"
proof -
  have "lfsr g 0 (replicate n False @ e @ replicate k False) = lfsr g (lfsr g 0 e) (replicate k False)" for g :: u16 and n k e
    by (simp add: lfsr_append lfsr_zero)
  moreover have "lfsr CRC16_CCITT_FALSE_POLYNOMIAL s (replicate k False) = 0 \<longleftrightarrow> s = 0" for s k
    using crc16_gen.lfsr_inject [of s "replicate k False" 0] by (auto simp: lfsr_zero)
  ultimately show ?thesis
    using assms by (simp add: undetected_def message_bits_append errors_append)
qed

lemma disturbed_frame:
  assumes "length pl \<le> 255" "unat rawLength = length pl + 7" "length raw' = length pl + 7"
    and "take 4 raw' = take 4 (frame cmd pl)"
  shows "packetParserParse (Some raw') rawLength (Some old) =
    (if undetected (frame cmd pl) raw'
     then Some (PACKET_PARSER_SUCCESS, Some (packet_of (raw' ! 4) (take (length pl) (drop 5 raw'))))
     else Some (PACKET_PARSER_ERROR_CRC_MISMATCH, Some old))"
proof -
  let ?raw = "frame cmd pl" and ?pl = "take (length pl) (drop 5 raw')"
  have two: "take 2 raw' = take 2 ?raw"
    using arg_cong [OF assms(4), of "take 2"] by simp
  have "undetected ?raw raw' \<longleftrightarrow> undetected (drop 2 ?raw) (drop 2 raw')"
    using undetected_append [of "drop 2 ?raw" "drop 2 raw'" "take 2 ?raw" "[]"] assms(3)
      append_take_drop_id [of 2 ?raw] append_take_drop_id [of 2 raw'] unfolding two by simp
  also have "\<dots> \<longleftrightarrow> crc16_of (drop 2 raw') = 0"
    using undetected_iff [of "drop 2 ?raw" "drop 2 raw'"] assms(3) frame_residue [OF assms(1)] by auto
  finally have iff: "undetected ?raw raw' \<longleftrightarrow> crc16_of (drop 2 raw') = 0" .
  show ?thesis
  proof (cases "undetected ?raw raw'")
    case True
    then have raw': "raw' = frame (raw' ! 4) ?pl"
      using zero_is_frame [OF assms(3,4)] iff by simp
    have len: "length ?pl \<le> 255" "length ?pl + 7 \<le> unat rawLength" "unat rawLength \<le> length raw'"
      using assms(1-3) by simp_all
    have "parse_status raw' (unat rawLength) = PACKET_PARSER_SUCCESS" "parsed raw' = packet_of (raw' ! 4) ?pl"
      using parse_frame [OF len(1,2), of "raw' ! 4" "[]"] unfolding append_Nil2 raw' [symmetric] by simp_all
    with True show ?thesis
      using parse_eq [OF len(3), of old] by simp
  next
    case False
    with corrupted_frame [OF assms] iff show ?thesis by simp
  qed
qed


text \<open>The generator itself as an error pattern: bytes 0x88, 0x10, 0x80 added to three bytes.\<close>

lemma errors_bytes_xor:
  "length ps = length bs \<Longrightarrow> errors (message_bits False bs) (message_bits False (map2 (XOR) bs ps)) = message_bits False ps"
  by (induction ps bs rule: list_induct2) (auto simp: errors_append byte_bits_msb_def bit_xor_iff)

lemma generator_bytes:
  "lfsr CRC16_CCITT_FALSE_POLYNOMIAL 0 (message_bits False [0x88, 0x10, 0x80]) = 0"
  "count_list (message_bits False [0x88, 0x10, 0x80]) True = 4"
  by code_simp+

definition add_generator :: "u8 list \<Rightarrow> u8 list" where
  "add_generator raw = raw[4 := raw ! 4 XOR 0x88, 5 := raw ! 5 XOR 0x10, 6 := raw ! 6 XOR 0x80]"

lemma add_generator_split:
  assumes "7 \<le> length raw"
  shows "raw = take 4 raw @ [raw ! 4, raw ! 5, raw ! 6] @ drop 7 raw"
    and "add_generator raw =
      take 4 raw @ map2 (XOR) [raw ! 4, raw ! 5, raw ! 6] [0x88, 0x10, 0x80] @ drop 7 raw"
proof -
  have "drop 4 raw = [raw ! 4, raw ! 5, raw ! 6] @ drop 7 raw"
    using assms Cons_nth_drop_Suc [of 4 raw] Cons_nth_drop_Suc [of 5 raw] Cons_nth_drop_Suc [of 6 raw] by simp
  then show "raw = take 4 raw @ [raw ! 4, raw ! 5, raw ! 6] @ drop 7 raw"
    using append_take_drop_id [of 4 raw] by simp
  show "add_generator raw =
      take 4 raw @ map2 (XOR) [raw ! 4, raw ! 5, raw ! 6] [0x88, 0x10, 0x80] @ drop 7 raw"
    using assms by (intro nth_equalityI) (auto simp: add_generator_def nth_append nth_list_update nth_Cons' split: if_splits)
qed

lemma add_generator:
  assumes "7 \<le> length raw"
  shows "length (add_generator raw) = length raw" "take 4 (add_generator raw) = take 4 raw"
    "add_generator raw ! 4 = raw ! 4 XOR 0x88" "undetected raw (add_generator raw)"
    "bit_errors raw (add_generator raw) = 4"
proof -
  let ?bs = "[raw ! 4, raw ! 5, raw ! 6]"
  show "length (add_generator raw) = length raw" "take 4 (add_generator raw) = take 4 raw"
    "add_generator raw ! 4 = raw ! 4 XOR 0x88"
    using assms by (simp_all add: add_generator_def)
  note split = add_generator_split(1) [OF assms] and split' = add_generator_split(2) [OF assms]
  have e: "errors (message_bits False ?bs) (message_bits False (map2 (XOR) ?bs [0x88, 0x10, 0x80])) =
      message_bits False [0x88, 0x10, 0x80]"
    by (rule errors_bytes_xor) simp
  have mid: "undetected ?bs (map2 (XOR) ?bs [0x88, 0x10, 0x80])" "bit_errors ?bs (map2 (XOR) ?bs [0x88, 0x10, 0x80]) = 4"
    unfolding undetected_def bit_errors_def e by (rule generator_bytes)+
  show "undetected raw (add_generator raw)"
    unfolding split' by (subst split) (rule undetected_append [THEN iffD2, OF _ mid(1)], simp)
  show "bit_errors raw (add_generator raw) = 4"
    unfolding split' by (subst split) (rule trans [OF bit_errors_middle mid(2)], simp)
qed

text \<open>All of its differences lie within 17 bits, one more than the bursts that are always detected.\<close>

lemma generator_span:
  fixes a b c :: u8
  defines "us \<equiv> message_bits False [a, b, c]" and "vs \<equiv> message_bits False (map2 (XOR) [a, b, c] [0x88, 0x10, 0x80])"
  shows "drop 17 us = drop 17 vs" "take 17 us \<noteq> take 17 vs"
proof -
  show "drop 17 us = drop 17 vs"
    by (simp add: us_def vs_def byte_bits_msb_def bit_xor_iff)
  have "us ! 0 \<noteq> vs ! 0"
    by (simp add: us_def vs_def byte_bits_msb_def bit_xor_iff)
  then show "take 17 us \<noteq> take 17 vs"
    by (metis nth_take zero_less_numeral)
qed

lemma add_generator_burst:
  assumes "7 \<le> length raw"
  shows "\<exists>p u v q. message_bits False raw = p @ u @ q \<and> message_bits False (add_generator raw) = p @ v @ q \<and>
    length u = 17 \<and> length v = 17 \<and> u \<noteq> v \<and> 32 \<le> length p"
proof -
  let ?bs = "[raw ! 4, raw ! 5, raw ! 6]" and ?gs = "[0x88, 0x10, 0x80] :: u8 list"
  let ?us = "message_bits False ?bs" and ?vs = "message_bits False (map2 (XOR) ?bs ?gs)"
  let ?p = "message_bits False (take 4 raw)" and ?q = "drop 17 ?us @ message_bits False (drop 7 raw)"
  note span = generator_span [of "raw ! 4" "raw ! 5" "raw ! 6"]
  have "message_bits False raw = ?p @ ?us @ message_bits False (drop 7 raw)"
    unfolding message_bits_append [symmetric] using add_generator_split(1) [OF assms] by (rule arg_cong)
  then have raw: "message_bits False raw = ?p @ take 17 ?us @ ?q"
    by (metis append.assoc append_take_drop_id)
  have "message_bits False (add_generator raw) = ?p @ ?vs @ message_bits False (drop 7 raw)"
    unfolding message_bits_append [symmetric] using add_generator_split(2) [OF assms] by (rule arg_cong)
  then have bad: "message_bits False (add_generator raw) = ?p @ take 17 ?vs @ ?q"
    unfolding span(1) by (metis append.assoc append_take_drop_id)
  have "length (take 17 ?us) = 17" "length (take 17 ?vs) = 17" "32 \<le> length ?p"
    using assms by (simp_all add: min_def)
  with raw bad span(2) show ?thesis by blast
qed

text \<open>C11: a damaged packet is never taken for a packet.  Behind the length field (in the command,
  the payload and the checksum together) up to three bit errors, any odd number of them, and
  any burst within 16 bits are refused with the CRC mismatch, and the caller's packet is left
  as it was.\<close>

theorem parse_detects_bit_errors:
  assumes "length pl \<le> 255" "unat rawLength = length pl + 7" "length raw' = length pl + 7"
    and "take 4 raw' = take 4 (frame cmd pl)"
    and "bit_errors (frame cmd pl) raw' \<in> {1, 2, 3} \<or> odd (bit_errors (frame cmd pl) raw') \<or>
      (\<exists>p u v q. message_bits False (frame cmd pl) = p @ u @ q \<and> message_bits False raw' = p @ v @ q \<and>
        length u = length v \<and> length u \<le> 16 \<and> u \<noteq> v \<and> 32 \<le> length p)"
  shows "packetParserParse (Some raw') rawLength (Some old) =
    Some (PACKET_PARSER_ERROR_CRC_MISMATCH, Some old)"
  using assms(5) corrupted_bits [OF assms(1-4)] corrupted_burst [OF assms(1,2)] by blast

theorem parse_detects_bit_errors_witness:
  "packetParserParse (Some [0xAA, 0x55, 0, 2, 0xC2, 4, 0xD1, 0xAA]) 8
     (Some \<lparr>commandId = 0, payloadLength = 0, payload = None\<rparr>) =
   Some (PACKET_PARSER_ERROR_CRC_MISMATCH, Some \<lparr>commandId = 0, payloadLength = 0, payload = None\<rparr>)"
proof -
  have "bit_errors [0xAA, 0x55, 0, 2, 0x42, 5, 0xD1, 0xAB] [0xAA, 0x55, 0, 2, 0xC2, 4, 0xD1, 0xAA] = 3"
    by code_simp
  then show ?thesis
    by (intro parse_detects_bit_errors [where cmd = "0x42" and pl = "[5]", unfolded frame_example]) simp_all
qed

text \<open>C32: the parser's error detection, exactly, and its limit.  Bytes with the header and the
  length field of a packet are taken for a packet just when their difference from it, as a bit
  sequence, brings the zero register of the CRC back to zero, whatever the packet is; anything
  else is a CRC mismatch.  And for every packet there is such an error that goes unnoticed: of
  four bits, all within a burst of 17, behind the length field, after which the bytes pass as
  a packet with another command.  So no detection of four bit errors or of bursts of
  17 bits can be promised.\<close>

theorem parse_error_limit:
  assumes "length pl \<le> 255" "unat rawLength = length pl + 7" "length raw' = length pl + 7"
    and "take 4 raw' = take 4 (frame cmd pl)"
  shows "packetParserParse (Some raw') rawLength (Some old) =
      (if lfsr CRC16_CCITT_FALSE_POLYNOMIAL 0 (errors (message_bits False (frame cmd pl)) (message_bits False raw')) = 0
       then Some (PACKET_PARSER_SUCCESS, Some (packet_of (raw' ! 4) (take (length pl) (drop 5 raw'))))
       else Some (PACKET_PARSER_ERROR_CRC_MISMATCH, Some old)) \<and>
    (\<exists>bad pk. length bad = length pl + 7 \<and> take 4 bad = take 4 (frame cmd pl) \<and>
      bit_errors (frame cmd pl) bad = 4 \<and>
      (\<exists>p u v q. message_bits False (frame cmd pl) = p @ u @ q \<and> message_bits False bad = p @ v @ q \<and>
        length u = 17 \<and> length v = 17 \<and> u \<noteq> v \<and> 32 \<le> length p) \<and>
      packetParserParse (Some bad) rawLength (Some old) = Some (PACKET_PARSER_SUCCESS, Some pk) \<and>
      commandId pk = cmd XOR 0x88)"
proof (rule conjI)
  show "packetParserParse (Some raw') rawLength (Some old) =
      (if lfsr CRC16_CCITT_FALSE_POLYNOMIAL 0 (errors (message_bits False (frame cmd pl)) (message_bits False raw')) = 0
       then Some (PACKET_PARSER_SUCCESS, Some (packet_of (raw' ! 4) (take (length pl) (drop 5 raw'))))
       else Some (PACKET_PARSER_ERROR_CRC_MISMATCH, Some old))"
    using disturbed_frame [OF assms] unfolding undetected_def .
  let ?bad = "add_generator (frame cmd pl)"
  have "frame cmd pl ! 4 = cmd"
    by (simp add: frame_def frame_body_def be16_def)
  then have bad: "length ?bad = length pl + 7" "take 4 ?bad = take 4 (frame cmd pl)" "?bad ! 4 = cmd XOR 0x88"
      "undetected (frame cmd pl) ?bad" "bit_errors (frame cmd pl) ?bad = 4"
    using add_generator [of "frame cmd pl"] by simp_all
  then show "\<exists>bad pk. length bad = length pl + 7 \<and> take 4 bad = take 4 (frame cmd pl) \<and>
      bit_errors (frame cmd pl) bad = 4 \<and>
      (\<exists>p u v q. message_bits False (frame cmd pl) = p @ u @ q \<and> message_bits False bad = p @ v @ q \<and>
        length u = 17 \<and> length v = 17 \<and> u \<noteq> v \<and> 32 \<le> length p) \<and>
      packetParserParse (Some bad) rawLength (Some old) = Some (PACKET_PARSER_SUCCESS, Some pk) \<and>
      commandId pk = cmd XOR 0x88"
    using disturbed_frame [OF assms(1,2) bad(1,2), of old] add_generator_burst [of "frame cmd pl"]
    by (intro exI [of _ ?bad]) (simp add: packet_of_def)
qed

theorem parse_error_limit_witness:
  "packetParserParse (Some [0xAA, 0x55, 0, 2, 0xCA, 0x15, 0x51, 0xAB]) 8
     (Some \<lparr>commandId = 0, payloadLength = 0, payload = None\<rparr>) =
   Some (PACKET_PARSER_SUCCESS, Some (packet_of 0xCA [0x15]))"
proof -
  have "lfsr CRC16_CCITT_FALSE_POLYNOMIAL 0 (errors (message_bits False [0xAA, 0x55, 0, 2, 0x42, 5, 0xD1, 0xAB])
      (message_bits False [0xAA, 0x55, 0, 2, 0xCA, 0x15, 0x51, 0xAB])) = 0"
    by code_simp
  then show ?thesis
    using parse_error_limit [where cmd = "0x42" and pl = "[5]" and rawLength = 8
        and raw' = "[0xAA, 0x55, 0, 2, 0xCA, 0x15, 0x51, 0xAB]", unfolded frame_example, THEN conjunct1] by simp
qed

end
