(* ===== verification/PacketBuilder.thy ===== *)
theory PacketBuilder
  imports Frame
begin

text \<open>
  The packet builder (\<open>include/packetBuilder.h\<close>, \<open>src/packetBuilder.c\<close>): argument checks,
  then the frame written field by field into the caller's buffer, the CRC computed over the
  bytes just written.  The lemmas show that a successful build leaves exactly the frame of
  \<open>Frame\<close> at the front of the buffer and the rest untouched, that every failed build
  leaves both outputs untouched, and that the CRC failure branch is dead.
\<close>

datatype PacketBuilderStatus_t =
    PACKET_BUILDER_SUCCESS
  | PACKET_BUILDER_ERROR_NULL_POINTER
  | PACKET_BUILDER_ERROR_INVALID_LENGTH
  | PACKET_BUILDER_ERROR_BUFFER_TOO_SMALL
  | PACKET_BUILDER_ERROR_CRC_FAILURE

definition writeUint16BE :: "u8 list \<Rightarrow> nat \<Rightarrow> u16 \<Rightarrow> u8 list run" where
  "writeUint16BE m off v =
     do { m \<leftarrow> wr m off (ucast (drop_bit 8 v)); wr m (off + 1) (ucast (v AND 0xFF)) }"

text \<open>The guarded \<open>memcpy\<close> of the payload.\<close>

definition copyPayload :: "u8 list \<Rightarrow> u8 list ptr \<Rightarrow> u16 \<Rightarrow> u8 list run" where
  "copyPayload m payload payloadLength =
     (if payloadLength > 0
      then do {
        src \<leftarrow> deref payload;
        bytes \<leftarrow> rd_block src 0 (unat payloadLength);
        wr_block m PACKET_OFFSET_PAYLOAD bytes
      }
      else Some m)"

definition packetBuilderBuildPacket ::
  "u8 \<Rightarrow> u8 list ptr \<Rightarrow> u16 \<Rightarrow> u8 list ptr \<Rightarrow> size_t \<Rightarrow> size_t ptr \<Rightarrow>
   (PacketBuilderStatus_t \<times> u8 list ptr \<times> size_t ptr) run" where
  "packetBuilderBuildPacket commandId payload payloadLength packetBuffer packetBufferSize packetLength =
     (if packetBuffer = None \<or> packetLength = None
      then Some (PACKET_BUILDER_ERROR_NULL_POINTER, packetBuffer, packetLength)
      else if payload = None \<and> payloadLength > 0
      then Some (PACKET_BUILDER_ERROR_NULL_POINTER, packetBuffer, packetLength)
      else if unat payloadLength > PACKET_MAX_PAYLOAD_SIZE
      then Some (PACKET_BUILDER_ERROR_INVALID_LENGTH, packetBuffer, packetLength)
      else let totalPacketSize = (of_nat PACKET_MIN_PACKET_SIZE + ucast payloadLength :: size_t) in
      if packetBufferSize < totalPacketSize
      then Some (PACKET_BUILDER_ERROR_BUFFER_TOO_SMALL, packetBuffer, packetLength)
      else do {
        m \<leftarrow> deref packetBuffer;
        m \<leftarrow> wr m PACKET_OFFSET_HEADER1 PACKET_HEADER1;
        m \<leftarrow> wr m PACKET_OFFSET_HEADER2 PACKET_HEADER2;
        let declaredLength = of_nat PACKET_COMMAND_SIZE + payloadLength;
        m \<leftarrow> writeUint16BE m PACKET_OFFSET_LENGTH declaredLength;
        m \<leftarrow> wr m PACKET_OFFSET_COMMAND commandId;
        m \<leftarrow> copyPayload m payload payloadLength;
        let crcRegionSize = (of_nat PACKET_LENGTH_SIZE + ucast declaredLength :: size_t);
        (crcSts, crc) \<leftarrow> crc16Compute (Some (drop PACKET_OFFSET_LENGTH m)) crcRegionSize (Some 0);
        if crcSts \<noteq> CRC16_SUCCESS
        then Some (PACKET_BUILDER_ERROR_CRC_FAILURE, Some m, packetLength)
        else do {
          let crcOffset = (of_nat PACKET_OFFSET_LENGTH + crcRegionSize :: size_t);
          crc \<leftarrow> deref crc;
          m \<leftarrow> writeUint16BE m (unat crcOffset) crc;
          Some (PACKET_BUILDER_SUCCESS, Some m, Some totalPacketSize)
        }
      })"

subsection \<open>What a build writes\<close>

text \<open>The payload bytes a call refers to, and the caller's side of the contract.\<close>

definition payload_bytes :: "u8 list ptr \<Rightarrow> u16 \<Rightarrow> u8 list" where
  "payload_bytes payload n = (case payload of None \<Rightarrow> [] | Some src \<Rightarrow> take (unat n) src)"

definition payload_readable :: "u8 list ptr \<Rightarrow> u16 \<Rightarrow> bool" where
  "payload_readable payload n \<longleftrightarrow>
     (case payload of None \<Rightarrow> n = 0 | Some src \<Rightarrow> unat n \<le> length src)"

lemma length_payload_bytes: "payload_readable p n \<Longrightarrow> length (payload_bytes p n) = unat n"
  by (auto simp: payload_readable_def payload_bytes_def split: option.splits)

lemma writeUint16BE_ok:
  "off + 2 \<le> length m \<Longrightarrow>
   writeUint16BE m off v = Some (take off m @ be16 v @ drop (off + 2) m)"
proof -
  assume "off + 2 \<le> length m"
  then have "m[off := x, Suc off := y] = take off m @ [x, y] @ drop (off + 2) m" for x y
    by (intro nth_equalityI) (auto simp: nth_append nth_list_update nth_Cons' min_def
        intro!: arg_cong [where f = "(!) m"])
  with \<open>off + 2 \<le> length m\<close> show ?thesis
    by (simp add: writeUint16BE_def be16_def)
qed

lemma copyPayload_ok:
  assumes "payload_readable p n" "unat n \<le> length rest"
  shows "copyPayload (a # b # c # d # e # rest) p n =
         Some (a # b # c # d # e # payload_bytes p n @ drop (unat n) rest)"
proof (cases "n = 0")
  case True
  then show ?thesis
    by (auto simp: copyPayload_def payload_bytes_def split: option.splits)
next
  case False
  with assms obtain src where "p = Some src" "unat n \<le> length src"
    by (auto simp: payload_readable_def split: option.splits)
  with assms(2) False show ?thesis
    by (simp add: copyPayload_def payload_bytes_def word_gt_0 packet_vals eval_nat_numeral)
qed

lemma split_buffer:
  assumes "7 + n \<le> length m"
  obtains a b c d e rest where "m = a # b # c # d # e # rest" "n + 2 \<le> length rest"
proof -
  from assms have "5 \<le> length m" by simp
  then obtain a b c d e rest where "m = a # b # c # d # e # rest"
    by (auto simp: Suc_le_length_iff eval_nat_numeral)
  with assms that show thesis by simp
qed

lemma u16_sizes:
  assumes "unat (n :: u16) \<le> 255"
  shows "unat (1 + n) = Suc (unat n)"
    and "unat (2 + ucast (1 + n) :: size_t) = unat n + 3"
    and "unat (4 + ucast (1 + n) :: size_t) = unat n + 5"
    and "unat (7 + ucast n :: size_t) = unat n + 7"
proof -
  show 1: "unat (1 + n) = Suc (unat n)"
    using assms by (subst unat_add_noof) auto
  show 2: "unat (2 + ucast (1 + n) :: size_t) = unat n + 3"
    using assms 1 by (subst unat_add_noof) auto
  show "unat (4 + ucast (1 + n) :: size_t) = unat n + 5"
    using assms 1 by (subst unat_add_noof) auto
  show "unat (7 + ucast n :: size_t) = unat n + 7"
    using assms by (subst unat_add_noof) auto
qed

text \<open>The writes of a build, one after the other, when \<open>pl\<close> is the payload copied.\<close>

lemma build_steps:
  assumes len: "length pl = unat n" and n: "unat n \<le> 255" and room: "unat n + 2 \<le> length rest"
  shows "writeUint16BE (0xAA # 0x55 # c # d # e # rest) 2 (1 + n) = Some (0xAA # 0x55 # be16 (1 + n) @ e # rest)"
    and "wr (0xAA # 0x55 # be16 (1 + n) @ e # rest) 4 cmd = Some (0xAA # 0x55 # be16 (1 + n) @ cmd # rest)"
    and "crc16Compute (Some (be16 (1 + n) @ cmd # pl @ drop (unat n) rest)) (2 + ucast (1 + n)) (Some 0) =
      Some (CRC16_SUCCESS, Some (crc16_of (frame_body cmd pl)))"
    and "writeUint16BE (0xAA # 0x55 # be16 (1 + n) @ cmd # pl @ drop (unat n) rest) (unat n + 5)
      (crc16_of (frame_body cmd pl)) = Some (frame cmd pl @ drop (unat n + 2) rest)"
proof -
  let ?tl = "drop (unat n) rest"
  have decl: "1 + n = of_nat (Suc (length pl))"
    by (simp add: len)
  have body: "take (unat n + 3) (be16 (1 + n) @ cmd # pl @ ?tl) = frame_body cmd pl"
    unfolding frame_body_def decl [symmetric] by (simp add: len)
  show "crc16Compute (Some (be16 (1 + n) @ cmd # pl @ ?tl)) (2 + ucast (1 + n)) (Some 0)
      = Some (CRC16_SUCCESS, Some (crc16_of (frame_body cmd pl)))"
    using crc16Compute_ok [of "2 + ucast (1 + n)" "be16 (1 + n) @ cmd # pl @ ?tl" 0] room
    unfolding u16_sizes(2) [OF n] body by (simp add: len)
  show "writeUint16BE (0xAA # 0x55 # c # d # e # rest) 2 (1 + n) = Some (0xAA # 0x55 # be16 (1 + n) @ e # rest)"
    by (subst writeUint16BE_ok) (simp_all add: eval_nat_numeral)
  show "wr (0xAA # 0x55 # be16 (1 + n) @ e # rest) 4 cmd = Some (0xAA # 0x55 # be16 (1 + n) @ cmd # rest)"
    by (simp add: be16_def)
  show "writeUint16BE (0xAA # 0x55 # be16 (1 + n) @ cmd # pl @ ?tl) (unat n + 5)
      (crc16_of (frame_body cmd pl)) = Some (frame cmd pl @ drop (unat n + 2) rest)"
    using room unfolding frame_def frame_body_def decl [symmetric]
    by (subst writeUint16BE_ok) (simp_all add: len eval_nat_numeral)
qed

lemma build_ok:
  assumes "payload_readable p n" "unat n \<le> 255" "unat n + 7 \<le> unat sz" "unat sz \<le> length m"
  shows "packetBuilderBuildPacket cmd p n (Some m) sz (Some old) =
    Some (PACKET_BUILDER_SUCCESS, Some (frame cmd (payload_bytes p n) @ drop (unat n + 7) m),
      Some (7 + ucast n))"
proof -
  let ?pl = "payload_bytes p n"
  obtain a b c d e rest where m: "m = a # b # c # d # e # rest" "unat n + 2 \<le> length rest"
  proof -
    have "7 + unat n \<le> length m" using assms(3,4) by simp
    then show thesis using that by (rule split_buffer)
  qed
  note steps = build_steps [OF length_payload_bytes [OF assms(1)] assms(2) m(2)]
  have pl: "copyPayload (0xAA # 0x55 # be16 (1 + n) @ cmd # rest) p n =
         Some (0xAA # 0x55 # be16 (1 + n) @ cmd # ?pl @ drop (unat n) rest)"
    using m(2) by (simp only: be16_def append_Cons append_Nil, intro copyPayload_ok [OF assms(1)], simp)
  have "drop (unat n + 2) rest = drop (unat n + 7) m"
    by (simp add: m(1) eval_nat_numeral)
  note trail = steps(4) [unfolded this]
  have guards: "\<not> unat n > PACKET_MAX_PAYLOAD_SIZE" "\<not> sz < 7 + ucast n"
      "\<not> (p = None \<and> n > 0)"
    using assms u16_sizes(4) [OF assms(2)]
    by (cases p; auto simp: packet_vals word_less_nat_alt payload_readable_def)+
  show ?thesis
    using guards
    unfolding packetBuilderBuildPacket_def packet_vals
    by (simp add: Let_def m(1))
      (simp add: steps(1-3) pl u16_sizes [OF assms(2)] trail [unfolded m(1)])
qed

text \<open>The status of a build, in the order of the checks.\<close>

definition build_status ::
  "u8 list ptr \<Rightarrow> u16 \<Rightarrow> u8 list ptr \<Rightarrow> size_t \<Rightarrow> size_t ptr \<Rightarrow> PacketBuilderStatus_t" where
  "build_status p n buf sz out =
     (if buf = None \<or> out = None \<or> (p = None \<and> n \<noteq> 0) then PACKET_BUILDER_ERROR_NULL_POINTER
      else if 255 < unat n then PACKET_BUILDER_ERROR_INVALID_LENGTH
      else if unat sz < unat n + 7 then PACKET_BUILDER_ERROR_BUFFER_TOO_SMALL
      else PACKET_BUILDER_SUCCESS)"

lemma build_rejects:
  assumes "build_status p n buf sz out \<noteq> PACKET_BUILDER_SUCCESS"
  shows "packetBuilderBuildPacket cmd p n buf sz out = Some (build_status p n buf sz out, buf, out)"
proof -
  have "sz < 7 + ucast n \<longleftrightarrow> unat sz < unat n + 7" if "unat n \<le> 255"
    using u16_sizes(4) [OF that] by (simp add: word_less_nat_alt)
  with assms show ?thesis
    unfolding packetBuilderBuildPacket_def build_status_def packet_vals Let_def
    by (auto simp: not_less word_gt_0 split: if_splits)
qed

lemma build_accepts:
  assumes "build_status p n (Some m) sz (Some old) = PACKET_BUILDER_SUCCESS"
    and "payload_readable p n" "unat sz \<le> length m"
  shows "packetBuilderBuildPacket cmd p n (Some m) sz (Some old) =
    Some (PACKET_BUILDER_SUCCESS, Some (frame cmd (payload_bytes p n) @ drop (unat n + 7) m),
      Some (7 + ucast n))"
  using assms by (intro build_ok) (auto simp: build_status_def split: if_splits)

subsection \<open>Properties\<close>

text \<open>C23: a build with a readable payload of at most 255 bytes and room for it succeeds: the
  front of the buffer is then exactly the frame of the command and the payload (header,
  big-endian length, command, payload, big-endian CRC-16 of everything from the length on),
  the rest of the buffer is untouched, and the reported length is payload length plus 7.\<close>

theorem build_writes_frame:
  assumes "payload_readable p n" "unat n \<le> 255" "unat n + 7 \<le> unat sz" "unat sz \<le> length m"
  shows "\<exists>k. packetBuilderBuildPacket cmd p n (Some m) sz (Some old) =
      Some (PACKET_BUILDER_SUCCESS, Some (frame cmd (payload_bytes p n) @ drop (unat n + 7) m), Some k) \<and>
    unat k = unat n + 7 \<and> unat k = length (frame cmd (payload_bytes p n))"
  using build_ok [OF assms] u16_sizes(4) [OF assms(2)] length_payload_bytes [OF assms(1)] by simp

theorem build_writes_frame_witness:
  "\<exists>k. packetBuilderBuildPacket 0x10 (Some [1, 2, 3]) 2 (Some (replicate 12 9)) 10 (Some 0) =
      Some (PACKET_BUILDER_SUCCESS, Some (frame 0x10 [1, 2] @ replicate 3 9), Some k) \<and> unat k = 9"
  using build_writes_frame [of "Some [1, 2, 3]" 2 10 "replicate 12 9" "0x10" 0]
  by (simp add: payload_readable_def payload_bytes_def)

text \<open>C26: on memory the caller really owns, a build always returns, with the status that the
  documented order of the checks gives (null pointers, payload too long, buffer too small)
  and never with the CRC failure; whenever it does not succeed, the packet buffer and the
  reported length are exactly as before the call.\<close>

theorem build_outcome:
  assumes "\<forall>src. p = Some src \<longrightarrow> unat n \<le> length src" "\<forall>m. buf = Some m \<longrightarrow> unat sz \<le> length m"
  shows "\<exists>buf' out'. packetBuilderBuildPacket cmd p n buf sz out = Some (build_status p n buf sz out, buf', out') \<and>
    (build_status p n buf sz out \<noteq> PACKET_BUILDER_SUCCESS \<longrightarrow> buf' = buf \<and> out' = out)"
proof (cases "build_status p n buf sz out = PACKET_BUILDER_SUCCESS")
  case True
  then obtain m old where "buf = Some m" "out = Some old" "payload_readable p n"
    using assms(1) by (auto simp: build_status_def payload_readable_def split: if_splits option.splits)
  with True build_accepts [of p n m sz old cmd] assms(2) show ?thesis by simp
next
  case False
  with build_rejects [OF False, of cmd] show ?thesis by simp
qed

theorem build_outcome_witness:
  "\<exists>buf' out'. packetBuilderBuildPacket 1 (Some [1, 2]) 2 (Some (replicate 9 0)) 8 (Some 77) =
     Some (PACKET_BUILDER_ERROR_BUFFER_TOO_SMALL, buf', out') \<and> buf' = Some (replicate 9 0) \<and> out' = Some 77"
  using build_outcome [of "Some [1, 2]" 2 "Some (replicate 9 0)" 8 1 "Some 77"]
  by (simp add: build_status_def)

end
