(* ===== verification/Fifo.thy ===== *)
theory Fifo
  imports Prelude
begin

text \<open>
  The contract of a bounded first-in-first-out queue, as an interface.  A client sees two
  operations, an abstraction to the list of stored elements (oldest first), a bound and an
  invariant.  Inside the locale the laws are lifted to whole sequences of operations: a
  provider answers every sequence as a bounded list does.
\<close>

datatype 'e qop = Enq 'e | Deq
datatype 'e qout = Accepted | Refused | Got 'e | Nothing

fun list_step :: "nat \<Rightarrow> 'e list \<Rightarrow> 'e qop \<Rightarrow> 'e qout \<times> 'e list" where
  "list_step n xs (Enq x) = (if length xs < n then (Accepted, xs @ [x]) else (Refused, xs))"
| "list_step n [] Deq = (Nothing, [])"
| "list_step n (x # xs) Deq = (Got x, xs)"

fun list_run :: "nat \<Rightarrow> 'e list \<Rightarrow> 'e qop list \<Rightarrow> 'e qout list \<times> 'e list" where
  "list_run n xs [] = ([], xs)"
| "list_run n xs (op # ops) =
     (let (out, ys) = list_step n xs op; (outs, zs) = list_run n ys ops in (out # outs, zs))"

text \<open>The same sequences on a provider; \<open>None\<close> is undefined behaviour.\<close>

fun queue_run ::
  "('q \<Rightarrow> 'e \<Rightarrow> ('e qout \<times> 'q) run) \<Rightarrow> ('q \<Rightarrow> ('e qout \<times> 'q) run) \<Rightarrow>
   'q \<Rightarrow> 'e qop list \<Rightarrow> ('e qout list \<times> 'q) run" where
  "queue_run enq deq q [] = Some ([], q)"
| "queue_run enq deq q (op # ops) =
     do {
       (out, q') \<leftarrow> (case op of Enq x \<Rightarrow> enq q x | Deq \<Rightarrow> deq q);
       (outs, q'') \<leftarrow> queue_run enq deq q' ops;
       Some (out # outs, q'')
     }"

locale bounded_fifo =
  fixes enq :: "'q \<Rightarrow> 'e \<Rightarrow> ('e qout \<times> 'q) run"
    and deq :: "'q \<Rightarrow> ('e qout \<times> 'q) run"
    and contents :: "'q \<Rightarrow> 'e list"
    and bound :: "'q \<Rightarrow> nat"
    and inv :: "'q \<Rightarrow> bool"
    and fits :: "'q \<Rightarrow> 'e \<Rightarrow> bool"
  assumes enq_room: "inv q \<Longrightarrow> fits q x \<Longrightarrow> length (contents q) < bound q \<Longrightarrow>
      \<exists>q'. enq q x = Some (Accepted, q') \<and> inv q' \<and> contents q' = contents q @ [x] \<and>
           bound q' = bound q \<and> fits q' = fits q"
    and enq_full: "inv q \<Longrightarrow> fits q x \<Longrightarrow> bound q \<le> length (contents q) \<Longrightarrow>
      enq q x = Some (Refused, q)"
    and deq_Nil: "inv q \<Longrightarrow> contents q = [] \<Longrightarrow> deq q = Some (Nothing, q)"
    and deq_Cons: "inv q \<Longrightarrow> contents q = x # xs \<Longrightarrow>
      \<exists>q'. deq q = Some (Got x, q') \<and> inv q' \<and> contents q' = xs \<and>
           bound q' = bound q \<and> fits q' = fits q"
begin

lemma step_refines:
  assumes "inv q" "\<And>x. op = Enq x \<Longrightarrow> fits q x"
  obtains q' where
    "(case op of Enq x \<Rightarrow> enq q x | Deq \<Rightarrow> deq q) = Some (fst (list_step (bound q) (contents q) op), q')"
    "contents q' = snd (list_step (bound q) (contents q) op)"
    "inv q'" "bound q' = bound q" "fits q' = fits q"
proof (cases op)
  case (Enq x)
  show thesis
  proof (cases "length (contents q) < bound q")
    case True
    from enq_room [OF assms(1) assms(2) [OF Enq] this] that Enq True show thesis by auto
  next
    case False
    with enq_full [OF assms(1) assms(2) [OF Enq]] that [of q] Enq assms(1) show thesis by auto
  qed
next
  case Deq
  show thesis
  proof (cases "contents q")
    case Nil
    with deq_Nil [OF assms(1)] that [of q] Deq assms(1) show thesis by auto
  next
    case (Cons x xs)
    from deq_Cons [OF assms(1) this] that Deq Cons show thesis by auto
  qed
qed

theorem run_refines:
  assumes "inv q" "\<And>x. Enq x \<in> set ops \<Longrightarrow> fits q x"
  shows "\<exists>q'. queue_run enq deq q ops = Some (fst (list_run (bound q) (contents q) ops), q') \<and>
      contents q' = snd (list_run (bound q) (contents q) ops) \<and>
      inv q' \<and> bound q' = bound q \<and> fits q' = fits q"
  using assms
proof (induction ops arbitrary: q)
  case Nil
  then show ?case by simp
next
  case (Cons op ops)
  obtain q' where q':
    "(case op of Enq x \<Rightarrow> enq q x | Deq \<Rightarrow> deq q) = Some (fst (list_step (bound q) (contents q) op), q')"
    "contents q' = snd (list_step (bound q) (contents q) op)"
    "inv q'" "bound q' = bound q" "fits q' = fits q"
    using step_refines [of q op] Cons.prems by auto
  from Cons.IH [OF q'(3)] Cons.prems(2) q' show ?case
    by (fastforce simp: case_prod_unfold Let_def)
qed

end

lemma list_run_bound:
  "length xs \<le> n \<Longrightarrow> length (snd (list_run n xs ops)) \<le> n"
proof (induction ops arbitrary: xs)
  case Nil
  then show ?case by simp
next
  case (Cons op ops)
  have "length (snd (list_step n xs op)) \<le> n"
    using Cons.prems by (cases "(n, xs, op)" rule: list_step.cases) auto
  from Cons.IH [OF this] show ?case
    by (simp add: case_prod_unfold Let_def)
qed

text \<open>What goes in comes out in order: accepted elements are delivered or still stored.\<close>

fun accepted :: "'e qop list \<Rightarrow> 'e qout list \<Rightarrow> 'e list" where
  "accepted (Enq x # ops) (Accepted # outs) = x # accepted ops outs"
| "accepted (op # ops) (out # outs) = accepted ops outs"
| "accepted _ _ = []"

fun delivered :: "'e qout list \<Rightarrow> 'e list" where
  "delivered (Got x # outs) = x # delivered outs"
| "delivered (out # outs) = delivered outs"
| "delivered [] = []"

lemma list_run_conserves:
  "xs @ accepted ops (fst (list_run n xs ops)) =
   delivered (fst (list_run n xs ops)) @ snd (list_run n xs ops)"
proof (induction ops arbitrary: xs)
  case Nil
  then show ?case by simp
next
  case (Cons op ops)
  show ?case
  proof (cases "(n, xs, op)" rule: list_step.cases)
    case (1 n' xs' x)
    with Cons.IH [of "xs @ [x]"] Cons.IH [of xs] show ?thesis
      by (auto simp: case_prod_unfold Let_def)
  next
    case (2 n')
    with Cons.IH [of "[]"] show ?thesis
      by (auto simp: case_prod_unfold Let_def)
  next
    case (3 n' x xs')
    with Cons.IH [of xs'] show ?thesis
      by (auto simp: case_prod_unfold Let_def)
  qed
qed

text \<open>Enough removals empty the queue.\<close>

lemma list_run_drain: "length xs \<le> k \<Longrightarrow> snd (list_run n xs (replicate k Deq)) = []"
proof (induction k arbitrary: xs)
  case 0
  then show ?case by simp
next
  case (Suc k)
  then show ?case by (cases xs) (simp_all add: case_prod_unfold Let_def)
qed

text \<open>No insertion is refused while there is room for all, no removal fails while there are elements for all.\<close>

lemma list_run_no_refusal:
  "length xs + length (filter (\<lambda>op. op \<noteq> Deq) ops) \<le> n \<Longrightarrow> Refused \<notin> set (fst (list_run n xs ops))"
proof (induction ops arbitrary: xs)
  case (Cons op ops)
  show ?case
  proof (cases "(n, xs, op)" rule: list_step.cases)
    case (1 n' xs' x)
    with Cons.IH [of "xs @ [x]"] Cons.prems show ?thesis by (simp add: case_prod_unfold Let_def)
  next
    case (2 n')
    with Cons.IH [of "[]"] Cons.prems show ?thesis by (simp add: case_prod_unfold Let_def)
  next
    case (3 n' x xs')
    with Cons.IH [of xs'] Cons.prems show ?thesis by (simp add: case_prod_unfold Let_def)
  qed
qed simp

lemma list_run_no_lack:
  "length (filter (\<lambda>op. op = Deq) ops) \<le> length xs \<Longrightarrow> Nothing \<notin> set (fst (list_run n xs ops))"
proof (induction ops arbitrary: xs)
  case (Cons op ops)
  show ?case
  proof (cases "(n, xs, op)" rule: list_step.cases)
    case (1 n' xs' x)
    with Cons.IH [of "xs @ [x]"] Cons.IH [of xs] Cons.prems show ?thesis by (simp add: case_prod_unfold Let_def)
  next
    case (2 n')
    with Cons.prems show ?thesis by simp
  next
    case (3 n' x xs')
    with Cons.IH [of xs'] Cons.prems show ?thesis by (simp add: case_prod_unfold Let_def)
  qed
qed simp

end
