(* ===== verification/RingBuffer.thy ===== *)
theory RingBuffer
  imports Fifo
begin

text \<open>
  The ring buffer (\<open>include/ringBuffer.h\<close>, \<open>src/ringBuffer.c\<close>): elements of a fixed byte
  size in caller-owned storage, one slot kept free.  Index arithmetic is that of \<open>size_t\<close>,
  storage accesses are bounds-checked, and a remainder by a zero capacity is undefined.  The
  interface locale \<open>bounded_fifo\<close> states what a bounded queue of elements promises; the
  ring buffer provides it through the abstraction \<open>rb_contents\<close>, the stored elements from
  oldest to newest.
\<close>

record RingBuffer_t =
  buffer :: "u8 list ptr"
  head :: size_t
  tail :: size_t
  capacity :: size_t
  elementSize :: size_t

datatype RingBufferStatus_t =
    RING_BUFFER_SUCCESS
  | RING_BUFFER_ERROR_NULL_POINTER
  | RING_BUFFER_ERROR_INVALID_CAPACITY
  | RING_BUFFER_ERROR_INVALID_ELEMENT_SIZE
  | RING_BUFFER_ERROR_FULL
  | RING_BUFFER_ERROR_EMPTY

text \<open>\<open>ringBuffer == NULL || ringBuffer->buffer == NULL\<close>\<close>

definition no_buffer :: "RingBuffer_t ptr \<Rightarrow> bool" where
  "no_buffer ringBuffer = (case ringBuffer of None \<Rightarrow> True | Some rb \<Rightarrow> buffer rb = None)"

definition ringBufferNextIndex :: "size_t \<Rightarrow> size_t \<Rightarrow> size_t run" where
  "ringBufferNextIndex index cap = c_mod (index + 1) cap"

definition ringBufferInit ::
  "RingBuffer_t ptr \<Rightarrow> u8 list ptr \<Rightarrow> size_t \<Rightarrow> size_t \<Rightarrow> (RingBufferStatus_t \<times> RingBuffer_t ptr) run" where
  "ringBufferInit ringBuffer buf cap elemSize =
     (if ringBuffer = None \<or> buf = None then Some (RING_BUFFER_ERROR_NULL_POINTER, ringBuffer)
      else if cap < 2 then Some (RING_BUFFER_ERROR_INVALID_CAPACITY, ringBuffer)
      else if elemSize < 1 then Some (RING_BUFFER_ERROR_INVALID_ELEMENT_SIZE, ringBuffer)
      else do {
        rb \<leftarrow> deref ringBuffer;
        Some (RING_BUFFER_SUCCESS,
          Some (rb\<lparr>buffer := buf, capacity := cap, elementSize := elemSize, head := 0, tail := 0\<rparr>))
      })"

definition ringBufferIsFull :: "RingBuffer_t ptr \<Rightarrow> bool run" where
  "ringBufferIsFull ringBuffer =
     (if no_buffer ringBuffer then Some False
      else do {
        rb \<leftarrow> deref ringBuffer;
        nextHead \<leftarrow> ringBufferNextIndex (head rb) (capacity rb);
        Some (nextHead = tail rb)
      })"

definition ringBufferIsEmpty :: "RingBuffer_t ptr \<Rightarrow> bool run" where
  "ringBufferIsEmpty ringBuffer =
     (if no_buffer ringBuffer then Some True
      else do { rb \<leftarrow> deref ringBuffer; Some (head rb = tail rb) })"

definition ringBufferPush ::
  "RingBuffer_t ptr \<Rightarrow> u8 list ptr \<Rightarrow> (RingBufferStatus_t \<times> RingBuffer_t ptr) run" where
  "ringBufferPush ringBuffer data =
     (if no_buffer ringBuffer \<or> data = None then Some (RING_BUFFER_ERROR_NULL_POINTER, ringBuffer)
      else do {
        full \<leftarrow> ringBufferIsFull ringBuffer;
        if full then Some (RING_BUFFER_ERROR_FULL, ringBuffer)
        else do {
          rb \<leftarrow> deref ringBuffer;
          m \<leftarrow> deref (buffer rb);
          src \<leftarrow> deref data;
          bytes \<leftarrow> rd_block src 0 (unat (elementSize rb));
          m' \<leftarrow> wr_block m (unat (head rb * elementSize rb)) bytes;
          nextHead \<leftarrow> ringBufferNextIndex (head rb) (capacity rb);
          Some (RING_BUFFER_SUCCESS, Some (rb\<lparr>buffer := Some m', head := nextHead\<rparr>))
        }
      })"

text \<open>\<open>data\<close> is the destination object of a pop or a peek; its first bytes are overwritten.\<close>

definition ringBufferPop ::
  "RingBuffer_t ptr \<Rightarrow> u8 list ptr \<Rightarrow> (RingBufferStatus_t \<times> RingBuffer_t ptr \<times> u8 list ptr) run" where
  "ringBufferPop ringBuffer data =
     (if no_buffer ringBuffer \<or> data = None
      then Some (RING_BUFFER_ERROR_NULL_POINTER, ringBuffer, data)
      else do {
        isEmpty \<leftarrow> ringBufferIsEmpty ringBuffer;
        if isEmpty then Some (RING_BUFFER_ERROR_EMPTY, ringBuffer, data)
        else do {
          rb \<leftarrow> deref ringBuffer;
          m \<leftarrow> deref (buffer rb);
          dest \<leftarrow> deref data;
          bytes \<leftarrow> rd_block m (unat (tail rb * elementSize rb)) (unat (elementSize rb));
          dest' \<leftarrow> wr_block dest 0 bytes;
          nextTail \<leftarrow> ringBufferNextIndex (tail rb) (capacity rb);
          Some (RING_BUFFER_SUCCESS, Some (rb\<lparr>tail := nextTail\<rparr>), Some dest')
        }
      })"

definition ringBufferPeek ::
  "RingBuffer_t ptr \<Rightarrow> u8 list ptr \<Rightarrow> (RingBufferStatus_t \<times> u8 list ptr) run" where
  "ringBufferPeek ringBuffer data =
     (if no_buffer ringBuffer \<or> data = None then Some (RING_BUFFER_ERROR_NULL_POINTER, data)
      else do {
        isEmpty \<leftarrow> ringBufferIsEmpty ringBuffer;
        if isEmpty then Some (RING_BUFFER_ERROR_EMPTY, data)
        else do {
          rb \<leftarrow> deref ringBuffer;
          m \<leftarrow> deref (buffer rb);
          dest \<leftarrow> deref data;
          bytes \<leftarrow> rd_block m (unat (tail rb * elementSize rb)) (unat (elementSize rb));
          dest' \<leftarrow> wr_block dest 0 bytes;
          Some (RING_BUFFER_SUCCESS, Some dest')
        }
      })"

definition ringBufferClear :: "RingBuffer_t ptr \<Rightarrow> (RingBufferStatus_t \<times> RingBuffer_t ptr) run" where
  "ringBufferClear ringBuffer =
     (if no_buffer ringBuffer then Some (RING_BUFFER_ERROR_NULL_POINTER, ringBuffer)
      else do {
        rb \<leftarrow> deref ringBuffer;
        Some (RING_BUFFER_SUCCESS, Some (rb\<lparr>head := 0, tail := 0\<rparr>))
      })"

definition ringBufferGetSize ::
  "RingBuffer_t ptr \<Rightarrow> size_t ptr \<Rightarrow> (RingBufferStatus_t \<times> size_t ptr) run" where
  "ringBufferGetSize ringBuffer out =
     (if no_buffer ringBuffer \<or> out = None then Some (RING_BUFFER_ERROR_NULL_POINTER, out)
      else do {
        rb \<leftarrow> deref ringBuffer;
        Some (RING_BUFFER_SUCCESS,
          Some (if head rb \<ge> tail rb then head rb - tail rb
                else capacity rb - (tail rb - head rb)))
      })"

definition ringBufferGetCapacity ::
  "RingBuffer_t ptr \<Rightarrow> size_t ptr \<Rightarrow> (RingBufferStatus_t \<times> size_t ptr) run" where
  "ringBufferGetCapacity ringBuffer out =
     (if no_buffer ringBuffer \<or> out = None then Some (RING_BUFFER_ERROR_NULL_POINTER, out)
      else do { rb \<leftarrow> deref ringBuffer; Some (RING_BUFFER_SUCCESS, Some (capacity rb - 1)) })"

text \<open>The one query that does not look at the \<open>buffer\<close> pointer.\<close>

definition ringBufferGetAvailableSpace ::
  "RingBuffer_t ptr \<Rightarrow> size_t ptr \<Rightarrow> (RingBufferStatus_t \<times> size_t ptr) run" where
  "ringBufferGetAvailableSpace ringBuffer availableSpace =
     (if ringBuffer = None \<or> availableSpace = None
      then Some (RING_BUFFER_ERROR_NULL_POINTER, availableSpace)
      else do {
        rb \<leftarrow> deref ringBuffer;
        n \<leftarrow> c_mod ((tail rb - head rb - 1) + capacity rb) (capacity rb);
        Some (RING_BUFFER_SUCCESS, Some n)
      })"

subsection \<open>Ring arithmetic\<close>

definition ring_size :: "nat \<Rightarrow> nat \<Rightarrow> nat \<Rightarrow> nat" where
  "ring_size h t c = (if t \<le> h then h - t else c - (t - h))"

lemma ring_size_bounds:
  "h < c \<Longrightarrow> t < c \<Longrightarrow> ring_size h t c \<le> c - 1"
  by (auto simp: ring_size_def)

lemma ring_next: "i < c \<Longrightarrow> Suc i mod c = (if Suc i = c then 0 else Suc i)"
  by auto

lemma ring_full: "h < c \<Longrightarrow> t < c \<Longrightarrow> Suc h mod c = t \<longleftrightarrow> ring_size h t c = c - 1"
  by (auto simp: ring_size_def ring_next)

lemma ring_empty: "h < c \<Longrightarrow> t < c \<Longrightarrow> h = t \<longleftrightarrow> ring_size h t c = 0"
  by (auto simp: ring_size_def)

lemma ring_push:
  "h < c \<Longrightarrow> t < c \<Longrightarrow> Suc h mod c \<noteq> t \<Longrightarrow> ring_size (Suc h mod c) t c = Suc (ring_size h t c)"
  by (auto simp: ring_size_def ring_next)

lemma ring_pop:
  "h < c \<Longrightarrow> t < c \<Longrightarrow> h \<noteq> t \<Longrightarrow> ring_size h t c = Suc (ring_size h (Suc t mod c) c)"
  by (auto simp: ring_size_def ring_next)

lemma mod_below_double: "x < 2 * c \<Longrightarrow> x mod c = (if x < c then x else x - c)" for c :: nat
  by (simp add: le_mod_geq)

lemma ring_head: "h < c \<Longrightarrow> t < c \<Longrightarrow> (t + ring_size h t c) mod c = h"
  by (auto simp: ring_size_def)

lemma ring_index_ne:
  assumes "h < c" "t < c" "k < ring_size h t c"
  shows "(t + k) mod c \<noteq> h"
proof -
  have "t + k < 2 * c"
    using assms ring_size_bounds [of h c t] by linarith
  then show ?thesis
    using assms by (auto simp: ring_size_def mod_below_double split: if_splits)
qed

subsection \<open>The invariant and the stored elements\<close>

definition rb_inv :: "RingBuffer_t \<Rightarrow> bool" where
  "rb_inv rb \<longleftrightarrow>
     2 \<le> unat (capacity rb) \<and> 1 \<le> unat (elementSize rb) \<and>
     unat (head rb) < unat (capacity rb) \<and> unat (tail rb) < unat (capacity rb) \<and>
     (case buffer rb of None \<Rightarrow> False
      | Some m \<Rightarrow> unat (capacity rb) * unat (elementSize rb) \<le> length m \<and> length m < size_limit)"

definition slot :: "u8 list \<Rightarrow> nat \<Rightarrow> nat \<Rightarrow> u8 list" where
  "slot m es i = take es (drop (i * es) m)"

definition rb_size :: "RingBuffer_t \<Rightarrow> nat" where
  "rb_size rb = ring_size (unat (head rb)) (unat (tail rb)) (unat (capacity rb))"

definition rb_contents :: "RingBuffer_t \<Rightarrow> u8 list list" where
  "rb_contents rb =
     map (\<lambda>k. slot (the (buffer rb)) (unat (elementSize rb)) ((unat (tail rb) + k) mod unat (capacity rb)))
       [0 ..< rb_size rb]"

lemma length_rb_contents [simp]: "length (rb_contents rb) = rb_size rb"
  by (simp add: rb_contents_def)

lemma slot_bounds:
  assumes "i < c" "c * es \<le> length m"
  shows "i * es + es \<le> length m"
proof -
  have "Suc i * es \<le> c * es"
    using assms(1) by (intro mult_le_mono1) simp
  with assms(2) show ?thesis by simp
qed

lemma slot_write:
  assumes "i < c" "j < c" "c * es \<le> length m" "length bs = es"
  shows "slot (take (j * es) m @ bs @ drop (j * es + es) m) es i = (if i = j then bs else slot m es i)"
proof -
  have j: "j * es + es \<le> length m"
    using assms(2,3) by (rule slot_bounds)
  consider "i = j" | "i < j" | "j < i" by linarith
  then show ?thesis
  proof cases
    case 1
    then show ?thesis using j assms(4) by (simp add: slot_def)
  next
    case 2
    then have "Suc i * es \<le> j * es" by (intro mult_le_mono1) simp
    then have "es \<le> j * es - i * es" by simp
    then show ?thesis using 2 j by (simp add: slot_def drop_take min_absorb1)
  next
    case 3
    then have "Suc j * es \<le> i * es" by (intro mult_le_mono1) simp
    then show ?thesis using 3 j assms(4) by (simp add: slot_def min_def)
  qed
qed

lemma rb_invE:
  assumes "rb_inv rb"
  obtains m where "buffer rb = Some m" "unat (capacity rb) * unat (elementSize rb) \<le> length m"
    "length m < size_limit" "2 \<le> unat (capacity rb)" "1 \<le> unat (elementSize rb)"
    "unat (head rb) < unat (capacity rb)" "unat (tail rb) < unat (capacity rb)"
    "\<not> no_buffer (Some rb)"
  using assms by (auto simp: rb_inv_def no_buffer_def split: option.splits)

lemma next_index:
  "unat i < unat (c :: size_t) \<Longrightarrow>
   ringBufferNextIndex i c = Some ((i + 1) mod c) \<and> unat ((i + 1) mod c) = Suc (unat i) mod unat c"
proof -
  assume i: "unat i < unat c"
  then have "c \<noteq> 0" by auto
  with unat_Suc_noof [OF i] show ?thesis
    by (simp add: ringBufferNextIndex_def unat_mod)
qed

lemma slot_offset:
  fixes i es c :: size_t
  assumes "unat i < unat c" "unat c * unat es \<le> n" "n < size_limit"
  shows "unat (i * es) = unat i * unat es" "unat i * unat es + unat es \<le> n"
proof -
  show le: "unat i * unat es + unat es \<le> n"
    using slot_bounds [of "unat i" "unat c" "unat es" "replicate n ()"] assms by simp
  show "unat (i * es) = unat i * unat es"
    using le assms(3) by (subst unat_mult_noof) auto
qed

lemma isFull_iff:
  "rb_inv rb \<Longrightarrow> ringBufferIsFull (Some rb) = Some (rb_size rb = unat (capacity rb) - 1)"
proof -
  assume "rb_inv rb"
  then obtain m where m: "unat (head rb) < unat (capacity rb)" "unat (tail rb) < unat (capacity rb)"
      "\<not> no_buffer (Some rb)"
    by (rule rb_invE)
  with next_index [OF m(1)] ring_full [OF m(1,2)] show ?thesis
    by (simp add: ringBufferIsFull_def rb_size_def word_unat_eq_iff)
qed

lemma isEmpty_iff: "rb_inv rb \<Longrightarrow> ringBufferIsEmpty (Some rb) = Some (rb_contents rb = [])"
proof -
  assume "rb_inv rb"
  then obtain m where m: "unat (head rb) < unat (capacity rb)" "unat (tail rb) < unat (capacity rb)"
      "\<not> no_buffer (Some rb)"
    by (rule rb_invE)
  have "rb_contents rb = [] \<longleftrightarrow> rb_size rb = 0"
    by (simp add: rb_contents_def)
  with m show ?thesis
    by (simp add: ringBufferIsEmpty_def rb_size_def word_unat_eq_iff flip: ring_empty)
qed

lemma rb_size_less: "rb_inv rb \<Longrightarrow> rb_size rb \<le> unat (capacity rb) - 1"
  unfolding rb_size_def by (erule rb_invE) (rule ring_size_bounds)

lemma push_full:
  "rb_inv rb \<Longrightarrow> rb_size rb = unat (capacity rb) - 1 \<Longrightarrow>
   ringBufferPush (Some rb) (Some d) = Some (RING_BUFFER_ERROR_FULL, Some rb)"
  by (auto elim!: rb_invE simp: ringBufferPush_def isFull_iff)

text \<open>
  While there is room, the slot at the head is free: its bytes are no part of the contents,
  and moving the head on adds it to them.
\<close>

lemma contents_free_slot:
  assumes inv: "rb_inv rb" and room: "rb_size rb < unat (capacity rb) - 1"
    and m: "buffer rb = Some m" "length m' = length m"
    and slots: "\<And>i. i < unat (capacity rb) \<Longrightarrow> i \<noteq> unat (head rb) \<Longrightarrow>
      slot m' (unat (elementSize rb)) i = slot m (unat (elementSize rb)) i"
  shows "rb_inv (rb\<lparr>buffer := Some m'\<rparr>)" "rb_contents (rb\<lparr>buffer := Some m'\<rparr>) = rb_contents rb"
proof -
  obtain x where c: "unat (head rb) < unat (capacity rb)" "unat (tail rb) < unat (capacity rb)"
    using inv by (rule rb_invE)
  have "slot m' (unat (elementSize rb)) ((unat (tail rb) + k) mod unat (capacity rb)) =
      slot m (unat (elementSize rb)) ((unat (tail rb) + k) mod unat (capacity rb))" if "k < rb_size rb" for k
    using slots [of "(unat (tail rb) + k) mod unat (capacity rb)"] c ring_index_ne [OF c, of k] that
    by (simp add: rb_size_def)
  then show "rb_contents (rb\<lparr>buffer := Some m'\<rparr>) = rb_contents rb"
    by (simp add: rb_contents_def m(1) rb_size_def)
  show "rb_inv (rb\<lparr>buffer := Some m'\<rparr>)"
    using inv m by (simp add: rb_inv_def)
qed

lemma contents_snoc:
  assumes inv: "rb_inv rb" and room: "rb_size rb < unat (capacity rb) - 1"
  shows "rb_inv (rb\<lparr>head := (head rb + 1) mod capacity rb\<rparr>)"
    and "rb_contents (rb\<lparr>head := (head rb + 1) mod capacity rb\<rparr>) =
      rb_contents rb @ [slot (the (buffer rb)) (unat (elementSize rb)) (unat (head rb))]"
proof -
  let ?rb = "rb\<lparr>head := (head rb + 1) mod capacity rb\<rparr>"
  let ?h = "unat (head rb)" and ?t = "unat (tail rb)" and ?c = "unat (capacity rb)"
  obtain m where m: "buffer rb = Some m" "?h < ?c" "?t < ?c"
    using inv by (rule rb_invE)
  have nh: "unat ((head rb + 1) mod capacity rb) = Suc ?h mod ?c"
    using next_index [OF m(2)] by auto
  have "Suc ?h mod ?c \<noteq> ?t"
    using room ring_full [OF m(2,3)] by (simp add: rb_size_def)
  then have size: "rb_size ?rb = Suc (rb_size rb)"
    using ring_push [OF m(2,3)] by (simp add: rb_size_def nh)
  have "(?t + rb_size rb) mod ?c = ?h"
    using ring_head [OF m(2,3)] by (simp add: rb_size_def)
  then show "rb_contents ?rb = rb_contents rb @ [slot (the (buffer rb)) (unat (elementSize rb)) ?h]"
    unfolding rb_contents_def size by simp
  show "rb_inv ?rb"
    using inv m nh by (simp add: rb_inv_def)
qed

text \<open>A push into a buffer with room appends the element's bytes.\<close>

lemma push_ok:
  assumes inv: "rb_inv rb" and room: "rb_size rb < unat (capacity rb) - 1"
    and d: "unat (elementSize rb) \<le> length d"
  obtains rb' where "ringBufferPush (Some rb) (Some d) = Some (RING_BUFFER_SUCCESS, Some rb')"
    "rb_inv rb'" "rb_contents rb' = rb_contents rb @ [take (unat (elementSize rb)) d]"
    "capacity rb' = capacity rb" "elementSize rb' = elementSize rb"
proof -
  let ?es = "unat (elementSize rb)" and ?c = "unat (capacity rb)" and ?h = "unat (head rb)"
  obtain m where m: "buffer rb = Some m" "?c * ?es \<le> length m" "length m < size_limit" "?h < ?c"
      "\<not> no_buffer (Some rb)"
    using inv by (rule rb_invE)
  note off = slot_offset [OF m(4,2,3)]
  define m' where "m' = take (?h * ?es) m @ take ?es d @ drop (?h * ?es + ?es) m"
  define rb1 where "rb1 = rb\<lparr>buffer := Some m'\<rparr>"
  have len: "length m' = length m"
    using off(2) d by (simp add: m'_def)
  have slots: "slot m' ?es i = (if i = ?h then take ?es d else slot m ?es i)" if "i < ?c" for i
    using slot_write [OF that m(4,2), of "take ?es d"] d by (simp add: m'_def)
  have rb1: "rb_inv rb1" "rb_contents rb1 = rb_contents rb" "rb_size rb1 < unat (capacity rb1) - 1"
    using contents_free_slot [OF inv room m(1) len slots [THEN trans]] room by (simp_all add: rb1_def rb_size_def)
  show thesis
  proof (rule that [of "rb1\<lparr>head := (head rb1 + 1) mod capacity rb1\<rparr>"])
    show "ringBufferPush (Some rb) (Some d) =
        Some (RING_BUFFER_SUCCESS, Some (rb1\<lparr>head := (head rb1 + 1) mod capacity rb1\<rparr>))"
      using m(5) room d off next_index [OF m(4)]
      by (simp add: ringBufferPush_def isFull_iff [OF inv] m(1) rb1_def m'_def)
  qed (use contents_snoc [OF rb1(1,3)] rb1(2) slots [OF m(4)] in \<open>simp_all add: rb1_def\<close>)
qed

lemma pop_empty:
  "rb_inv rb \<Longrightarrow> rb_contents rb = [] \<Longrightarrow>
   ringBufferPop (Some rb) (Some d) = Some (RING_BUFFER_ERROR_EMPTY, Some rb, Some d)"
  by (auto elim!: rb_invE simp: ringBufferPop_def isEmpty_iff)

lemma peek_empty:
  "rb_inv rb \<Longrightarrow> rb_contents rb = [] \<Longrightarrow>
   ringBufferPeek (Some rb) (Some d) = Some (RING_BUFFER_ERROR_EMPTY, Some d)"
  by (auto elim!: rb_invE simp: ringBufferPeek_def isEmpty_iff)

lemma contents_Cons:
  assumes "rb_inv rb" "rb_contents rb = x # xs"
  shows "x = slot (the (buffer rb)) (unat (elementSize rb)) (unat (tail rb))"
    and "head rb \<noteq> tail rb"
    and "rb_contents (rb\<lparr>tail := (tail rb + 1) mod capacity rb\<rparr>) = xs"
    and "rb_inv (rb\<lparr>tail := (tail rb + 1) mod capacity rb\<rparr>)"
proof -
  let ?es = "unat (elementSize rb)" and ?c = "unat (capacity rb)"
  let ?h = "unat (head rb)" and ?t = "unat (tail rb)" and ?m = "the (buffer rb)"
  let ?rb = "rb\<lparr>tail := (tail rb + 1) mod capacity rb\<rparr>"
  obtain m where m: "buffer rb = Some m" "2 \<le> ?c" "?h < ?c" "?t < ?c"
    using assms(1) by (rule rb_invE)
  have nt: "unat ((tail rb + 1) mod capacity rb) = Suc ?t mod ?c"
    using next_index [OF m(4)] by auto
  have "rb_size rb \<noteq> 0"
    using assms(2) length_rb_contents [of rb] by auto
  then have ne: "?h \<noteq> ?t"
    using ring_empty [OF m(3,4)] by (simp add: rb_size_def)
  then show "head rb \<noteq> tail rb" by auto
  have size: "rb_size rb = Suc (rb_size ?rb)"
    using ring_pop [OF m(3,4) ne] by (simp add: rb_size_def nt)
  have "rb_contents rb = slot ?m ?es (?t mod ?c) #
      map (\<lambda>k. slot ?m ?es ((?t + Suc k) mod ?c)) [0 ..< rb_size ?rb]"
    unfolding rb_contents_def size by (simp add: upt_conv_Cons map_Suc_upt [symmetric] del: upt_Suc)
  moreover have "(?t + Suc k) mod ?c = (Suc ?t mod ?c + k) mod ?c" for k
    by (simp add: mod_add_left_eq)
  ultimately show "x = slot ?m ?es ?t" "rb_contents ?rb = xs"
    using assms(2) m(4) by (simp_all add: rb_contents_def nt)
  show "rb_inv ?rb"
    using assms(1) m nt by (simp add: rb_inv_def)
qed

text \<open>A pop delivers the oldest element and drops it; a peek only delivers it.\<close>

lemma pop_ok:
  assumes inv: "rb_inv rb" and ne: "rb_contents rb = x # xs"
    and d: "unat (elementSize rb) \<le> length d"
  obtains rb' where "ringBufferPop (Some rb) (Some d) =
      Some (RING_BUFFER_SUCCESS, Some rb', Some (x @ drop (unat (elementSize rb)) d))"
    "ringBufferPeek (Some rb) (Some d) = Some (RING_BUFFER_SUCCESS, Some (x @ drop (unat (elementSize rb)) d))"
    "rb_inv rb'" "rb_contents rb' = xs" "capacity rb' = capacity rb" "elementSize rb' = elementSize rb"
proof -
  let ?es = "unat (elementSize rb)" and ?c = "unat (capacity rb)" and ?t = "unat (tail rb)"
  obtain m where m: "buffer rb = Some m" "?c * ?es \<le> length m" "length m < size_limit" "?t < ?c"
      "\<not> no_buffer (Some rb)"
    using inv by (rule rb_invE)
  note off = slot_offset [OF m(4,2,3)]
  have x: "x = take ?es (drop (?t * ?es) m)" "length x = ?es"
    using contents_Cons(1) [OF inv ne] off(2) by (simp_all add: m(1) slot_def)
  show thesis
  proof (rule that [of "rb\<lparr>tail := (tail rb + 1) mod capacity rb\<rparr>"])
    show "ringBufferPop (Some rb) (Some d) = Some (RING_BUFFER_SUCCESS,
        Some (rb\<lparr>tail := (tail rb + 1) mod capacity rb\<rparr>), Some (x @ drop ?es d))"
      using next_index [OF m(4)] m(5) ne off d x
      by (simp add: ringBufferPop_def isEmpty_iff [OF inv] m(1))
    show "ringBufferPeek (Some rb) (Some d) = Some (RING_BUFFER_SUCCESS, Some (x @ drop ?es d))"
      using m(5) ne off d x by (simp add: ringBufferPeek_def isEmpty_iff [OF inv] m(1))
  qed (use contents_Cons [OF inv ne] in simp_all)
qed

subsection \<open>The ring buffer as a bounded queue\<close>

text \<open>
  The two operations as the interface has them: a status becomes an answer, a call that
  ends in any other status would be no answer at all (\<open>None\<close>).
\<close>

definition rb_enq :: "RingBuffer_t \<Rightarrow> u8 list \<Rightarrow> (u8 list qout \<times> RingBuffer_t) run" where
  "rb_enq rb x =
     do {
       (status, p) \<leftarrow> ringBufferPush (Some rb) (Some x);
       rb' \<leftarrow> p;
       (case status of
          RING_BUFFER_SUCCESS \<Rightarrow> Some (Accepted, rb')
        | RING_BUFFER_ERROR_FULL \<Rightarrow> Some (Refused, rb')
        | _ \<Rightarrow> None)
     }"

definition rb_deq :: "RingBuffer_t \<Rightarrow> (u8 list qout \<times> RingBuffer_t) run" where
  "rb_deq rb =
     do {
       (status, p, d) \<leftarrow> ringBufferPop (Some rb) (Some (replicate (unat (elementSize rb)) 0));
       rb' \<leftarrow> p;
       x \<leftarrow> d;
       (case status of
          RING_BUFFER_SUCCESS \<Rightarrow> Some (Got x, rb')
        | RING_BUFFER_ERROR_EMPTY \<Rightarrow> Some (Nothing, rb')
        | _ \<Rightarrow> None)
     }"

definition rb_bound :: "RingBuffer_t \<Rightarrow> nat" where
  "rb_bound rb = unat (capacity rb) - 1"

definition rb_fits :: "RingBuffer_t \<Rightarrow> u8 list \<Rightarrow> bool" where
  "rb_fits rb x \<longleftrightarrow> length x = unat (elementSize rb)"

interpretation rb_fifo: bounded_fifo rb_enq rb_deq rb_contents rb_bound rb_inv rb_fits
proof
  fix rb x
  assume inv: "rb_inv rb" and fits: "rb_fits rb x" and room: "length (rb_contents rb) < rb_bound rb"
  have len: "unat (elementSize rb) \<le> length x" and bytes: "take (unat (elementSize rb)) x = x"
    using fits by (simp_all add: rb_fits_def)
  have room': "rb_size rb < unat (capacity rb) - 1"
    using room by (simp add: rb_bound_def)
  obtain rb' where "ringBufferPush (Some rb) (Some x) = Some (RING_BUFFER_SUCCESS, Some rb')"
    "rb_inv rb'" "rb_contents rb' = rb_contents rb @ [take (unat (elementSize rb)) x]"
    "capacity rb' = capacity rb" "elementSize rb' = elementSize rb"
    by (rule push_ok [OF inv room' len])
  with bytes show "\<exists>q'. rb_enq rb x = Some (Accepted, q') \<and> rb_inv q' \<and>
      rb_contents q' = rb_contents rb @ [x] \<and> rb_bound q' = rb_bound rb \<and> rb_fits q' = rb_fits rb"
    by (intro exI [of _ rb']) (auto simp: rb_enq_def rb_bound_def rb_fits_def)
next
  fix rb x
  assume "rb_inv rb" "rb_fits rb x" "rb_bound rb \<le> length (rb_contents rb)"
  then show "rb_enq rb x = Some (Refused, rb)"
    using rb_size_less [of rb] by (simp add: rb_enq_def push_full rb_bound_def)
next
  fix rb
  assume "rb_inv rb" "rb_contents rb = []"
  then show "rb_deq rb = Some (Nothing, rb)"
    by (simp add: rb_deq_def pop_empty)
next
  fix rb x xs
  assume inv: "rb_inv rb" and ne: "rb_contents rb = x # xs"
  have len: "unat (elementSize rb) \<le> length (replicate (unat (elementSize rb)) (0 :: u8))"
    by simp
  obtain rb' where "ringBufferPop (Some rb) (Some (replicate (unat (elementSize rb)) 0)) =
      Some (RING_BUFFER_SUCCESS, Some rb', Some (x @ drop (unat (elementSize rb)) (replicate (unat (elementSize rb)) 0)))"
    "rb_inv rb'" "rb_contents rb' = xs" "capacity rb' = capacity rb" "elementSize rb' = elementSize rb"
    by (rule pop_ok [OF inv ne len])
  then show "\<exists>q'. rb_deq rb = Some (Got x, q') \<and> rb_inv q' \<and> rb_contents q' = xs \<and>
      rb_bound q' = rb_bound rb \<and> rb_fits q' = rb_fits rb"
    by (intro exI [of _ rb']) (auto simp: rb_deq_def rb_bound_def rb_fits_def)
qed

subsection \<open>Initialisation and queries\<close>

lemma init_ok:
  assumes "2 \<le> unat cap" "1 \<le> unat es" "unat cap * unat es \<le> length m" "length m < size_limit"
  obtains rb' where "ringBufferInit (Some rb) (Some m) cap es = Some (RING_BUFFER_SUCCESS, Some rb')"
    "rb_inv rb'" "rb_contents rb' = []" "capacity rb' = cap" "elementSize rb' = es"
proof
  have "\<not> cap < 2" "\<not> es < 1"
    using assms(1,2) by (auto simp: word_less_nat_alt)
  then show "ringBufferInit (Some rb) (Some m) cap es = Some (RING_BUFFER_SUCCESS,
      Some (rb\<lparr>buffer := Some m, capacity := cap, elementSize := es, head := 0, tail := 0\<rparr>))"
    by (simp add: ringBufferInit_def)
qed (use assms in \<open>auto simp: rb_inv_def rb_contents_def rb_size_def ring_size_def\<close>)

lemma clear_ok:
  assumes "rb_inv rb"
  obtains rb' where "ringBufferClear (Some rb) = Some (RING_BUFFER_SUCCESS, Some rb')"
    "rb_inv rb'" "rb_contents rb' = []" "capacity rb' = capacity rb" "elementSize rb' = elementSize rb"
proof -
  obtain m where m: "buffer rb = Some m" "unat (head rb) < unat (capacity rb)" "\<not> no_buffer (Some rb)"
    using assms by (rule rb_invE)
  show thesis
  proof (rule that [of "rb\<lparr>head := 0, tail := 0\<rparr>"])
    show "ringBufferClear (Some rb) = Some (RING_BUFFER_SUCCESS, Some (rb\<lparr>head := 0, tail := 0\<rparr>))"
      using m(3) by (simp add: ringBufferClear_def)
    show "rb_inv (rb\<lparr>head := 0, tail := 0\<rparr>)"
      using assms m by (simp add: rb_inv_def)
  qed (simp_all add: rb_contents_def rb_size_def ring_size_def)
qed

lemma getSize_ok:
  assumes "rb_inv rb"
  shows "ringBufferGetSize (Some rb) (Some x) = Some (RING_BUFFER_SUCCESS, Some (of_nat (length (rb_contents rb))))"
proof -
  obtain m where m: "unat (head rb) < unat (capacity rb)" "unat (tail rb) < unat (capacity rb)"
      "\<not> no_buffer (Some rb)"
    using assms by (rule rb_invE)
  have "(if head rb \<ge> tail rb then head rb - tail rb else capacity rb - (tail rb - head rb)) =
      of_nat (rb_size rb)"
  proof (cases "unat (tail rb) \<le> unat (head rb)")
    case True
    then show ?thesis by (simp add: rb_size_def ring_size_def word_le_nat_alt)
  next
    case False
    then show ?thesis using m by (simp add: rb_size_def ring_size_def word_le_nat_alt)
  qed
  with m(3) show ?thesis
    by (simp add: ringBufferGetSize_def)
qed

lemma getCapacity_ok:
  "rb_inv rb \<Longrightarrow> ringBufferGetCapacity (Some rb) (Some x) = Some (RING_BUFFER_SUCCESS, Some (of_nat (rb_bound rb)))"
  by (auto elim!: rb_invE simp: ringBufferGetCapacity_def rb_bound_def)

text \<open>
  The available space is computed as \<open>((tail - head - 1) + capacity) % capacity\<close> in
  \<open>size_t\<close>: the inner difference may wrap below zero, which the addition undoes.  The sum
  stays below \<open>2 * capacity\<close>, so it is exact for every capacity up to half the range.
\<close>

lemma getAvailableSpace_ok:
  assumes inv: "rb_inv rb" and half: "2 * unat (capacity rb) \<le> size_limit"
  shows "ringBufferGetAvailableSpace (Some rb) (Some x) =
    Some (RING_BUFFER_SUCCESS, Some (of_nat (rb_bound rb - length (rb_contents rb))))"
proof -
  let ?h = "unat (head rb)" and ?t = "unat (tail rb)" and ?c = "unat (capacity rb)"
  obtain m where m: "2 \<le> ?c" "?h < ?c" "?t < ?c"
    using inv by (rule rb_invE)
  have rw: "(tail rb - head rb - 1) + capacity rb = (tail rb + capacity rb) - (head rb + 1)"
    by (simp add: algebra_simps)
  have a: "unat (tail rb + capacity rb) = ?t + ?c"
    using m half by (intro unat_add_noof) simp
  have b: "unat (head rb + 1) = Suc ?h"
    using m(2) by (rule unat_Suc_noof)
  have sum: "unat ((tail rb - head rb - 1) + capacity rb) = ?t + ?c - ?h - 1"
    unfolding rw using unat_sub_noof [of "head rb + 1" "tail rb + capacity rb"] m a b by simp
  have "(?t + ?c - ?h - 1) mod ?c = ?c - 1 - ring_size ?h ?t ?c"
    using m by (auto simp: ring_size_def mod_below_double)
  with sum have "((tail rb - head rb - 1) + capacity rb) mod capacity rb =
      of_nat (rb_bound rb - length (rb_contents rb))"
    by (simp add: word_arith_nat_mod rb_bound_def rb_size_def)
  moreover have "capacity rb \<noteq> 0"
    using m(1) by auto
  ultimately show ?thesis
    by (simp add: ringBufferGetAvailableSpace_def)
qed

text \<open>On a buffer that was never initialised (all fields zero) the remainder is by zero.\<close>

lemma getAvailableSpace_uninit:
  "capacity rb = 0 \<Longrightarrow> ringBufferGetAvailableSpace (Some rb) (Some x) = None"
  by (simp add: ringBufferGetAvailableSpace_def c_mod_def)

lemma queries_uninit:
  assumes "buffer rb = None"
  shows "ringBufferGetSize (Some rb) (Some x) = Some (RING_BUFFER_ERROR_NULL_POINTER, Some x)"
    and "ringBufferGetCapacity (Some rb) (Some x) = Some (RING_BUFFER_ERROR_NULL_POINTER, Some x)"
    and "ringBufferIsFull (Some rb) = Some False" "ringBufferIsEmpty (Some rb) = Some True"
    and "ringBufferPush (Some rb) d = Some (RING_BUFFER_ERROR_NULL_POINTER, Some rb)"
    and "ringBufferPop (Some rb) d = Some (RING_BUFFER_ERROR_NULL_POINTER, Some rb, d)"
    and "ringBufferPeek (Some rb) d = Some (RING_BUFFER_ERROR_NULL_POINTER, d)"
    and "ringBufferClear (Some rb) = Some (RING_BUFFER_ERROR_NULL_POINTER, Some rb)"
  using assms
  by (simp_all add: no_buffer_def ringBufferGetSize_def ringBufferGetCapacity_def ringBufferIsFull_def
      ringBufferIsEmpty_def ringBufferPush_def ringBufferPop_def ringBufferPeek_def ringBufferClear_def)

subsection \<open>Properties\<close>

text \<open>C5: on an initialised ring buffer every sequence of pushes and pops of elements of its
  size is answered as by a queue that holds at most \<open>capacity - 1\<close> elements: each push is
  accepted or refused as full, each pop delivers the oldest element's bytes or reports empty,
  and no call is undefined.\<close>

theorem ring_refines_queue:
  assumes "rb_inv rb" "\<forall>x. Enq x \<in> set ops \<longrightarrow> length x = unat (elementSize rb)"
  shows "\<exists>rb'. queue_run rb_enq rb_deq rb ops =
      Some (fst (list_run (unat (capacity rb) - 1) (rb_contents rb) ops), rb') \<and>
    rb_contents rb' = snd (list_run (unat (capacity rb) - 1) (rb_contents rb) ops) \<and> rb_inv rb'"
  using rb_fifo.run_refines [of rb ops] assms by (auto simp: rb_bound_def rb_fits_def)

definition ring_example :: RingBuffer_t where
  "ring_example = \<lparr>buffer = Some (replicate 6 0), head = 0, tail = 0, capacity = 3, elementSize = 2\<rparr>"

lemma ring_example_ok: "rb_inv ring_example" "rb_contents ring_example = []"
  by (simp_all add: ring_example_def rb_inv_def rb_contents_def rb_size_def ring_size_def)

theorem ring_refines_queue_witness:
  "\<exists>rb'. queue_run rb_enq rb_deq ring_example [Enq [1, 2], Enq [3, 4], Enq [5, 6], Deq, Enq [7, 8], Deq, Deq, Deq] =
     Some ([Accepted, Accepted, Refused, Got [1, 2], Accepted, Got [3, 4], Got [7, 8], Nothing], rb')"
proof -
  have "\<forall>x. Enq x \<in> set [Enq [1, 2], Enq [3, 4], Enq [5, 6], Deq, Enq [7, 8], Deq, Deq, Deq] \<longrightarrow>
      length x = unat (elementSize ring_example)"
    by (auto simp: ring_example_def)
  from ring_refines_queue [OF ring_example_ok(1) this] show ?thesis
    unfolding ring_example_ok(2) by (auto simp: ring_example_def)
qed

text \<open>The queries, exactly.\<close>

lemma queries_exact:
  assumes "rb_inv rb"
  shows "\<exists>n c. ringBufferGetSize (Some rb) (Some x) = Some (RING_BUFFER_SUCCESS, Some n) \<and>
    ringBufferGetCapacity (Some rb) (Some x) = Some (RING_BUFFER_SUCCESS, Some c) \<and>
    unat n = length (rb_contents rb) \<and> unat c = unat (capacity rb) - 1 \<and>
    ringBufferIsEmpty (Some rb) = Some (unat n = 0) \<and> ringBufferIsFull (Some rb) = Some (n = c) \<and>
    (2 * unat (capacity rb) \<le> size_limit \<longrightarrow>
      (\<exists>a. ringBufferGetAvailableSpace (Some rb) (Some x) = Some (RING_BUFFER_SUCCESS, Some a) \<and>
        unat a + unat n = unat c))"
proof -
  let ?c = "unat (capacity rb)"
  have b: "rb_size rb \<le> ?c - 1"
    using rb_size_less [OF assms] by simp
  have small: "?c < size_limit"
    using unat_less_size [of "capacity rb"] by simp
  have n: "unat (of_nat (rb_size rb) :: size_t) = rb_size rb" "unat (of_nat (rb_bound rb) :: size_t) = ?c - 1"
    and a: "unat (of_nat (rb_bound rb - rb_size rb) :: size_t) = ?c - 1 - rb_size rb"
    using b small unfolding rb_bound_def by (intro unat_of_nat_size; linarith)+
  have empty: "rb_contents rb = [] \<longleftrightarrow> rb_size rb = 0"
    using length_rb_contents [of rb] by (metis length_0_conv)
  have space: "2 * unat (capacity rb) \<le> size_limit \<longrightarrow>
      (\<exists>a. ringBufferGetAvailableSpace (Some rb) (Some x) = Some (RING_BUFFER_SUCCESS, Some a) \<and>
        unat a + rb_size rb = ?c - 1)"
    using getAvailableSpace_ok [OF assms, of x] a b
    by (intro impI exI [of _ "of_nat (rb_bound rb - rb_size rb)"]) simp
  show ?thesis
  proof (rule exI [of _ "of_nat (rb_size rb)"], rule exI [of _ "of_nat (rb_bound rb)"])
  qed (use getSize_ok [OF assms, of x] getCapacity_ok [OF assms, of x] space
      isEmpty_iff [OF assms] isFull_iff [OF assms] n in \<open>simp add: word_unat_eq_iff empty\<close>)
qed

text \<open>On a zeroed ring buffer that was never initialised every operation but one reports the null
  buffer (or empty, or not full) and changes nothing; \<open>ringBufferGetAvailableSpace\<close>
  alone takes a remainder by its zero capacity, which is undefined.\<close>

lemma ring_uninitialised:
  assumes "buffer rb = None" "capacity rb = 0"
  shows "ringBufferGetAvailableSpace (Some rb) (Some x) = None \<and>
    ringBufferGetSize (Some rb) (Some x) = Some (RING_BUFFER_ERROR_NULL_POINTER, Some x) \<and>
    ringBufferGetCapacity (Some rb) (Some x) = Some (RING_BUFFER_ERROR_NULL_POINTER, Some x) \<and>
    ringBufferIsFull (Some rb) = Some False \<and> ringBufferIsEmpty (Some rb) = Some True \<and>
    ringBufferPush (Some rb) d = Some (RING_BUFFER_ERROR_NULL_POINTER, Some rb) \<and>
    ringBufferPop (Some rb) d = Some (RING_BUFFER_ERROR_NULL_POINTER, Some rb, d) \<and>
    ringBufferPeek (Some rb) d = Some (RING_BUFFER_ERROR_NULL_POINTER, d) \<and>
    ringBufferClear (Some rb) = Some (RING_BUFFER_ERROR_NULL_POINTER, Some rb)"
  using getAvailableSpace_uninit [OF assms(2)] queries_uninit [OF assms(1)] by simp

lemma ring_uninitialised_example:
  "ringBufferGetAvailableSpace (Some \<lparr>buffer = None, head = 0, tail = 0, capacity = 0, elementSize = 0\<rparr>) (Some 5) = None"
  using ring_uninitialised [of "\<lparr>buffer = None, head = 0, tail = 0, capacity = 0, elementSize = 0\<rparr>" 5] by simp

end
