(* ===== verification/RingBufferApi.thy ===== *)
theory RingBufferApi
  imports RingBuffer
begin

text \<open>
  The whole interface of the ring buffer over sequences of calls, as a caller sees it that
  keeps calls on one instance apart (\<open>ringBuffer.h\<close> leaves synchronisation to the caller): all
  functions, new initialisations included, with the caller's own objects and null
  pointers.  The specification is a queue of elements; it says nothing (\<open>None\<close>) of a call
  that is given too little memory.
\<close>

datatype ring_call =
    Init_call "u8 list ptr" size_t size_t
  | Push_call "u8 list ptr"
  | Pop_call "u8 list ptr"
  | Peek_call "u8 list ptr"
  | Clear_call
  | GetSize_call "size_t ptr"
  | GetCapacity_call "size_t ptr"
  | GetAvailableSpace_call "size_t ptr"
  | IsFull_call
  | IsEmpty_call

text \<open>What a call returns: a status, with the caller's element or counter after the call, or a truth value.\<close>

datatype ring_answer =
    Status RingBufferStatus_t
  | Element RingBufferStatus_t "u8 list ptr"
  | Counter RingBufferStatus_t "size_t ptr"
  | Truth bool

fun ring_do :: "ring_call \<Rightarrow> RingBuffer_t \<Rightarrow> (ring_answer \<times> RingBuffer_t) run" where
  "ring_do (Init_call buf cap es) rb =
     do { (status, p) \<leftarrow> ringBufferInit (Some rb) buf cap es; rb' \<leftarrow> p; Some (Status status, rb') }"
| "ring_do (Push_call data) rb =
     do { (status, p) \<leftarrow> ringBufferPush (Some rb) data; rb' \<leftarrow> p; Some (Status status, rb') }"
| "ring_do (Pop_call data) rb =
     do { (status, p, data') \<leftarrow> ringBufferPop (Some rb) data; rb' \<leftarrow> p; Some (Element status data', rb') }"
| "ring_do (Peek_call data) rb =
     do { (status, data') \<leftarrow> ringBufferPeek (Some rb) data; Some (Element status data', rb) }"
| "ring_do Clear_call rb =
     do { (status, p) \<leftarrow> ringBufferClear (Some rb); rb' \<leftarrow> p; Some (Status status, rb') }"
| "ring_do (GetSize_call out) rb =
     do { (status, out') \<leftarrow> ringBufferGetSize (Some rb) out; Some (Counter status out', rb) }"
| "ring_do (GetCapacity_call out) rb =
     do { (status, out') \<leftarrow> ringBufferGetCapacity (Some rb) out; Some (Counter status out', rb) }"
| "ring_do (GetAvailableSpace_call out) rb =
     do { (status, out') \<leftarrow> ringBufferGetAvailableSpace (Some rb) out; Some (Counter status out', rb) }"
| "ring_do IsFull_call rb = do { b \<leftarrow> ringBufferIsFull (Some rb); Some (Truth b, rb) }"
| "ring_do IsEmpty_call rb = do { b \<leftarrow> ringBufferIsEmpty (Some rb); Some (Truth b, rb) }"

primrec calls_run :: "('c \<Rightarrow> 's \<Rightarrow> ('a \<times> 's) run) \<Rightarrow> 'c list \<Rightarrow> 's \<Rightarrow> ('a list \<times> 's) run" where
  "calls_run act [] s = Some ([], s)"
| "calls_run act (call # calls) s =
     do { (answer, s') \<leftarrow> act call s; (answers, s'') \<leftarrow> calls_run act calls s'; Some (answer # answers, s'') }"

text \<open>The specification: element slots, element size, and the elements, oldest first.\<close>

record ring_queue =
  slots :: nat
  width :: nat
  elements :: "u8 list list"

definition counted :: "nat \<Rightarrow> size_t ptr \<Rightarrow> ring_answer" where
  "counted n out =
     (if out = None then Counter RING_BUFFER_ERROR_NULL_POINTER None
      else Counter RING_BUFFER_SUCCESS (Some (of_nat n)))"

definition oldest :: "ring_queue \<Rightarrow> u8 list ptr \<Rightarrow> ring_answer option" where
  "oldest q data =
     (case data of
        None \<Rightarrow> Some (Element RING_BUFFER_ERROR_NULL_POINTER None)
      | Some d \<Rightarrow>
          (case elements q of
             [] \<Rightarrow> Some (Element RING_BUFFER_ERROR_EMPTY (Some d))
           | x # xs \<Rightarrow>
               if width q \<le> length d then Some (Element RING_BUFFER_SUCCESS (Some (x @ drop (width q) d)))
               else None))"

fun queue_do :: "ring_call \<Rightarrow> ring_queue \<Rightarrow> (ring_answer \<times> ring_queue) option" where
  "queue_do (Init_call buf cap es) q =
     (case buf of
        None \<Rightarrow> Some (Status RING_BUFFER_ERROR_NULL_POINTER, q)
      | Some m \<Rightarrow>
          if unat cap < 2 then Some (Status RING_BUFFER_ERROR_INVALID_CAPACITY, q)
          else if unat es < 1 then Some (Status RING_BUFFER_ERROR_INVALID_ELEMENT_SIZE, q)
          else if unat cap * unat es \<le> length m \<and> length m < size_limit
          then Some (Status RING_BUFFER_SUCCESS, \<lparr>slots = unat cap, width = unat es, elements = []\<rparr>)
          else None)"
| "queue_do (Push_call data) q =
     (case data of
        None \<Rightarrow> Some (Status RING_BUFFER_ERROR_NULL_POINTER, q)
      | Some d \<Rightarrow>
          if length (elements q) = slots q - 1 then Some (Status RING_BUFFER_ERROR_FULL, q)
          else if width q \<le> length d
          then Some (Status RING_BUFFER_SUCCESS, q\<lparr>elements := elements q @ [take (width q) d]\<rparr>)
          else None)"
| "queue_do (Pop_call data) q =
     do { answer \<leftarrow> oldest q data; Some (answer, if data = None then q else q\<lparr>elements := tl (elements q)\<rparr>) }"
| "queue_do (Peek_call data) q = do { answer \<leftarrow> oldest q data; Some (answer, q) }"
| "queue_do Clear_call q = Some (Status RING_BUFFER_SUCCESS, q\<lparr>elements := []\<rparr>)"
| "queue_do (GetSize_call out) q = Some (counted (length (elements q)) out, q)"
| "queue_do (GetCapacity_call out) q = Some (counted (slots q - 1) out, q)"
| "queue_do (GetAvailableSpace_call out) q =
     (if out = None \<or> 2 * slots q \<le> size_limit
      then Some (counted (slots q - 1 - length (elements q)) out, q) else None)"
| "queue_do IsFull_call q = Some (Truth (length (elements q) = slots q - 1), q)"
| "queue_do IsEmpty_call q = Some (Truth (elements q = []), q)"

definition rb_queue :: "RingBuffer_t \<Rightarrow> ring_queue" where
  "rb_queue rb = \<lparr>slots = unat (capacity rb), width = unat (elementSize rb), elements = rb_contents rb\<rparr>"

lemma rb_queue_fields [simp]:
  "slots (rb_queue rb) = unat (capacity rb)" "width (rb_queue rb) = unat (elementSize rb)"
  "elements (rb_queue rb) = rb_contents rb"
  by (simp_all add: rb_queue_def)

lemma rb_queue_elements:
  "capacity rb' = capacity rb \<Longrightarrow> elementSize rb' = elementSize rb \<Longrightarrow>
   rb_queue rb' = rb_queue rb\<lparr>elements := rb_contents rb'\<rparr>"
  by (simp add: rb_queue_def)

subsection \<open>One call\<close>

lemma null_calls:
  "ringBufferPush (Some rb) None = Some (RING_BUFFER_ERROR_NULL_POINTER, Some rb)"
  "ringBufferPop (Some rb) None = Some (RING_BUFFER_ERROR_NULL_POINTER, Some rb, None)"
  "ringBufferPeek (Some rb) None = Some (RING_BUFFER_ERROR_NULL_POINTER, None)"
  "ringBufferGetSize (Some rb) None = Some (RING_BUFFER_ERROR_NULL_POINTER, None)"
  "ringBufferGetCapacity (Some rb) None = Some (RING_BUFFER_ERROR_NULL_POINTER, None)"
  "ringBufferGetAvailableSpace (Some rb) None = Some (RING_BUFFER_ERROR_NULL_POINTER, None)"
  by (simp_all add: ringBufferPush_def ringBufferPop_def ringBufferPeek_def ringBufferGetSize_def
      ringBufferGetCapacity_def ringBufferGetAvailableSpace_def)

lemma init_call:
  assumes "rb_inv rb" "queue_do (Init_call buf cap es) (rb_queue rb) = Some (answer, q)"
  shows "\<exists>rb'. ring_do (Init_call buf cap es) rb = Some (answer, rb') \<and> rb_inv rb' \<and> rb_queue rb' = q"
proof (cases "\<exists>m. buf = Some m \<and> 2 \<le> unat cap \<and> 1 \<le> unat es")
  case True
  then obtain m where m: "buf = Some m" "2 \<le> unat cap" "1 \<le> unat es" by blast
  then have fits: "unat cap * unat es \<le> length m" "length m < size_limit"
    and out: "answer = Status RING_BUFFER_SUCCESS" "q = \<lparr>slots = unat cap, width = unat es, elements = []\<rparr>"
    using assms(2) by (auto split: if_splits)
  obtain rb' where "ringBufferInit (Some rb) (Some m) cap es = Some (RING_BUFFER_SUCCESS, Some rb')"
    "rb_inv rb'" "rb_contents rb' = []" "capacity rb' = cap" "elementSize rb' = es"
    by (rule init_ok [OF m(2,3) fits])
  with m(1) out show ?thesis by (simp add: rb_queue_def)
next
  case False
  then show ?thesis
    using assms by (cases buf) (auto simp: ringBufferInit_def word_less_nat_alt split: if_splits)
qed

lemma push_call:
  assumes inv: "rb_inv rb" and spec: "queue_do (Push_call data) (rb_queue rb) = Some (answer, q)"
  shows "\<exists>rb'. ring_do (Push_call data) rb = Some (answer, rb') \<and> rb_inv rb' \<and> rb_queue rb' = q"
proof (cases data)
  case None
  with assms show ?thesis by (simp add: null_calls)
next
  case (Some d)
  show ?thesis
  proof (cases "rb_size rb = unat (capacity rb) - 1")
    case True
    with assms Some show ?thesis by (simp add: push_full)
  next
    case False
    then have room: "rb_size rb < unat (capacity rb) - 1"
      using rb_size_less [OF inv] by simp
    have d: "unat (elementSize rb) \<le> length d"
      and out: "answer = Status RING_BUFFER_SUCCESS"
        "q = rb_queue rb\<lparr>elements := rb_contents rb @ [take (unat (elementSize rb)) d]\<rparr>"
      using spec Some False by (auto split: if_splits)
    obtain rb' where "ringBufferPush (Some rb) (Some d) = Some (RING_BUFFER_SUCCESS, Some rb')"
      "rb_inv rb'" "rb_contents rb' = rb_contents rb @ [take (unat (elementSize rb)) d]"
      "capacity rb' = capacity rb" "elementSize rb' = elementSize rb"
      by (rule push_ok [OF inv room d])
    with Some out rb_queue_elements [of rb' rb] show ?thesis by simp
  qed
qed

lemma pop_peek_call:
  assumes inv: "rb_inv rb" and spec: "oldest (rb_queue rb) data = Some answer"
  shows "ring_do (Peek_call data) rb = Some (answer, rb)"
    and "\<exists>rb'. ring_do (Pop_call data) rb = Some (answer, rb') \<and> rb_inv rb' \<and>
      rb_queue rb' = (if data = None then rb_queue rb else rb_queue rb\<lparr>elements := tl (rb_contents rb)\<rparr>)"
proof -
  have "ring_do (Peek_call data) rb = Some (answer, rb) \<and>
    (\<exists>rb'. ring_do (Pop_call data) rb = Some (answer, rb') \<and> rb_inv rb' \<and>
      rb_queue rb' = (if data = None then rb_queue rb else rb_queue rb\<lparr>elements := tl (rb_contents rb)\<rparr>))"
  proof (cases data)
    case None
    with assms show ?thesis by (auto simp: null_calls oldest_def)
  next
    case (Some d)
    show ?thesis
    proof (cases "rb_contents rb")
      case Nil
      with assms Some show ?thesis by (simp add: oldest_def pop_empty peek_empty rb_queue_def)
    next
      case (Cons x xs)
      have d: "unat (elementSize rb) \<le> length d"
        and out: "answer = Element RING_BUFFER_SUCCESS (Some (x @ drop (unat (elementSize rb)) d))"
        using spec Some Cons by (auto simp: oldest_def split: if_splits)
      obtain rb' where "ringBufferPop (Some rb) (Some d) =
          Some (RING_BUFFER_SUCCESS, Some rb', Some (x @ drop (unat (elementSize rb)) d))"
        "ringBufferPeek (Some rb) (Some d) = Some (RING_BUFFER_SUCCESS, Some (x @ drop (unat (elementSize rb)) d))"
        "rb_inv rb'" "rb_contents rb' = xs" "capacity rb' = capacity rb" "elementSize rb' = elementSize rb"
        by (rule pop_ok [OF inv Cons d])
      with Some out Cons rb_queue_elements [of rb' rb] show ?thesis by simp
    qed
  qed
  then show "ring_do (Peek_call data) rb = Some (answer, rb)"
    and "\<exists>rb'. ring_do (Pop_call data) rb = Some (answer, rb') \<and> rb_inv rb' \<and>
      rb_queue rb' = (if data = None then rb_queue rb else rb_queue rb\<lparr>elements := tl (rb_contents rb)\<rparr>)"
    by blast+
qed

lemma query_calls:
  assumes "rb_inv rb"
  shows "ring_do (GetSize_call out) rb = Some (counted (length (rb_contents rb)) out, rb)"
    and "ring_do (GetCapacity_call out) rb = Some (counted (unat (capacity rb) - 1) out, rb)"
    and "out = None \<or> 2 * unat (capacity rb) \<le> size_limit \<Longrightarrow>
      ring_do (GetAvailableSpace_call out) rb = Some (counted (unat (capacity rb) - 1 - length (rb_contents rb)) out, rb)"
    and "ring_do IsFull_call rb = Some (Truth (length (rb_contents rb) = unat (capacity rb) - 1), rb)"
    and "ring_do IsEmpty_call rb = Some (Truth (rb_contents rb = []), rb)"
  using getSize_ok [OF assms] getCapacity_ok [OF assms] getAvailableSpace_ok [OF assms] isFull_iff [OF assms]
    isEmpty_iff [OF assms]
  by (cases out; simp add: null_calls counted_def rb_bound_def)+

lemma call_refines:
  assumes "rb_inv rb" "queue_do call (rb_queue rb) = Some (answer, q)"
  shows "\<exists>rb'. ring_do call rb = Some (answer, rb') \<and> rb_inv rb' \<and> rb_queue rb' = q"
proof (cases call)
  case (Init_call buf cap es)
  then show ?thesis using init_call assms by blast
next
  case (Push_call data)
  then show ?thesis using push_call assms by blast
next
  case (Pop_call data)
  then have "oldest (rb_queue rb) data = Some answer"
    "q = (if data = None then rb_queue rb else rb_queue rb\<lparr>elements := tl (rb_contents rb)\<rparr>)"
    using assms(2) by (auto split: bind_splits)
  with Pop_call pop_peek_call(2) [OF assms(1)] show ?thesis by metis
next
  case (Peek_call data)
  then have "oldest (rb_queue rb) data = Some answer" "q = rb_queue rb"
    using assms(2) by (auto split: bind_splits)
  with Peek_call pop_peek_call(1) [OF assms(1)] assms(1) show ?thesis by metis
next
  case Clear_call
  obtain rb' where "ringBufferClear (Some rb) = Some (RING_BUFFER_SUCCESS, Some rb')"
    "rb_inv rb'" "rb_contents rb' = []" "capacity rb' = capacity rb" "elementSize rb' = elementSize rb"
    by (rule clear_ok [OF assms(1)])
  with Clear_call assms(2) rb_queue_elements [of rb' rb] show ?thesis by auto
qed (use query_calls [OF assms(1)] assms in \<open>auto simp del: ring_do.simps split: if_splits\<close>)

lemma calls_refine:
  assumes "rb_inv rb" "calls_run queue_do calls (rb_queue rb) = Some (answers, q)"
  shows "\<exists>rb'. calls_run ring_do calls rb = Some (answers, rb') \<and> rb_inv rb' \<and> rb_queue rb' = q"
  using assms
proof (induction calls arbitrary: rb answers)
  case Nil
  then show ?case by simp
next
  case (Cons call calls)
  obtain answer q1 answers1 where spec: "queue_do call (rb_queue rb) = Some (answer, q1)"
    "calls_run queue_do calls q1 = Some (answers1, q)" "answers = answer # answers1"
    using Cons.prems(2) by (auto split: bind_splits)
  obtain rb1 where rb1: "ring_do call rb = Some (answer, rb1)" "rb_inv rb1" "rb_queue rb1 = q1"
    using call_refines [OF Cons.prems(1) spec(1)] by blast
  with Cons.IH [of rb1 answers1] spec(2,3) show ?case by auto
qed

subsection \<open>A buffer from its initialisation to its last element\<close>

lemma drain_rest:
  assumes "rb_inv rb" "length (rb_contents rb) \<le> k"
  shows "\<exists>outs rb'. queue_run rb_enq rb_deq rb (replicate k Deq) = Some (outs, rb') \<and>
    delivered outs = rb_contents rb \<and> ringBufferIsEmpty (Some rb') = Some True"
proof -
  let ?run = "list_run (rb_bound rb) (rb_contents rb) (replicate k Deq)"
  obtain rb' where run: "queue_run rb_enq rb_deq rb (replicate k Deq) = Some (fst ?run, rb')"
    "rb_contents rb' = snd ?run" "rb_inv rb'"
    using rb_fifo.run_refines [OF assms(1), of "replicate k Deq"] by auto
  have "snd ?run = []"
    using assms(2) by (rule list_run_drain)
  moreover have "accepted (replicate k Deq) outs = []" for outs :: "u8 list qout list"
  proof (induction k arbitrary: outs)
    case (Suc k)
    then show ?case by (cases outs) simp_all
  qed simp
  ultimately show ?thesis
    using list_run_conserves [of "rb_contents rb" "replicate k Deq" "rb_bound rb"] run isEmpty_iff [OF run(3)]
    by simp
qed

lemma fresh_ring_delivers:
  assumes "2 \<le> unat cap" "1 \<le> unat es" "unat cap * unat es \<le> length m" "length m < size_limit"
    and "\<forall>x. Enq x \<in> set ops \<longrightarrow> length x = unat es"
  shows "\<exists>rb outs rb1 outs' rb'. ringBufferInit (Some old) (Some m) cap es = Some (RING_BUFFER_SUCCESS, Some rb) \<and>
    queue_run rb_enq rb_deq rb ops = Some (outs, rb1) \<and>
    accepted ops outs = delivered outs @ rb_contents rb1 \<and>
    queue_run rb_enq rb_deq rb1 (replicate (unat cap - 1) Deq) = Some (outs', rb') \<and>
    delivered outs @ delivered outs' = accepted ops outs \<and>
    ringBufferIsEmpty (Some rb') = Some True"
proof -
  obtain rb where rb: "ringBufferInit (Some old) (Some m) cap es = Some (RING_BUFFER_SUCCESS, Some rb)"
    "rb_inv rb" "rb_contents rb = []" "capacity rb = cap" "elementSize rb = es"
    using assms(1-4) by (rule init_ok)
  let ?run = "list_run (rb_bound rb) [] ops"
  have "\<And>x. Enq x \<in> set ops \<Longrightarrow> rb_fits rb x"
    using assms(5) rb(5) by (simp add: rb_fits_def)
  then obtain rb1 where run: "queue_run rb_enq rb_deq rb ops = Some (fst ?run, rb1)"
    "rb_contents rb1 = snd ?run" "rb_inv rb1"
    using rb_fifo.run_refines [OF rb(2), of ops] rb(3) by auto
  have "length (rb_contents rb1) \<le> unat cap - 1"
    using list_run_bound [of "[]" "rb_bound rb" ops] rb(4) unfolding run(2) by (simp add: rb_bound_def)
  from drain_rest [OF run(3) this] rb(1) run list_run_conserves [of "[]" ops "rb_bound rb"]
  show ?thesis by fastforce
qed

subsection \<open>Properties\<close>

text \<open>C6: the ring buffer is a queue, for its whole interface.  Once initialised over storage that
  holds it, whatever the object held before, every sequence of calls of all its functions, one
  after the other, pushes and pops with the caller's own objects, null pointers and new
  initialisations among them, is answered call by call as by a queue of at most
  \<open>capacity - 1\<close> elements: a push stores the object's first \<open>elementSize\<close> bytes as the newest
  element or is refused as full, a pop or a peek overwrites just the first \<open>elementSize\<close> bytes
  of its object with the oldest element or reports empty, the counters and truth values are
  those of the queue, a rejected call changes nothing, and no call is undefined.  Asked of the
  caller is only that its objects and storages are as large as it says, and a capacity of at
  most half the address space where the available space is queried.\<close>

theorem ring_calls_answered:
  assumes "2 \<le> unat cap" "1 \<le> unat es" "unat cap * unat es \<le> length m" "length m < size_limit"
    and "calls_run queue_do calls \<lparr>slots = unat cap, width = unat es, elements = []\<rparr> = Some (answers, q)"
  shows "\<exists>rb. calls_run ring_do (Init_call (Some m) cap es # calls) old =
      Some (Status RING_BUFFER_SUCCESS # answers, rb) \<and> rb_contents rb = elements q"
proof -
  obtain rb where rb: "ringBufferInit (Some old) (Some m) cap es = Some (RING_BUFFER_SUCCESS, Some rb)"
    "rb_inv rb" "rb_contents rb = []" "capacity rb = cap" "elementSize rb = es"
    using assms(1-4) by (rule init_ok)
  have "rb_queue rb = \<lparr>slots = unat cap, width = unat es, elements = []\<rparr>"
    using rb(3-5) by (simp add: rb_queue_def)
  then obtain rb' where "calls_run ring_do calls rb = Some (answers, rb')" "rb_queue rb' = q"
    using calls_refine [OF rb(2), of calls answers q] assms(5) by auto
  with rb(1) show ?thesis by auto
qed

theorem ring_calls_answered_witness:
  "\<exists>rb. calls_run ring_do
      [Init_call (Some (replicate 6 0)) 3 2, Push_call (Some [1, 2, 9]), Push_call None, Push_call (Some [3, 4]),
       IsFull_call, Push_call (Some [5, 6]), GetSize_call (Some 7), Peek_call (Some [0, 0]), Pop_call (Some [8, 8, 8]),
       GetAvailableSpace_call (Some 7), Init_call None 3 2, Pop_call (Some [0, 0]), Pop_call (Some [0, 0]), IsEmpty_call] ring_example =
    Some ([Status RING_BUFFER_SUCCESS, Status RING_BUFFER_SUCCESS, Status RING_BUFFER_ERROR_NULL_POINTER,
      Status RING_BUFFER_SUCCESS, Truth True, Status RING_BUFFER_ERROR_FULL, Counter RING_BUFFER_SUCCESS (Some 2),
      Element RING_BUFFER_SUCCESS (Some [1, 2]), Element RING_BUFFER_SUCCESS (Some [1, 2, 8]),
      Counter RING_BUFFER_SUCCESS (Some 1), Status RING_BUFFER_ERROR_NULL_POINTER,
      Element RING_BUFFER_SUCCESS (Some [3, 4]), Element RING_BUFFER_ERROR_EMPTY (Some [0, 0]), Truth True], rb)"
proof -
  let ?calls = "[Push_call (Some [1, 2, 9]), Push_call None, Push_call (Some [3, 4]),
       IsFull_call, Push_call (Some [5, 6]), GetSize_call (Some 7), Peek_call (Some [0, 0]), Pop_call (Some [8, 8, 8]),
       GetAvailableSpace_call (Some 7), Init_call None 3 2, Pop_call (Some [0, 0]), Pop_call (Some [0, 0]), IsEmpty_call]"
  have "calls_run queue_do ?calls \<lparr>slots = unat (3 :: size_t), width = unat (2 :: size_t), elements = []\<rparr> =
    Some ([Status RING_BUFFER_SUCCESS, Status RING_BUFFER_ERROR_NULL_POINTER,
      Status RING_BUFFER_SUCCESS, Truth True, Status RING_BUFFER_ERROR_FULL, Counter RING_BUFFER_SUCCESS (Some 2),
      Element RING_BUFFER_SUCCESS (Some [1, 2]), Element RING_BUFFER_SUCCESS (Some [1, 2, 8]),
      Counter RING_BUFFER_SUCCESS (Some 1), Status RING_BUFFER_ERROR_NULL_POINTER,
      Element RING_BUFFER_SUCCESS (Some [3, 4]), Element RING_BUFFER_ERROR_EMPTY (Some [0, 0]), Truth True],
      \<lparr>slots = 3, width = 2, elements = []\<rparr>)"
    by (simp add: counted_def oldest_def)
  from ring_calls_answered [OF _ _ _ _ this, of "replicate 6 0" ring_example] show ?thesis
    by (auto simp del: calls_run.simps)
qed

text \<open>C19: nothing is lost, duplicated or reordered, and everything gets out.  From a ring buffer
  just initialised over any storage that holds it, after any sequence of pushes and pops the
  elements accepted so far are those delivered so far followed by those still stored, in
  order; and \<open>capacity - 1\<close> further pops always empty it, so that then exactly the accepted
  elements have been delivered, each once and in order.\<close>

theorem ring_delivers_everything:
  assumes "2 \<le> unat cap" "1 \<le> unat es" "unat cap * unat es \<le> length m" "length m < size_limit"
    and "\<forall>x. Enq x \<in> set ops \<longrightarrow> length x = unat es"
  shows "\<exists>rb outs rb1 outs' rb'. ringBufferInit (Some old) (Some m) cap es = Some (RING_BUFFER_SUCCESS, Some rb) \<and>
    queue_run rb_enq rb_deq rb ops = Some (outs, rb1) \<and>
    accepted ops outs = delivered outs @ rb_contents rb1 \<and>
    queue_run rb_enq rb_deq rb1 (replicate (unat cap - 1) Deq) = Some (outs', rb') \<and>
    delivered outs @ delivered outs' = accepted ops outs \<and>
    ringBufferIsEmpty (Some rb') = Some True"
  using fresh_ring_delivers [OF assms] .

theorem ring_delivers_everything_witness:
  "\<exists>rb outs rb1 outs' rb'. ringBufferInit (Some ring_example) (Some (replicate 6 0)) 3 2 = Some (RING_BUFFER_SUCCESS, Some rb) \<and>
    queue_run rb_enq rb_deq rb [Enq [1, 2], Deq, Enq [3, 4], Enq [5, 6], Enq [7, 8]] = Some (outs, rb1) \<and>
    outs = [Accepted, Got [1, 2], Accepted, Accepted, Refused] \<and>
    queue_run rb_enq rb_deq rb1 [Deq, Deq] = Some (outs', rb') \<and>
    delivered outs @ delivered outs' = [[1, 2], [3, 4], [5, 6]] \<and> ringBufferIsEmpty (Some rb') = Some True"
proof -
  let ?ops = "[Enq [1, 2], Deq, Enq [3, 4], Enq [5, 6], Enq [7, 8]] :: u8 list qop list"
  have ev: "case ringBufferInit (Some ring_example) (Some (replicate 6 0)) 3 2 of
      Some (st, Some rb) \<Rightarrow> (case queue_run rb_enq rb_deq rb ?ops of
        Some (outs, rb1) \<Rightarrow> outs = [Accepted, Got [1, 2], Accepted, Accepted, Refused] | None \<Rightarrow> False)
    | _ \<Rightarrow> False"
    by code_simp
  have sizes: "2 \<le> unat (3 :: size_t)" "1 \<le> unat (2 :: size_t)"
    "unat (3 :: size_t) * unat (2 :: size_t) \<le> length (replicate 6 (0 :: u8))" "length (replicate 6 (0 :: u8)) < size_limit"
    "\<forall>x. Enq x \<in> set ?ops \<longrightarrow> length x = unat (2 :: size_t)"
    by auto
  have two: "replicate (unat (3 :: size_t) - 1) Deq = [Deq, Deq :: u8 list qop]" by code_simp
  obtain rb outs rb1 outs' rb' where
    "ringBufferInit (Some ring_example) (Some (replicate 6 0)) 3 2 = Some (RING_BUFFER_SUCCESS, Some rb)"
    "queue_run rb_enq rb_deq rb ?ops = Some (outs, rb1)"
    "queue_run rb_enq rb_deq rb1 [Deq, Deq] = Some (outs', rb')"
    "delivered outs @ delivered outs' = accepted ?ops outs" "ringBufferIsEmpty (Some rb') = Some True"
    using ring_delivers_everything [OF sizes, of ring_example] unfolding two by blast
  with ev show ?thesis by (auto simp del: queue_run.simps)
qed

text \<open>C38: the queries are exact and can be planned with.  \<open>GetSize\<close>, \<open>GetCapacity\<close> and (for
  capacities up to half the range of \<open>size_t\<close>) \<open>GetAvailableSpace\<close> return the number of
  stored elements, \<open>capacity - 1\<close> and their difference, and \<open>IsEmpty\<close> and \<open>IsFull\<close> agree
  with them.  In any sequence of pushes and pops after them, if no more than the available
  number of elements is pushed then no push is refused, and if no more than the stored
  number is popped then no pop reports empty, in whatever order they are made.\<close>

theorem ring_queries:
  assumes "rb_inv rb" "\<forall>x. Enq x \<in> set ops \<longrightarrow> length x = unat (elementSize rb)"
  shows "\<exists>n c outs rb'. ringBufferGetSize (Some rb) (Some x) = Some (RING_BUFFER_SUCCESS, Some n) \<and>
    ringBufferGetCapacity (Some rb) (Some x) = Some (RING_BUFFER_SUCCESS, Some c) \<and>
    unat n = length (rb_contents rb) \<and> unat c = unat (capacity rb) - 1 \<and> unat n \<le> unat c \<and>
    ringBufferIsEmpty (Some rb) = Some (unat n = 0) \<and> ringBufferIsFull (Some rb) = Some (n = c) \<and>
    (2 * unat (capacity rb) \<le> size_limit \<longrightarrow>
      ringBufferGetAvailableSpace (Some rb) (Some x) = Some (RING_BUFFER_SUCCESS, Some (c - n))) \<and>
    queue_run rb_enq rb_deq rb ops = Some (outs, rb') \<and>
    (length (filter (\<lambda>op. op \<noteq> Deq) ops) \<le> unat (c - n) \<longrightarrow> Refused \<notin> set outs) \<and>
    (length (filter (\<lambda>op. op = Deq) ops) \<le> unat n \<longrightarrow> Nothing \<notin> set outs)"
proof -
  let ?run = "list_run (rb_bound rb) (rb_contents rb) ops"
  obtain n c where q: "ringBufferGetSize (Some rb) (Some x) = Some (RING_BUFFER_SUCCESS, Some n)"
    "ringBufferGetCapacity (Some rb) (Some x) = Some (RING_BUFFER_SUCCESS, Some c)"
    "unat n = length (rb_contents rb)" "unat c = unat (capacity rb) - 1"
    "ringBufferIsEmpty (Some rb) = Some (unat n = 0)" "ringBufferIsFull (Some rb) = Some (n = c)"
    "2 * unat (capacity rb) \<le> size_limit \<longrightarrow>
      (\<exists>a. ringBufferGetAvailableSpace (Some rb) (Some x) = Some (RING_BUFFER_SUCCESS, Some a) \<and> unat a + unat n = unat c)"
    using queries_exact [OF assms(1), of x] by blast
  have le: "unat n \<le> unat c"
    using rb_size_less [OF assms(1)] q(3,4) by simp
  then have diff: "unat (c - n) = unat c - unat n"
    by (simp add: unat_sub word_le_nat_alt)
  then have space: "2 * unat (capacity rb) \<le> size_limit \<longrightarrow>
      ringBufferGetAvailableSpace (Some rb) (Some x) = Some (RING_BUFFER_SUCCESS, Some (c - n))"
    using q(7) le by (metis add_diff_cancel_right' word_unat_eq_iff)
  obtain rb' where "queue_run rb_enq rb_deq rb ops = Some (fst ?run, rb')"
    using rb_fifo.run_refines [OF assms(1), of ops] assms(2) by (auto simp: rb_fits_def)
  moreover have "length (filter (\<lambda>op. op \<noteq> Deq) ops) \<le> unat (c - n) \<longrightarrow> Refused \<notin> set (fst ?run)"
    using list_run_no_refusal [of "rb_contents rb" ops "rb_bound rb"] diff le q(3,4) by (auto simp: rb_bound_def)
  moreover have "length (filter (\<lambda>op. op = Deq) ops) \<le> unat n \<longrightarrow> Nothing \<notin> set (fst ?run)"
    using list_run_no_lack [of ops "rb_contents rb" "rb_bound rb"] q(3) by simp
  ultimately show ?thesis
    using q(1-6) le space by blast
qed

theorem ring_queries_witness:
  "ringBufferGetAvailableSpace (Some ring_example) (Some 9) = Some (RING_BUFFER_SUCCESS, Some 2) \<and>
   (\<exists>outs rb'. queue_run rb_enq rb_deq ring_example [Enq [1, 2], Enq [3, 4], Deq] = Some (outs, rb') \<and> Refused \<notin> set outs)"
proof -
  let ?ops = "[Enq [1, 2], Enq [3, 4], Deq] :: u8 list qop list"
  have ops: "\<forall>x. Enq x \<in> set ?ops \<longrightarrow> length x = unat (elementSize ring_example)"
    by (auto simp: ring_example_def)
  have nums: "unat (capacity ring_example) - 1 = 2" "length (rb_contents ring_example) = 0"
    "length (filter (\<lambda>op. op \<noteq> Deq) ?ops) = 2" "2 * unat (capacity ring_example) \<le> size_limit"
    unfolding ring_example_ok by (simp_all add: ring_example_def)
  obtain n c outs rb' where q: "unat n = 0" "unat c = 2"
    "ringBufferGetAvailableSpace (Some ring_example) (Some 9) = Some (RING_BUFFER_SUCCESS, Some (c - n))"
    "queue_run rb_enq rb_deq ring_example ?ops = Some (outs, rb')"
    "2 \<le> unat (c - n) \<longrightarrow> Refused \<notin> set outs"
    using ring_queries [OF ring_example_ok(1) ops, of 9] nums by metis
  have "n = 0" "c = 2"
    using q(1,2) by (simp_all add: word_unat_eq_iff)
  with q show ?thesis by simp
qed

end
