(* ===== verification/Link.thy ===== *)
theory Link
  imports PacketParser PacketBuilder RingBufferApi
begin

text \<open>
  Packets one behind the other: the bytes that successive calls of the builder wrote, passed
  through a ring buffer of one-byte elements, and the answers of \<open>packetParserGetPacketSize\<close>
  and \<open>packetParserParse\<close> at the places where the packets begin.  Which code pushes, pops and
  parses when is the application's business and no part of the repository; the statements
  here are about the calls alone, made one after the other.
\<close>

text \<open>
  \<open>raw\<close> is what a successful build of the command and payload wrote into some buffer: the
  bytes of the reported length.
\<close>

definition built :: "u8 \<times> u8 list \<Rightarrow> u8 list \<Rightarrow> bool" where
  "built msg raw \<longleftrightarrow>
     length (snd msg) < 65536 \<and>
     (\<exists>m sz out m' len. unat sz \<le> length m \<and>
        packetBuilderBuildPacket (fst msg) (Some (snd msg)) (of_nat (length (snd msg))) (Some m) sz (Some out) =
          Some (PACKET_BUILDER_SUCCESS, Some m', Some len) \<and>
        raw = take (unat len) m')"

lemma built_frame:
  assumes "built msg raw"
  shows "length (snd msg) \<le> 255" "raw = frame (fst msg) (snd msg)"
proof -
  let ?pl = "snd msg" and ?n = "of_nat (length (snd msg)) :: u16"
  obtain m sz out m' len where b: "length ?pl < 65536" "unat sz \<le> length m"
    "packetBuilderBuildPacket (fst msg) (Some ?pl) ?n (Some m) sz (Some out) = Some (PACKET_BUILDER_SUCCESS, Some m', Some len)"
    "raw = take (unat len) m'"
    using assms by (auto simp: built_def)
  have n: "unat ?n = length ?pl"
    using b(1) by (simp add: unat_of_nat take_bit_nat_eq_self)
  have readable: "payload_readable (Some ?pl) ?n" "payload_bytes (Some ?pl) ?n = ?pl"
    using n by (simp_all add: payload_readable_def payload_bytes_def)
  have ok: "build_status (Some ?pl) ?n (Some m) sz (Some out) = PACKET_BUILDER_SUCCESS"
    using build_rejects [of "Some ?pl" ?n "Some m" sz "Some out" "fst msg"] b(3) by auto
  then show len255: "length ?pl \<le> 255"
    using n by (simp add: build_status_def split: if_splits)
  have "m' = frame (fst msg) ?pl @ drop (length ?pl + 7) m" "unat len = length ?pl + 7"
    using build_accepts [OF ok readable(1) b(2), of "fst msg"] b(3) readable(2) n u16_sizes(4) [of ?n] len255
    by simp_all
  with b(4) show "raw = frame (fst msg) ?pl" by simp
qed

text \<open>At the first byte of a packet, whatever follows it.\<close>

lemma packet_at_front:
  assumes "built msg raw"
  shows "\<exists>len pk. packetParserGetPacketSize (Some (raw @ rest)) = Some len \<and> unat len = length raw \<and>
    packetParserParse (Some (raw @ rest)) len (Some old) = Some (PACKET_PARSER_SUCCESS, Some pk) \<and>
    commandId pk = fst msg \<and> payload_of (raw @ rest) pk = snd msg"
proof -
  note b = built_frame [OF assms]
  let ?len = "of_nat (length (snd msg) + 7) :: size_t"
  have len: "unat ?len = length (snd msg) + 7"
    using b(1) by (intro unat_of_nat_size) simp
  have "packetParserParse (Some (raw @ rest)) ?len (Some old) =
      Some (PACKET_PARSER_SUCCESS, Some (packet_of (fst msg) (snd msg)))"
    using parse_eq [of ?len "raw @ rest" old] parse_frame [OF b(1), of "unat ?len" "fst msg" rest] len b(2) by simp
  then show ?thesis
    using getPacketSize_frame [OF b(1), of "fst msg" rest] payload_of_packet [OF b(1), of "fst msg" rest] len b(2)
    by (intro exI [of _ ?len] exI [of _ "packet_of (fst msg) (snd msg)"]) (simp add: packet_of_def)
qed

text \<open>The packets of a byte sequence: packet \<open>i\<close> begins at \<open>offs ! i\<close>.\<close>

definition packet_offsets :: "u8 list list \<Rightarrow> nat list" where
  "packet_offsets raws = map (\<lambda>i. length (concat (take i raws))) [0 ..< Suc (length raws)]"

lemma drop_to_packet:
  assumes "i < length raws"
  shows "drop (packet_offsets raws ! i) (concat raws) = raws ! i @ concat (drop (Suc i) raws)"
proof -
  have "concat raws = concat (take i raws) @ raws ! i @ concat (drop (Suc i) raws)"
    using arg_cong [OF id_take_nth_drop [OF assms], of concat] by simp
  moreover have "packet_offsets raws ! i = length (concat (take i raws))"
    using assms by (simp add: packet_offsets_def del: upt_Suc)
  ultimately show ?thesis
    by (metis append_eq_conv_conj)
qed

lemma packet_offsets_Suc:
  "i < length raws \<Longrightarrow> packet_offsets raws ! Suc i = packet_offsets raws ! i + length (raws ! i)"
  by (simp add: packet_offsets_def take_Suc_conv_app_nth del: upt_Suc)

lemma packets_in_sequence:
  assumes "list_all2 built msgs raws" "i < length msgs"
  shows "\<exists>len pk. packetParserGetPacketSize (Some (drop (packet_offsets raws ! i) (concat raws))) = Some len \<and>
    packet_offsets raws ! Suc i = packet_offsets raws ! i + unat len \<and>
    packetParserParse (Some (drop (packet_offsets raws ! i) (concat raws))) len (Some old) =
      Some (PACKET_PARSER_SUCCESS, Some pk) \<and>
    (commandId pk, payload_of (drop (packet_offsets raws ! i) (concat raws)) pk) = msgs ! i"
proof -
  have i: "i < length raws" and built: "built (msgs ! i) (raws ! i)"
    using assms by (auto simp: list_all2_conv_all_nth)
  from packet_at_front [OF built, of "concat (drop (Suc i) raws)" old]
  show ?thesis
    unfolding drop_to_packet [OF i] packet_offsets_Suc [OF i] by (metis prod.collapse)
qed

subsection \<open>Through a ring buffer\<close>

text \<open>C14: builder, ring buffer and parser fit together without loss.  Take the bytes that any
  sequence of successful builds wrote, one packet behind the other, and a ring buffer freshly
  initialised for one-byte elements, of any capacity.  When in any sequence of pushes and
  pops just these bytes were accepted, one by one and in order, then what was popped on the
  way followed by what \<open>capacity - 1\<close> further pops fetch is a byte sequence in which
  \<open>packetParserGetPacketSize\<close> leads from each packet to the next, from the first byte to behind
  the last one, and \<open>packetParserParse\<close> at each of these places succeeds with that
  length and gives back the command and the payload of the packet built, in the order built.\<close>

theorem packets_through_ring_buffer:
  assumes "list_all2 built msgs raws"
    and "2 \<le> unat cap" "unat cap \<le> length m" "length m < size_limit"
    and "\<forall>x. Enq x \<in> set ops \<longrightarrow> length x = 1"
  shows "\<exists>rb outs rb1 outs' rb'. ringBufferInit (Some old) (Some m) cap 1 = Some (RING_BUFFER_SUCCESS, Some rb) \<and>
    queue_run rb_enq rb_deq rb ops = Some (outs, rb1) \<and>
    queue_run rb_enq rb_deq rb1 (replicate (unat cap - 1) Deq) = Some (outs', rb') \<and>
    (accepted ops outs = map (\<lambda>b. [b]) (concat raws) \<longrightarrow>
      (\<exists>offs. length offs = Suc (length msgs) \<and> offs ! 0 = 0 \<and>
        offs ! length msgs = length (concat (delivered outs @ delivered outs')) \<and>
        (\<forall>i<length msgs. let bytes = drop (offs ! i) (concat (delivered outs @ delivered outs')) in
          \<exists>len pk. packetParserGetPacketSize (Some bytes) = Some len \<and> offs ! Suc i = offs ! i + unat len \<and>
            packetParserParse (Some bytes) len (Some pk0) = Some (PACKET_PARSER_SUCCESS, Some pk) \<and>
            (commandId pk, payload_of bytes pk) = msgs ! i)))"
proof -
  have one: "1 \<le> unat (1 :: size_t)" "unat cap * unat (1 :: size_t) \<le> length m"
    "\<forall>x. Enq x \<in> set ops \<longrightarrow> length x = unat (1 :: size_t)"
    using assms(3,5) by simp_all
  obtain rb outs rb1 outs' rb' where run:
    "ringBufferInit (Some old) (Some m) cap 1 = Some (RING_BUFFER_SUCCESS, Some rb)"
    "queue_run rb_enq rb_deq rb ops = Some (outs, rb1)"
    "queue_run rb_enq rb_deq rb1 (replicate (unat cap - 1) Deq) = Some (outs', rb')"
    "delivered outs @ delivered outs' = accepted ops outs"
    using fresh_ring_delivers [OF assms(2) one(1,2) assms(4) one(3), of old] by blast
  have single: "concat (map (\<lambda>b. [b]) xs) = xs" for xs :: "u8 list"
    by (induction xs) simp_all
  have len: "length msgs = length raws"
    using assms(1) by (rule list_all2_lengthD)
  have ends: "packet_offsets raws ! 0 = 0" "packet_offsets raws ! length msgs = length (concat raws)"
    "length (packet_offsets raws) = Suc (length msgs)"
    unfolding len by (simp_all add: packet_offsets_def del: upt_Suc)
  show ?thesis
    using run ends packets_in_sequence [OF assms(1), of _ pk0] single [of "concat raws"]
    by (intro exI [of _ rb] exI [of _ outs] exI [of _ rb1] exI [of _ outs'] exI [of _ rb'])
      (auto simp: Let_def intro!: exI [of _ "packet_offsets raws"])
qed

text \<open>Two packets, the second without payload, in a ring buffer that is popped twice on the way.\<close>

lemma built_examples:
  "built (0x42, [5]) [0xAA, 0x55, 0, 2, 0x42, 5, 0xD1, 0xAB]" "built (7, []) [0xAA, 0x55, 0, 1, 7, 0x8F, 0x4A]"
proof -
  have builds: "packetBuilderBuildPacket 0x42 (Some [5]) 1 (Some (replicate 8 0)) 8 (Some 0) =
      Some (PACKET_BUILDER_SUCCESS, Some [0xAA, 0x55, 0, 2, 0x42, 5, 0xD1, 0xAB], Some 8)"
    "packetBuilderBuildPacket 7 (Some []) 0 (Some (replicate 8 0)) 8 (Some 0) =
      Some (PACKET_BUILDER_SUCCESS, Some [0xAA, 0x55, 0, 1, 7, 0x8F, 0x4A, 0], Some 7)"
    by code_simp+
  have size: "unat (8 :: size_t) \<le> length (replicate 8 (0 :: u8))" by simp
  show "built (0x42, [5]) [0xAA, 0x55, 0, 2, 0x42, 5, 0xD1, 0xAB]"
    using builds(1) size unfolding built_def by fastforce
  show "built (7, []) [0xAA, 0x55, 0, 1, 7, 0x8F, 0x4A]"
    using builds(2) size unfolding built_def by fastforce
qed

theorem packets_through_ring_buffer_witness:
  "\<exists>rb outs rb1 outs' rb' len pk. ringBufferInit (Some ring_example) (Some (replicate 16 0)) 16 1 = Some (RING_BUFFER_SUCCESS, Some rb) \<and>
    queue_run rb_enq rb_deq rb ([Enq [0xAA], Enq [0x55], Enq [0], Deq, Deq] @
      map (\<lambda>b. Enq [b]) [2, 0x42, 5, 0xD1, 0xAB, 0xAA, 0x55, 0, 1, 7, 0x8F, 0x4A]) = Some (outs, rb1) \<and>
    queue_run rb_enq rb_deq rb1 (replicate 15 Deq) = Some (outs', rb') \<and>
    packetParserGetPacketSize (Some (concat (delivered outs @ delivered outs'))) = Some len \<and>
    packetParserParse (Some (concat (delivered outs @ delivered outs'))) len
      (Some \<lparr>commandId = 0, payloadLength = 0, payload = None\<rparr>) = Some (PACKET_PARSER_SUCCESS, Some pk) \<and>
    (commandId pk, payload_of (concat (delivered outs @ delivered outs')) pk) = (0x42, [5])"
proof -
  let ?ops = "[Enq [0xAA], Enq [0x55], Enq [0], Deq, Deq] @
      map (\<lambda>b. Enq [b]) [2, 0x42, 5, 0xD1, 0xAB, 0xAA, 0x55, 0, 1, 7, 0x8F, 0x4A] :: u8 list qop list"
  let ?raws = "[[0xAA, 0x55, 0, 2, 0x42, 5, 0xD1, 0xAB], [0xAA, 0x55, 0, 1, 7, 0x8F, 0x4A]] :: u8 list list"
  let ?pk0 = "\<lparr>commandId = 0, payloadLength = 0, payload = None\<rparr>"
  have ev: "case ringBufferInit (Some ring_example) (Some (replicate 16 0)) 16 1 of
      Some (st, Some rb) \<Rightarrow> (case queue_run rb_enq rb_deq rb ?ops of
        Some (outs, rb1) \<Rightarrow> accepted ?ops outs = map (\<lambda>b. [b]) (concat ?raws) | None \<Rightarrow> False) | _ \<Rightarrow> False"
    by code_simp
  have hyps: "list_all2 built [(0x42, [5]), (7, [])] ?raws" "2 \<le> unat (16 :: size_t)"
    "unat (16 :: size_t) \<le> length (replicate 16 (0 :: u8))" "length (replicate 16 (0 :: u8)) < size_limit"
    "\<forall>x. Enq x \<in> set ?ops \<longrightarrow> length x = 1"
    using built_examples by auto
  have k: "replicate (unat (16 :: size_t) - 1) Deq = replicate 15 (Deq :: u8 list qop)" by simp
  obtain rb outs rb1 outs' rb' where run:
    "ringBufferInit (Some ring_example) (Some (replicate 16 0)) 16 1 = Some (RING_BUFFER_SUCCESS, Some rb)"
    "queue_run rb_enq rb_deq rb ?ops = Some (outs, rb1)"
    "queue_run rb_enq rb_deq rb1 (replicate 15 Deq) = Some (outs', rb')"
    and parsed: "accepted ?ops outs = map (\<lambda>b. [b]) (concat ?raws) \<longrightarrow>
      (\<exists>offs. offs ! 0 = 0 \<and> (\<forall>i<length [(0x42 :: u8, [5 :: u8]), (7, [])].
        let bytes = drop (offs ! i) (concat (delivered outs @ delivered outs')) in
          \<exists>len pk. packetParserGetPacketSize (Some bytes) = Some len \<and> offs ! Suc i = offs ! i + unat len \<and>
            packetParserParse (Some bytes) len (Some ?pk0) = Some (PACKET_PARSER_SUCCESS, Some pk) \<and>
            (commandId pk, payload_of bytes pk) = [(0x42, [5]), (7, [])] ! i))"
    using packets_through_ring_buffer [OF hyps, of ring_example ?pk0] unfolding k by metis
  have "accepted ?ops outs = map (\<lambda>b. [b]) (concat ?raws)"
    using ev run(1,2) by simp
  with parsed obtain offs where "offs ! 0 = 0"
    "let bytes = drop (offs ! 0) (concat (delivered outs @ delivered outs')) in
          \<exists>len pk. packetParserGetPacketSize (Some bytes) = Some len \<and> offs ! Suc 0 = offs ! 0 + unat len \<and>
            packetParserParse (Some bytes) len (Some ?pk0) = Some (PACKET_PARSER_SUCCESS, Some pk) \<and>
            (commandId pk, payload_of bytes pk) = [(0x42, [5]), (7, [])] ! 0"
    by (metis length_greater_0_conv list.distinct(1))
  with run show ?thesis by (auto simp: Let_def)
qed

end
