(* ===== verification/SharedBuild.thy ===== *)
theory SharedBuild
  imports PacketBuilder
begin

text \<open>
  \<open>packetBuilderBuildPacket\<close> (\<open>src/packetBuilder.c\<close>) when payload and packet buffer lie in one
  object, such as a driver's frame buffer: both pointers are offsets into one memory, the
  buffer's never \<open>NULL\<close>, and each statement reads and writes that memory at the pointer plus
  the offset the code adds.  \<open>memcpy\<close> on overlapping regions is undefined.  The code writes
  the header, the length and the command before it copies the payload, so the layout decides
  what is sent.
\<close>

definition overlap :: "nat \<Rightarrow> nat \<Rightarrow> nat \<Rightarrow> nat \<Rightarrow> bool" where
  "overlap a m b n \<longleftrightarrow> a < b + n \<and> b < a + m"

definition copyPayloadIn :: "u8 list \<Rightarrow> nat ptr \<Rightarrow> u16 \<Rightarrow> nat \<Rightarrow> u8 list run" where
  "copyPayloadIn mem payload payloadLength packetBuffer =
     (if payloadLength > 0
      then do {
        src \<leftarrow> deref payload;
        if overlap src (unat payloadLength) (packetBuffer + PACKET_OFFSET_PAYLOAD) (unat payloadLength) then None
        else do {
          bytes \<leftarrow> rd_block mem src (unat payloadLength);
          wr_block mem (packetBuffer + PACKET_OFFSET_PAYLOAD) bytes
        }
      }
      else Some mem)"

definition packetBuilderBuildPacketIn ::
  "u8 list \<Rightarrow> u8 \<Rightarrow> nat ptr \<Rightarrow> u16 \<Rightarrow> nat \<Rightarrow> size_t \<Rightarrow> size_t ptr \<Rightarrow> (PacketBuilderStatus_t \<times> u8 list \<times> size_t ptr) run" where
  "packetBuilderBuildPacketIn mem commandId payload payloadLength packetBuffer packetBufferSize packetLength =
     (if packetLength = None
      then Some (PACKET_BUILDER_ERROR_NULL_POINTER, mem, packetLength)
      else if payload = None \<and> payloadLength > 0
      then Some (PACKET_BUILDER_ERROR_NULL_POINTER, mem, packetLength)
      else if unat payloadLength > PACKET_MAX_PAYLOAD_SIZE
      then Some (PACKET_BUILDER_ERROR_INVALID_LENGTH, mem, packetLength)
      else let totalPacketSize = (of_nat PACKET_MIN_PACKET_SIZE + ucast payloadLength :: size_t) in
      if packetBufferSize < totalPacketSize
      then Some (PACKET_BUILDER_ERROR_BUFFER_TOO_SMALL, mem, packetLength)
      else do {
        m \<leftarrow> wr mem (packetBuffer + PACKET_OFFSET_HEADER1) PACKET_HEADER1;
        m \<leftarrow> wr m (packetBuffer + PACKET_OFFSET_HEADER2) PACKET_HEADER2;
        let declaredLength = of_nat PACKET_COMMAND_SIZE + payloadLength;
        m \<leftarrow> writeUint16BE m (packetBuffer + PACKET_OFFSET_LENGTH) declaredLength;
        m \<leftarrow> wr m (packetBuffer + PACKET_OFFSET_COMMAND) commandId;
        m \<leftarrow> copyPayloadIn m payload payloadLength packetBuffer;
        let crcRegionSize = (of_nat PACKET_LENGTH_SIZE + ucast declaredLength :: size_t);
        (crcSts, crc) \<leftarrow> crc16Compute (Some (drop (packetBuffer + PACKET_OFFSET_LENGTH) m)) crcRegionSize (Some 0);
        if crcSts \<noteq> CRC16_SUCCESS
        then Some (PACKET_BUILDER_ERROR_CRC_FAILURE, m, packetLength)
        else do {
          let crcOffset = (of_nat PACKET_OFFSET_LENGTH + crcRegionSize :: size_t);
          crc \<leftarrow> deref crc;
          m \<leftarrow> writeUint16BE m (packetBuffer + unat crcOffset) crc;
          Some (PACKET_BUILDER_SUCCESS, m, Some totalPacketSize)
        }
      })"

subsection \<open>Access behind a prefix\<close>

lemma wr_prefix: "length pre = b \<Longrightarrow> wr (pre @ m) (b + i) x = map_option ((@) pre) (wr m i x)"
  by (auto simp: wr_def list_update_append)

lemma writeUint16BE_prefix:
  "length pre = b \<Longrightarrow> writeUint16BE (pre @ m) (b + off) v = map_option ((@) pre) (writeUint16BE m off v)"
  using wr_prefix [of pre b _ "Suc off"]
  by (cases "wr m off (ucast (drop_bit 8 v))") (simp_all add: writeUint16BE_def wr_prefix)

lemma wr_block_prefix:
  "length pre = b \<Longrightarrow> wr_block (pre @ m) (b + off) bs = map_option ((@) pre) (wr_block m off bs)"
  by (simp add: wr_block_def)

text \<open>The memory when the payload is copied: everything in front of it written.\<close>

definition before_copy :: "u8 list \<Rightarrow> u8 \<Rightarrow> u16 \<Rightarrow> nat \<Rightarrow> u8 list" where
  "before_copy mem cmd n b = take b mem @ [0xAA, 0x55] @ be16 (1 + n) @ cmd # drop (b + 5) mem"

lemma length_before_copy: "b + 5 \<le> length mem \<Longrightarrow> length (before_copy mem cmd n b) = length mem"
  by (simp add: before_copy_def)

lemma build_in_eq:
  fixes cmd :: u8
  assumes "unat n \<le> 255" "unat n + 7 \<le> unat sz" "b + unat sz \<le> length mem"
    and src: "case src of None \<Rightarrow> n = 0 | Some a \<Rightarrow> a + unat n \<le> length mem"
  defines "pl \<equiv> if n = 0 then [] else take (unat n) (drop (the src) (before_copy mem cmd n b))"
  shows "packetBuilderBuildPacketIn mem cmd src n b sz (Some old) =
    (if n > 0 \<and> overlap (the src) (unat n) (b + 5) (unat n) then None
     else Some (PACKET_BUILDER_SUCCESS, take b mem @ frame cmd pl @ drop (b + unat n + 7) mem, Some (7 + ucast n)))"
proof -
  define pre where "pre = take b mem"
  have pre: "length pre = b"
    using assms(3) by (simp add: pre_def)
  obtain m0 m1 m2 m3 m4 rest where m: "drop b mem = m0 # m1 # m2 # m3 # m4 # rest" "unat n + 2 \<le> length rest"
  proof -
    have "7 + unat n \<le> length (drop b mem)" using assms(2,3) by simp
    then show thesis using that by (rule split_buffer)
  qed
  have mem: "mem = pre @ m0 # m1 # m2 # m3 # m4 # rest"
    unfolding m(1) [symmetric] pre_def by simp
  have drops: "drop (b + 5) mem = rest" "drop (b + unat n + 7) mem = drop (unat n + 2) rest"
    using pre by (subst mem, simp add: eval_nat_numeral)+
  have before: "before_copy mem cmd n b = pre @ 0xAA # 0x55 # be16 (1 + n) @ cmd # rest"
    by (simp add: before_copy_def drops pre_def)
  have len: "length pl = unat n"
    using src length_before_copy [of b mem cmd n] assms(2,3) by (auto simp: pl_def word_gt_0 split: option.splits)
  note steps = build_steps [OF len assms(1) m(2)]
  have copy: "copyPayloadIn (pre @ 0xAA # 0x55 # be16 (1 + n) @ cmd # rest) src n b =
    (if n > 0 \<and> overlap (the src) (unat n) (b + 5) (unat n) then None
     else Some (pre @ 0xAA # 0x55 # be16 (1 + n) @ cmd # pl @ drop (unat n) rest))"
  proof (cases "n = 0")
    case True
    then show ?thesis by (simp add: copyPayloadIn_def pl_def)
  next
    case False
    then obtain a where a: "src = Some a" "a + unat n \<le> length mem"
      using src by (cases src) auto
    let ?now = "pre @ 0xAA # 0x55 # be16 (1 + n) @ cmd # rest"
    have "length ?now = length mem"
      unfolding before [symmetric] using assms(2,3) by (intro length_before_copy) simp
    then have rd: "rd_block ?now a (unat n) = Some pl"
      using a False by (simp add: pl_def before)
    have "wr_block ?now (b + 5) pl = Some (pre @ 0xAA # 0x55 # be16 (1 + n) @ cmd # pl @ drop (unat n) rest)"
      unfolding wr_block_prefix [OF pre] using m(2) len by (simp add: be16_def eval_nat_numeral)
    with rd False a(1) show ?thesis
      by (simp add: copyPayloadIn_def packet_vals word_gt_0 del: wr_block_Some rd_block_Some)
  qed
  have guards: "\<not> unat n > PACKET_MAX_PAYLOAD_SIZE" "\<not> sz < 7 + ucast n" "\<not> (src = None \<and> n > 0)"
    using assms(1,2) src u16_sizes(4) [OF assms(1)] by (cases src; auto simp: packet_vals word_less_nat_alt)+
  have w: "wr (pre @ m0 # m1 # m2 # m3 # m4 # rest) b 0xAA = Some (pre @ 0xAA # m1 # m2 # m3 # m4 # rest)"
    "wr (pre @ 0xAA # m1 # m2 # m3 # m4 # rest) (Suc b) 0x55 = Some (pre @ 0xAA # 0x55 # m2 # m3 # m4 # rest)"
    "writeUint16BE (pre @ 0xAA # 0x55 # m2 # m3 # m4 # rest) (Suc (Suc b)) (1 + n) =
      Some (pre @ 0xAA # 0x55 # be16 (1 + n) @ m4 # rest)"
    "wr (pre @ 0xAA # 0x55 # be16 (1 + n) @ m4 # rest) (b + 4) cmd = Some (pre @ 0xAA # 0x55 # be16 (1 + n) @ cmd # rest)"
    "drop (Suc (Suc b)) (pre @ 0xAA # 0x55 # xs) = xs"
    "writeUint16BE (pre @ 0xAA # 0x55 # be16 (1 + n) @ cmd # pl @ drop (unat n) rest) (b + (unat n + 5))
      (crc16_of (frame_body cmd pl)) = Some (pre @ frame cmd pl @ drop (unat n + 2) rest)" for xs
    using wr_prefix [OF pre, of _ 0] wr_prefix [OF pre, of _ 1] wr_prefix [OF pre, of _ 4]
      writeUint16BE_prefix [OF pre, of _ 2] writeUint16BE_prefix [OF pre, of _ "unat n + 5"] steps pre
    by simp_all
  have "packetBuilderBuildPacketIn (pre @ m0 # m1 # m2 # m3 # m4 # rest) cmd src n b sz (Some old) =
    (if n > 0 \<and> overlap (the src) (unat n) (b + 5) (unat n) then None
     else Some (PACKET_BUILDER_SUCCESS, pre @ frame cmd pl @ drop (unat n + 2) rest, Some (7 + ucast n)))"
  proof (cases "n > 0 \<and> overlap (the src) (unat n) (b + 5) (unat n)")
    case True
    with copy have "copyPayloadIn (pre @ 0xAA # 0x55 # be16 (1 + n) @ cmd # rest) src n b = None"
      by (simp only: if_True simp_thms)
    then show ?thesis
      unfolding if_P [OF True] using guards unfolding packetBuilderBuildPacketIn_def packet_vals
      by (simp add: Let_def w)
  next
    case False
    with copy have "copyPayloadIn (pre @ 0xAA # 0x55 # be16 (1 + n) @ cmd # rest) src n b =
        Some (pre @ 0xAA # 0x55 # be16 (1 + n) @ cmd # pl @ drop (unat n) rest)"
      by (simp only: if_False)
    then show ?thesis
      unfolding if_not_P [OF False] using guards unfolding packetBuilderBuildPacketIn_def packet_vals
      by (simp add: Let_def w steps(3) u16_sizes [OF assms(1)] numeral_2_eq_2 [symmetric] del: drop_append)
  qed
  then show ?thesis
    unfolding pre_def [symmetric] drops mem [symmetric] .
qed

lemma nth_before_copy:
  assumes "b + 5 \<le> length mem" "i < length mem"
  shows "before_copy mem cmd n b ! i =
    (if b \<le> i \<and> i < b + 5 then ([0xAA, 0x55] @ be16 (1 + n) @ [cmd]) ! (i - b) else mem ! i)"
proof -
  have "before_copy mem cmd n b = take b mem @ ([0xAA, 0x55] @ be16 (1 + n) @ [cmd]) @ drop (b + 5) mem"
    by (simp add: before_copy_def)
  moreover have "length ([0xAA, 0x55] @ be16 (1 + n) @ [cmd]) = 5" by simp
  ultimately show ?thesis
    using assms by (simp only: nth_append length_take length_append min_absorb2) auto
qed

subsection \<open>Property\<close>

text \<open>C22: where the payload lies decides what is sent.  With payload and packet buffer in one
  memory, a build whose payload overlaps its own place in the packet, in particular a payload
  that is already in place, is undefined (\<open>memcpy\<close>); any other build succeeds, changes
  nothing outside the packet and sends a valid frame, whose payload is the caller's wherever
  it lies outside the five bytes of header, length and command, and these five bytes where
  it overlaps them.\<close>

theorem build_in_one_memory:
  assumes "0 < unat n" "unat n \<le> 255" "unat n + 7 \<le> unat sz" "b + unat sz \<le> length mem" "a + unat n \<le> length mem"
  shows "if overlap a (unat n) (b + 5) (unat n)
    then packetBuilderBuildPacketIn mem cmd (Some a) n b sz (Some old) = None
    else \<exists>pl. packetBuilderBuildPacketIn mem cmd (Some a) n b sz (Some old) =
        Some (PACKET_BUILDER_SUCCESS, take b mem @ frame cmd pl @ drop (b + unat n + 7) mem, Some (7 + ucast n)) \<and>
      length pl = unat n \<and>
      (\<forall>i<unat n. pl ! i = (if b \<le> a + i \<and> a + i < b + 5
         then ([0xAA, 0x55] @ be16 (1 + n) @ [cmd]) ! (a + i - b) else mem ! (a + i)))"
proof -
  let ?pl = "take (unat n) (drop a (before_copy mem cmd n b))"
  have len: "b + 5 \<le> length mem" "length (before_copy mem cmd n b) = length mem"
    using assms length_before_copy [of b mem cmd n] by simp_all
  have n: "0 < n" "n \<noteq> 0"
    using assms(1) by (auto simp: word_gt_0)
  have "?pl ! i = (if b \<le> a + i \<and> a + i < b + 5
      then ([0xAA, 0x55] @ be16 (1 + n) @ [cmd]) ! (a + i - b) else mem ! (a + i))" if "i < unat n" for i
    using that len assms(5) nth_before_copy [OF len(1), of "a + i" cmd n] by simp
  moreover have "length ?pl = unat n"
    using len assms(5) by simp
  ultimately show ?thesis
    using build_in_eq [OF assms(2-4), of "Some a" cmd old] assms(5) n by (auto intro!: exI [of _ ?pl])
qed

theorem build_in_one_memory_witness:
  "packetBuilderBuildPacketIn [0, 1, 2, 3, 4, 5, 6, 7, 8, 9] 0x42 (Some 5) 2 0 10 (Some 0) = None \<and>
   (\<exists>pl. packetBuilderBuildPacketIn [0, 1, 2, 3, 4, 5, 6, 7, 8, 9, 10, 11] 0x42 (Some 1) 2 2 10 (Some 0) =
      Some (PACKET_BUILDER_SUCCESS, [0, 1] @ frame 0x42 pl @ [11], Some 9) \<and> pl ! 0 = 1 \<and> pl ! 1 = 0xAA)"
  using build_in_one_memory [of 2 10 0 "[0, 1, 2, 3, 4, 5, 6, 7, 8, 9]" 5 "0x42" 0]
    build_in_one_memory [of 2 10 2 "[0, 1, 2, 3, 4, 5, 6, 7, 8, 9, 10, 11]" 1 "0x42" 0]
  by (auto simp: overlap_def)

end
