(* ===== verification/Allocator.thy ===== *)
theory Allocator
  imports Prelude
begin

text \<open>
  The contract of a fixed-size block allocator, as an interface.  A client sees the
  operations \<open>acquire\<close> and \<open>release\<close>; the abstraction gives the stack of free blocks (next
  to be granted first) and all blocks of the pool.  Inside the locale whole sequences of
  operations are shown to behave as a stack of free blocks does, and, from that, that no
  block ever has two holders.
\<close>

datatype 'a aop = Acquire | Release 'a
datatype 'a aout = Granted 'a | Exhausted | Freed | Rejected

fun stack_step :: "'a list \<Rightarrow> 'a list \<Rightarrow> 'a aop \<Rightarrow> 'a aout \<times> 'a list" where
  "stack_step bs [] Acquire = (Exhausted, [])"
| "stack_step bs (x # xs) Acquire = (Granted x, xs)"
| "stack_step bs xs (Release x) =
     (if x \<in> set bs \<and> x \<notin> set xs then (Freed, x # xs) else (Rejected, xs))"

fun stack_run :: "'a list \<Rightarrow> 'a list \<Rightarrow> 'a aop list \<Rightarrow> 'a aout list \<times> 'a list" where
  "stack_run bs xs [] = ([], xs)"
| "stack_run bs xs (op # ops) =
     (let (out, ys) = stack_step bs xs op; (outs, zs) = stack_run bs ys ops in (out # outs, zs))"

fun alloc_run ::
  "('p \<Rightarrow> ('a aout \<times> 'p) run) \<Rightarrow> ('p \<Rightarrow> 'a \<Rightarrow> ('a aout \<times> 'p) run) \<Rightarrow>
   'p \<Rightarrow> 'a aop list \<Rightarrow> ('a aout list \<times> 'p) run" where
  "alloc_run acquire release p [] = Some ([], p)"
| "alloc_run acquire release p (op # ops) =
     do {
       (out, p') \<leftarrow> (case op of Acquire \<Rightarrow> acquire p | Release x \<Rightarrow> release p x);
       (outs, p'') \<leftarrow> alloc_run acquire release p' ops;
       Some (out # outs, p'')
     }"

text \<open>The client's ledger: the blocks it was granted and has not given back.\<close>

fun held :: "'a list \<Rightarrow> 'a aop list \<Rightarrow> 'a aout list \<Rightarrow> 'a list" where
  "held hs (Acquire # ops) (Granted x # outs) = held (x # hs) ops outs"
| "held hs (Release x # ops) (Freed # outs) = held (remove1 x hs) ops outs"
| "held hs (op # ops) (out # outs) = held hs ops outs"
| "held hs _ _ = hs"

lemma stack_run_held:
  assumes "distinct xs" "set xs \<subseteq> set bs" "distinct hs" "set hs = set bs - set xs"
  shows "distinct (held hs ops (fst (stack_run bs xs ops))) \<and>
    distinct (snd (stack_run bs xs ops)) \<and> set (snd (stack_run bs xs ops)) \<subseteq> set bs \<and>
    set (held hs ops (fst (stack_run bs xs ops))) = set bs - set (snd (stack_run bs xs ops))"
  using assms
proof (induction ops arbitrary: xs hs)
  case Nil
  then show ?case by simp
next
  case (Cons op ops)
  show ?case
  proof (cases "(bs, xs, op)" rule: stack_step.cases)
    case (1 bs')
    with Cons show ?thesis by (simp add: case_prod_unfold Let_def)
  next
    case (2 bs' x ys)
    with Cons.prems have "distinct ys" "set ys \<subseteq> set bs" "distinct (x # hs)" "set (x # hs) = set bs - set ys"
      by auto
    from Cons.IH [OF this] 2 show ?thesis
      by (simp add: case_prod_unfold Let_def)
  next
    case (3 bs' ys x)
    show ?thesis
    proof (cases "x \<in> set bs \<and> x \<notin> set xs")
      case True
      with Cons.prems have "distinct (x # xs)" "set (x # xs) \<subseteq> set bs" "distinct (remove1 x hs)"
          "set (remove1 x hs) = set bs - set (x # xs)"
        by auto
      from Cons.IH [OF this] 3 True show ?thesis
        by (simp add: case_prod_unfold Let_def)
    next
      case False
      with 3 Cons.IH [OF Cons.prems] show ?thesis
        by (auto simp: case_prod_unfold Let_def)
    qed
  qed
qed

text \<open>Giving back blocks that are out puts them all on the stack; taking as many as there are empties it.\<close>

lemma stack_run_releases:
  "distinct rs \<Longrightarrow> set rs \<subseteq> set bs - set xs \<Longrightarrow>
   stack_run bs xs (map Release rs) = (replicate (length rs) Freed, rev rs @ xs)"
proof (induction rs arbitrary: xs)
  case (Cons r rs)
  then have "distinct rs" "set rs \<subseteq> set bs - set (r # xs)" by auto
  from Cons.IH [OF this] Cons.prems show ?case by simp
qed simp

lemma stack_run_acquires:
  "stack_run bs xs (replicate (length xs) Acquire) = (map Granted xs, [])"
  by (induction xs) auto

locale block_allocator =
  fixes acquire :: "'p \<Rightarrow> ('a aout \<times> 'p) run"
    and release :: "'p \<Rightarrow> 'a \<Rightarrow> ('a aout \<times> 'p) run"
    and free :: "'p \<Rightarrow> 'a list"
    and blocks :: "'p \<Rightarrow> 'a list"
    and inv :: "'p \<Rightarrow> bool"
  assumes free_distinct: "inv p \<Longrightarrow> distinct (free p)"
    and free_blocks: "inv p \<Longrightarrow> set (free p) \<subseteq> set (blocks p)"
    and acquire_Nil: "inv p \<Longrightarrow> free p = [] \<Longrightarrow> acquire p = Some (Exhausted, p)"
    and acquire_Cons: "inv p \<Longrightarrow> free p = x # xs \<Longrightarrow>
      \<exists>p'. acquire p = Some (Granted x, p') \<and> inv p' \<and> free p' = xs \<and> blocks p' = blocks p"
    and release_held: "inv p \<Longrightarrow> x \<in> set (blocks p) \<Longrightarrow> x \<notin> set (free p) \<Longrightarrow>
      \<exists>p'. release p x = Some (Freed, p') \<and> inv p' \<and> free p' = x # free p \<and> blocks p' = blocks p"
    and release_other: "inv p \<Longrightarrow> \<not> (x \<in> set (blocks p) \<and> x \<notin> set (free p)) \<Longrightarrow>
      release p x = Some (Rejected, p)"
begin

lemma step_refines:
  assumes "inv p"
  obtains p' where
    "(case op of Acquire \<Rightarrow> acquire p | Release x \<Rightarrow> release p x) =
       Some (fst (stack_step (blocks p) (free p) op), p')"
    "free p' = snd (stack_step (blocks p) (free p) op)" "inv p'" "blocks p' = blocks p"
proof (cases op)
  case Acquire
  show thesis
  proof (cases "free p")
    case Nil
    with acquire_Nil [OF assms] that [of p] Acquire assms show thesis by auto
  next
    case (Cons x xs)
    from acquire_Cons [OF assms this] that Acquire Cons show thesis by auto
  qed
next
  case (Release x)
  show thesis
  proof (cases "x \<in> set (blocks p) \<and> x \<notin> set (free p)")
    case True
    then obtain p' where "release p x = Some (Freed, p')" "inv p'" "free p' = x # free p" "blocks p' = blocks p"
      using release_held [OF assms] by blast
    with that [of p'] Release True show thesis by auto
  next
    case False
    with release_other [OF assms False] that [of p] Release assms show thesis by auto
  qed
qed

theorem run_refines:
  assumes "inv p"
  shows "\<exists>p'. alloc_run acquire release p ops = Some (fst (stack_run (blocks p) (free p) ops), p') \<and>
      free p' = snd (stack_run (blocks p) (free p) ops) \<and> inv p' \<and> blocks p' = blocks p"
  using assms
proof (induction ops arbitrary: p)
  case Nil
  then show ?case by simp
next
  case (Cons op ops)
  obtain p' where p':
    "(case op of Acquire \<Rightarrow> acquire p | Release x \<Rightarrow> release p x) =
       Some (fst (stack_step (blocks p) (free p) op), p')"
    "free p' = snd (stack_step (blocks p) (free p) op)" "inv p'" "blocks p' = blocks p"
    using Cons.prems by (rule step_refines)
  from Cons.IH [OF p'(3)] p' show ?case
    by (fastforce simp: case_prod_unfold Let_def)
qed

text \<open>From a full pool, the ledger of every run is the complement of the free stack.\<close>

theorem run_held:
  assumes "inv p" "set (free p) = set (blocks p)"
  shows "\<exists>outs p'. alloc_run acquire release p ops = Some (outs, p') \<and> inv p' \<and>
      distinct (held [] ops outs) \<and>
      set (held [] ops outs) = set (blocks p) - set (free p')"
  using run_refines [OF assms(1), of ops] assms(2)
    stack_run_held [of "free p" "blocks p" "[]" ops] free_distinct [OF assms(1)] by auto

text \<open>Nothing leaks: once the clients give back what they hold, in any order, every block can be granted again.\<close>

theorem run_recovers:
  assumes "inv p" "set (free p) = set (blocks p)" "distinct (blocks p)"
  shows "\<exists>outs p1. alloc_run acquire release p ops = Some (outs, p1) \<and>
      (\<forall>rs. distinct rs \<longrightarrow> set rs = set (held [] ops outs) \<longrightarrow>
        (\<exists>p2 bs p3. alloc_run acquire release p1 (map Release rs) = Some (replicate (length rs) Freed, p2) \<and>
          alloc_run acquire release p2 (replicate (length (blocks p)) Acquire) = Some (map Granted bs, p3) \<and>
          distinct bs \<and> set bs = set (blocks p)))"
proof -
  obtain p1 where p1: "alloc_run acquire release p ops = Some (fst (stack_run (blocks p) (free p) ops), p1)"
    "free p1 = snd (stack_run (blocks p) (free p) ops)" "inv p1" "blocks p1 = blocks p"
    using run_refines [OF assms(1), of ops] by blast
  let ?held = "held [] ops (fst (stack_run (blocks p) (free p) ops))"
  have held: "distinct (free p1)" "set (free p1) \<subseteq> set (blocks p)" "set ?held = set (blocks p) - set (free p1)"
    using stack_run_held [of "free p" "blocks p" "[]" ops] free_distinct [OF assms(1)] assms(2) p1(2) by simp_all
  have "\<exists>p2 bs p3. alloc_run acquire release p1 (map Release rs) = Some (replicate (length rs) Freed, p2) \<and>
      alloc_run acquire release p2 (replicate (length (blocks p)) Acquire) = Some (map Granted bs, p3) \<and>
      distinct bs \<and> set bs = set (blocks p)" if rs: "distinct rs" "set rs = set ?held" for rs
  proof -
    have given: "stack_run (blocks p1) (free p1) (map Release rs) = (replicate (length rs) Freed, rev rs @ free p1)"
      using rs held(3) p1(4) by (intro stack_run_releases) auto
    obtain p2 where p2: "alloc_run acquire release p1 (map Release rs) = Some (replicate (length rs) Freed, p2)"
      "free p2 = rev rs @ free p1" "inv p2" "blocks p2 = blocks p"
      using run_refines [OF p1(3), of "map Release rs"] given p1(4) by auto
    have all: "distinct (free p2)" "set (free p2) = set (blocks p)"
      using rs held p2(2) by auto
    then have "length (free p2) = length (blocks p)"
      using assms(3) by (metis distinct_card)
    then have "\<exists>p3. alloc_run acquire release p2 (replicate (length (blocks p)) Acquire) = Some (map Granted (free p2), p3)"
      using run_refines [OF p2(3), of "replicate (length (blocks p)) Acquire"] stack_run_acquires [of "blocks p2" "free p2"]
      by auto
    with p2(1) all show ?thesis by blast
  qed
  with p1(1) show ?thesis by blast
qed

end

end
