(* ===== verification/MemoryPool.thy ===== *)
theory MemoryPool
  imports Allocator
begin

text \<open>
  The fixed-size memory pool (\<open>include/memoryPool.h\<close>, \<open>src/memoryPool.c\<close>).  The block
  storage is an address (\<open>uintptr_t\<close>, 0 is \<open>NULL\<close>): the pool never looks into a block, it
  only hands out and takes back addresses, so address arithmetic is all there is to model.
  The \<open>state\<close> and \<open>freeStack\<close> arrays are bounds-checked lists; the caller's contract that
  the three regions are separate is built into their being separate fields.  The pool
  provides the interface \<open>block_allocator\<close>.
\<close>

text \<open>The values of \<open>MemoryPoolBlockState_t\<close>, as the \<open>uint8_t\<close> entries of \<open>state\<close> hold them.\<close>

definition MEMORY_POOL_BLOCK_FREE :: u8 where "MEMORY_POOL_BLOCK_FREE = 0"
definition MEMORY_POOL_BLOCK_ALLOCATED :: u8 where "MEMORY_POOL_BLOCK_ALLOCATED = 1"

lemmas block_states = MEMORY_POOL_BLOCK_FREE_def MEMORY_POOL_BLOCK_ALLOCATED_def

record MemoryPool_t =
  storage :: uintptr_t
  state :: "u8 list ptr"
  freeStack :: "size_t list ptr"
  blockSize :: size_t
  blockCount :: size_t
  freeCount :: size_t
  initialized :: bool

datatype MemoryPoolStatus_t =
    MEMORY_POOL_SUCCESS
  | MEMORY_POOL_ERROR_NULL_POINTER
  | MEMORY_POOL_ERROR_NOT_INITIALIZED
  | MEMORY_POOL_ERROR_ALREADY_INITIALIZED
  | MEMORY_POOL_ERROR_INVALID_BLOCK_SIZE
  | MEMORY_POOL_ERROR_INVALID_BLOCK_COUNT
  | MEMORY_POOL_ERROR_SIZE_OVERFLOW
  | MEMORY_POOL_ERROR_POOL_FULL
  | MEMORY_POOL_ERROR_INVALID_BLOCK

definition SIZE_MAX :: size_t where "SIZE_MAX = - 1"
definition UINTPTR_MAX :: uintptr_t where "UINTPTR_MAX = - 1"

definition validatePool :: "MemoryPool_t ptr \<Rightarrow> MemoryPoolStatus_t" where
  "validatePool pool =
     (case pool of
        None \<Rightarrow> MEMORY_POOL_ERROR_NULL_POINTER
      | Some p \<Rightarrow> if \<not> initialized p then MEMORY_POOL_ERROR_NOT_INITIALIZED else MEMORY_POOL_SUCCESS)"

definition memoryPoolInit ::
  "MemoryPool_t ptr \<Rightarrow> uintptr_t \<Rightarrow> u8 list ptr \<Rightarrow> size_t list ptr \<Rightarrow> size_t \<Rightarrow> size_t \<Rightarrow>
   (MemoryPoolStatus_t \<times> MemoryPool_t ptr) run" where
  "memoryPoolInit pool stor st fs bsize bcount =
     (if pool = None \<or> stor = 0 \<or> st = None \<or> fs = None
      then Some (MEMORY_POOL_ERROR_NULL_POINTER, pool)
      else do {
        p \<leftarrow> deref pool;
        if initialized p then Some (MEMORY_POOL_ERROR_ALREADY_INITIALIZED, pool)
        else if bsize = 0 then Some (MEMORY_POOL_ERROR_INVALID_BLOCK_SIZE, pool)
        else if bcount = 0 then Some (MEMORY_POOL_ERROR_INVALID_BLOCK_COUNT, pool)
        else do {
          quota \<leftarrow> c_div SIZE_MAX bcount;
          if bsize > quota then Some (MEMORY_POOL_ERROR_SIZE_OVERFLOW, pool)
          else do {
            st0 \<leftarrow> deref st;
            fs0 \<leftarrow> deref fs;
            (st1, fs1) \<leftarrow> for_upto (unat bcount) 0
              (\<lambda>i (s, f). do {
                 s' \<leftarrow> wr s i MEMORY_POOL_BLOCK_FREE;
                 f' \<leftarrow> wr f i (of_nat i);
                 Some (s', f')
               }) (st0, fs0);
            Some (MEMORY_POOL_SUCCESS,
              Some (p\<lparr>storage := stor, state := Some st1, freeStack := Some fs1, blockSize := bsize,
                blockCount := bcount, freeCount := bcount, initialized := True\<rparr>))
          }
        }
      })"

definition memoryPoolAcquire ::
  "MemoryPool_t ptr \<Rightarrow> uintptr_t ptr \<Rightarrow> (MemoryPoolStatus_t \<times> MemoryPool_t ptr \<times> uintptr_t ptr) run" where
  "memoryPoolAcquire pool block =
     (if block = None then Some (MEMORY_POOL_ERROR_NULL_POINTER, pool, block)
      else if validatePool pool \<noteq> MEMORY_POOL_SUCCESS then Some (validatePool pool, pool, block)
      else do {
        p \<leftarrow> deref pool;
        if freeCount p = 0 then Some (MEMORY_POOL_ERROR_POOL_FULL, pool, block)
        else do {
          fs \<leftarrow> deref (freeStack p);
          st \<leftarrow> deref (state p);
          index \<leftarrow> rd fs (unat (freeCount p - 1));
          st' \<leftarrow> wr st (unat index) MEMORY_POOL_BLOCK_ALLOCATED;
          Some (MEMORY_POOL_SUCCESS, Some (p\<lparr>freeCount := freeCount p - 1, state := Some st'\<rparr>),
            Some (storage p + index * blockSize p))
        }
      })"

definition memoryPoolRelease ::
  "MemoryPool_t ptr \<Rightarrow> uintptr_t \<Rightarrow> (MemoryPoolStatus_t \<times> MemoryPool_t ptr) run" where
  "memoryPoolRelease pool block =
     (if validatePool pool \<noteq> MEMORY_POOL_SUCCESS then Some (validatePool pool, pool)
      else if block = 0 then Some (MEMORY_POOL_ERROR_INVALID_BLOCK, pool)
      else do {
        p \<leftarrow> deref pool;
        let storageStart = storage p;
        let totalSize = blockSize p * blockCount p;
        if storageStart > UINTPTR_MAX - totalSize then Some (MEMORY_POOL_ERROR_INVALID_BLOCK, pool)
        else do {
          let storageEnd = storageStart + totalSize;
          if block < storageStart \<or> block \<ge> storageEnd then Some (MEMORY_POOL_ERROR_INVALID_BLOCK, pool)
          else do {
            offset \<leftarrow> c_mod (block - storageStart) (blockSize p);
            if offset \<noteq> 0 then Some (MEMORY_POOL_ERROR_INVALID_BLOCK, pool)
            else do {
              index \<leftarrow> c_div (block - storageStart) (blockSize p);
              if index \<ge> blockCount p then Some (MEMORY_POOL_ERROR_INVALID_BLOCK, pool)
              else do {
                st \<leftarrow> deref (state p);
                s \<leftarrow> rd st (unat index);
                if s \<noteq> MEMORY_POOL_BLOCK_ALLOCATED then Some (MEMORY_POOL_ERROR_INVALID_BLOCK, pool)
                else do {
                  st' \<leftarrow> wr st (unat index) MEMORY_POOL_BLOCK_FREE;
                  fs \<leftarrow> deref (freeStack p);
                  fs' \<leftarrow> wr fs (unat (freeCount p)) index;
                  Some (MEMORY_POOL_SUCCESS,
                    Some (p\<lparr>state := Some st', freeStack := Some fs', freeCount := freeCount p + 1\<rparr>))
                }
              }
            }
          }
        }
      })"

definition memoryPoolGetFreeCount ::
  "MemoryPool_t ptr \<Rightarrow> size_t ptr \<Rightarrow> (MemoryPoolStatus_t \<times> size_t ptr) run" where
  "memoryPoolGetFreeCount pool out =
     (if out = None then Some (MEMORY_POOL_ERROR_NULL_POINTER, out)
      else if validatePool pool \<noteq> MEMORY_POOL_SUCCESS then Some (validatePool pool, out)
      else do { p \<leftarrow> deref pool; Some (MEMORY_POOL_SUCCESS, Some (freeCount p)) })"

definition memoryPoolGetUsedCount ::
  "MemoryPool_t ptr \<Rightarrow> size_t ptr \<Rightarrow> (MemoryPoolStatus_t \<times> size_t ptr) run" where
  "memoryPoolGetUsedCount pool usedCount =
     (if usedCount = None then Some (MEMORY_POOL_ERROR_NULL_POINTER, usedCount)
      else if validatePool pool \<noteq> MEMORY_POOL_SUCCESS then Some (validatePool pool, usedCount)
      else do { p \<leftarrow> deref pool; Some (MEMORY_POOL_SUCCESS, Some (blockCount p - freeCount p)) })"

definition memoryPoolGetCapacity ::
  "MemoryPool_t ptr \<Rightarrow> size_t ptr \<Rightarrow> (MemoryPoolStatus_t \<times> size_t ptr) run" where
  "memoryPoolGetCapacity pool out =
     (if out = None then Some (MEMORY_POOL_ERROR_NULL_POINTER, out)
      else if validatePool pool \<noteq> MEMORY_POOL_SUCCESS then Some (validatePool pool, out)
      else do { p \<leftarrow> deref pool; Some (MEMORY_POOL_SUCCESS, Some (blockCount p)) })"

definition memoryPoolGetBlockSize ::
  "MemoryPool_t ptr \<Rightarrow> size_t ptr \<Rightarrow> (MemoryPoolStatus_t \<times> size_t ptr) run" where
  "memoryPoolGetBlockSize pool out =
     (if out = None then Some (MEMORY_POOL_ERROR_NULL_POINTER, out)
      else if validatePool pool \<noteq> MEMORY_POOL_SUCCESS then Some (validatePool pool, out)
      else do { p \<leftarrow> deref pool; Some (MEMORY_POOL_SUCCESS, Some (blockSize p)) })"

lemma validatePool_Some [simp]: "initialized p \<Longrightarrow> validatePool (Some p) = MEMORY_POOL_SUCCESS"
  by (simp add: validatePool_def)

subsection \<open>The invariant and the abstraction\<close>

definition mp_address :: "MemoryPool_t \<Rightarrow> nat \<Rightarrow> uintptr_t" where
  "mp_address p i = storage p + of_nat i * blockSize p"

definition mp_blocks :: "MemoryPool_t \<Rightarrow> uintptr_t list" where
  "mp_blocks p = map (mp_address p) [0 ..< unat (blockCount p)]"

text \<open>The stack entries in use, top first, as block indices and as addresses.\<close>

definition mp_indices :: "MemoryPool_t \<Rightarrow> nat list" where
  "mp_indices p = map unat (rev (take (unat (freeCount p)) (the (freeStack p))))"

definition mp_free :: "MemoryPool_t \<Rightarrow> uintptr_t list" where
  "mp_free p = map (mp_address p) (mp_indices p)"

text \<open>
  The pool's storage is a real object: it does not wrap around the end of the address
  space.  \<open>memoryPoolInit\<close> does not check this; it is the caller's side of the contract.
\<close>

definition mp_region :: "MemoryPool_t \<Rightarrow> bool" where
  "mp_region p \<longleftrightarrow> storage p \<noteq> 0 \<and>
     unat (storage p) + unat (blockSize p) * unat (blockCount p) < size_limit"

definition mp_inv :: "MemoryPool_t \<Rightarrow> bool" where
  "mp_inv p \<longleftrightarrow> initialized p \<and> mp_region p \<and> 0 < unat (blockSize p) \<and> 0 < unat (blockCount p) \<and>
     unat (freeCount p) \<le> unat (blockCount p) \<and>
     (case state p of None \<Rightarrow> False | Some st \<Rightarrow>
      case freeStack p of None \<Rightarrow> False | Some fs \<Rightarrow>
        unat (blockCount p) \<le> length st \<and> unat (blockCount p) \<le> length fs \<and>
        distinct (mp_indices p) \<and> (\<forall>i\<in>set (mp_indices p). i < unat (blockCount p)) \<and>
        (\<forall>i<unat (blockCount p). st ! i =
           (if i \<in> set (mp_indices p) then MEMORY_POOL_BLOCK_FREE else MEMORY_POOL_BLOCK_ALLOCATED)))"

lemma mp_invE:
  assumes "mp_inv p"
  obtains st fs where "state p = Some st" "freeStack p = Some fs" "initialized p" "mp_region p"
    "0 < unat (blockSize p)" "0 < unat (blockCount p)"
    "unat (freeCount p) \<le> unat (blockCount p)" "unat (blockCount p) \<le> length st" "unat (blockCount p) \<le> length fs"
    "distinct (mp_indices p)" "\<forall>i\<in>set (mp_indices p). i < unat (blockCount p)"
    "\<forall>i<unat (blockCount p). st ! i =
       (if i \<in> set (mp_indices p) then MEMORY_POOL_BLOCK_FREE else MEMORY_POOL_BLOCK_ALLOCATED)"
  using assms by (auto simp: mp_inv_def split: option.splits)

subsection \<open>Address arithmetic\<close>

lemma address_unat:
  assumes "mp_region p" "i < unat (blockCount p)"
  shows "unat (mp_address p i) = unat (storage p) + i * unat (blockSize p)"
    and "unat (mp_address p i - storage p) = i * unat (blockSize p)"
    and "i * unat (blockSize p) + unat (blockSize p) \<le> unat (blockSize p) * unat (blockCount p)"
proof -
  have "Suc i * unat (blockSize p) \<le> unat (blockCount p) * unat (blockSize p)"
    using assms(2) by (intro mult_le_mono1) simp
  then show le: "i * unat (blockSize p) + unat (blockSize p) \<le> unat (blockSize p) * unat (blockCount p)"
    by (simp add: ac_simps)
  have i: "unat (of_nat i :: size_t) = i"
    using less_trans [OF assms(2) unat_less_size] by (intro unat_of_nat_size) simp
  have m: "unat (of_nat i * blockSize p) = i * unat (blockSize p)"
    using le assms(1) by (subst unat_mult_noof) (auto simp: i mp_region_def)
  show "unat (mp_address p i) = unat (storage p) + i * unat (blockSize p)"
    unfolding mp_address_def using le assms(1) by (subst unat_add_noof) (auto simp: m mp_region_def)
  show "unat (mp_address p i - storage p) = i * unat (blockSize p)"
    by (simp add: mp_address_def m)
qed

lemma address_inj:
  assumes "mp_region p" "0 < unat (blockSize p)" "i < unat (blockCount p)" "j < unat (blockCount p)"
  shows "mp_address p i = mp_address p j \<longleftrightarrow> i = j"
  using address_unat(1) [OF assms(1,3)] address_unat(1) [OF assms(1,4)] assms(2) by (metis add_left_cancel mult_cancel2 neq0_conv)

lemma address_not_null: "mp_region p \<Longrightarrow> i < unat (blockCount p) \<Longrightarrow> mp_address p i \<noteq> 0"
  using address_unat(1) [of p i] by (auto simp: mp_region_def unat_eq_0)

text \<open>Distinct blocks do not overlap and lie inside the storage region.\<close>

lemma blocks_apart:
  assumes "mp_region p" "a \<in> set (mp_blocks p)" "b \<in> set (mp_blocks p)" "a \<noteq> b"
  shows "unat a + unat (blockSize p) \<le> unat b \<or> unat b + unat (blockSize p) \<le> unat a"
proof -
  obtain i j where ij: "i < unat (blockCount p)" "j < unat (blockCount p)" "a = mp_address p i" "b = mp_address p j"
    using assms(2,3) by (auto simp: mp_blocks_def)
  with assms(4) have "i \<noteq> j" by auto
  then have "Suc i \<le> j \<or> Suc j \<le> i" by linarith
  then have "Suc i * unat (blockSize p) \<le> j * unat (blockSize p) \<or>
      Suc j * unat (blockSize p) \<le> i * unat (blockSize p)"
    using mult_le_mono1 by blast
  then show ?thesis
    using ij address_unat(1) [OF assms(1)] by (simp add: ac_simps)
qed

lemma blocks_inside:
  assumes "mp_region p" "a \<in> set (mp_blocks p)"
  shows "unat (storage p) \<le> unat a"
    and "unat a + unat (blockSize p) \<le> unat (storage p) + unat (blockSize p) * unat (blockCount p)"
    and "(unat a - unat (storage p)) mod unat (blockSize p) = 0"
  using assms address_unat by (auto simp: mp_blocks_def)

lemma region_end:
  assumes "mp_region p"
  shows "unat (blockSize p * blockCount p) = unat (blockSize p) * unat (blockCount p)"
    and "unat (storage p + blockSize p * blockCount p) =
         unat (storage p) + unat (blockSize p) * unat (blockCount p)"
    and "\<not> storage p > UINTPTR_MAX - blockSize p * blockCount p"
proof -
  show m: "unat (blockSize p * blockCount p) = unat (blockSize p) * unat (blockCount p)"
    using assms by (intro unat_mult_noof) (simp add: mp_region_def)
  show "unat (storage p + blockSize p * blockCount p) =
         unat (storage p) + unat (blockSize p) * unat (blockCount p)"
    using assms m by (subst unat_add_noof) (auto simp: mp_region_def)
  have "unat (UINTPTR_MAX - blockSize p * blockCount p) = size_limit - 1 - unat (blockSize p) * unat (blockCount p)"
    unfolding UINTPTR_MAX_def using assms
    by (subst unat_sub_noof) (simp_all add: m mp_region_def unsigned_minus_1_eq_mask mask_eq_exp_minus_1)
  then show "\<not> storage p > UINTPTR_MAX - blockSize p * blockCount p"
    using assms by (simp add: mp_region_def word_less_nat_alt not_less) linarith
qed

text \<open>An aligned address of the region is the address of a block.\<close>

lemma aligned_address:
  assumes "mp_region p" "0 < unat (blockSize p)"
    and "storage p \<le> b" "b < storage p + blockSize p * blockCount p" "(b - storage p) mod blockSize p = 0"
  shows "unat ((b - storage p) div blockSize p) < unat (blockCount p)"
    and "mp_address p (unat ((b - storage p) div blockSize p)) = b"
proof -
  let ?o = "unat b - unat (storage p)" and ?bs = "unat (blockSize p)"
  have o: "unat (b - storage p) = ?o"
    using assms(3) by (intro unat_sub_noof) (simp add: word_le_nat_alt)
  have "?o < ?bs * unat (blockCount p)"
    using assms(3,4) region_end(2) [OF assms(1)] by (simp add: word_le_nat_alt word_less_nat_alt)
  then show "unat ((b - storage p) div blockSize p) < unat (blockCount p)"
    by (simp add: unat_div o less_mult_imp_div_less mult.commute)
  show "mp_address p (unat ((b - storage p) div blockSize p)) = b"
    unfolding mp_address_def
    using assms(5) div_mult_mod_eq [of "b - storage p" "blockSize p"]
    by (simp add: word_of_nat_eq_iff)
qed

subsection \<open>Initialisation\<close>

lemma init_loop:
  assumes "i + n \<le> length st" "i + n \<le> length fs"
  shows "for_upto n i (\<lambda>k (s, f). do { s' \<leftarrow> wr s k c; f' \<leftarrow> wr f k (of_nat k); Some (s', f') }) (st, fs) =
    Some (take i st @ replicate n c @ drop (i + n) st, take i fs @ map of_nat [i ..< i + n] @ drop (i + n) fs)"
  using assms
proof (induction n arbitrary: i st fs)
  case 0
  then show ?case by simp
next
  case (Suc n)
  then have "take (Suc i) (st[i := c]) = take i st @ [c]" "take (Suc i) (fs[i := of_nat i]) = take i fs @ [of_nat i]"
    by (simp_all add: take_Suc_conv_app_nth)
  moreover have "[i ..< i + Suc n] = i # [Suc i ..< Suc i + n]"
    by (simp add: upt_rec)
  ultimately show ?case
    using Suc by (simp del: upt_Suc)
qed

text \<open>The overflow guard \<open>blockSize > SIZE_MAX / blockCount\<close> is exact.\<close>

lemma overflow_guard:
  assumes "bc \<noteq> (0 :: size_t)"
  shows "bs \<le> SIZE_MAX div bc \<longleftrightarrow> unat bs * unat bc < size_limit"
proof -
  have "0 < unat bc"
    using assms by (simp add: unat_gt_0)
  then have "unat bs \<le> (size_limit - 1) div unat bc \<longleftrightarrow> unat bs * unat bc \<le> size_limit - 1"
    by (rule less_eq_div_iff_mult_less_eq)
  then show ?thesis
    by (simp add: word_le_nat_alt unat_div SIZE_MAX_def unsigned_minus_1_eq_mask mask_eq_exp_minus_1 less_eq_Suc_le)
qed

text \<open>The pool a successful initialisation leaves, whatever the region.\<close>

definition fresh_pool ::
  "MemoryPool_t \<Rightarrow> uintptr_t \<Rightarrow> u8 list \<Rightarrow> size_t list \<Rightarrow> size_t \<Rightarrow> size_t \<Rightarrow> MemoryPool_t" where
  "fresh_pool p stor st fs bs bc =
     p\<lparr>storage := stor, state := Some (replicate (unat bc) MEMORY_POOL_BLOCK_FREE @ drop (unat bc) st),
       freeStack := Some (map of_nat [0 ..< unat bc] @ drop (unat bc) fs), blockSize := bs,
       blockCount := bc, freeCount := bc, initialized := True\<rparr>"

lemma fresh_pool_simps [simp]:
  "storage (fresh_pool p stor st fs bs bc) = stor" "blockSize (fresh_pool p stor st fs bs bc) = bs"
  "blockCount (fresh_pool p stor st fs bs bc) = bc" "freeCount (fresh_pool p stor st fs bs bc) = bc"
  "initialized (fresh_pool p stor st fs bs bc)"
  by (simp_all add: fresh_pool_def)

lemma init_runs:
  assumes "\<not> initialized p" "bs \<noteq> 0" "bc \<noteq> 0" "stor \<noteq> 0" "unat bc \<le> length st" "unat bc \<le> length fs"
  shows "memoryPoolInit (Some p) stor (Some st) (Some fs) bs bc =
    (if size_limit \<le> unat bs * unat bc then Some (MEMORY_POOL_ERROR_SIZE_OVERFLOW, Some p)
     else Some (MEMORY_POOL_SUCCESS, Some (fresh_pool p stor st fs bs bc)))"
proof -
  have "SIZE_MAX div bc < bs \<longleftrightarrow> size_limit \<le> unat bs * unat bc"
    using overflow_guard [OF assms(3), of bs] by (metis not_le)
  then show ?thesis
    using assms init_loop [of 0 "unat bc" st fs] by (simp add: memoryPoolInit_def fresh_pool_def)
qed

lemma init_overflow:
  assumes "\<not> initialized p" "bs \<noteq> 0" "bc \<noteq> 0" "stor \<noteq> 0" "size_limit \<le> unat bs * unat bc"
  shows "memoryPoolInit (Some p) stor (Some st) (Some fs) bs bc = Some (MEMORY_POOL_ERROR_SIZE_OVERFLOW, Some p)"
  using assms overflow_guard [OF assms(3), of bs] by (simp add: memoryPoolInit_def not_le [symmetric])

lemma fresh_pool_indices: "mp_indices (fresh_pool p stor st fs bs bc) = rev [0 ..< unat bc]"
  using map_unat_of_nat [of "unat bc"]
  by (simp add: fresh_pool_def mp_indices_def rev_map [symmetric] comp_def less_imp_le)

lemma fresh_pool_inv:
  assumes "bs \<noteq> 0" "bc \<noteq> 0" "stor \<noteq> 0" "unat stor + unat bs * unat bc < size_limit"
    and "unat bc \<le> length st" "unat bc \<le> length fs"
  shows "mp_inv (fresh_pool p stor st fs bs bc)"
  using assms fresh_pool_indices [of p stor st fs bs bc]
  by (simp add: fresh_pool_def mp_inv_def mp_region_def nth_append unat_gt_0)

subsection \<open>Acquire and release\<close>

lemma acquire_full:
  "mp_inv p \<Longrightarrow> mp_free p = [] \<Longrightarrow>
   memoryPoolAcquire (Some p) (Some b) = Some (MEMORY_POOL_ERROR_POOL_FULL, Some p, Some b)"
  by (auto elim!: mp_invE simp: memoryPoolAcquire_def mp_free_def mp_indices_def unat_eq_0)

lemma length_mp_indices: "mp_inv p \<Longrightarrow> length (mp_indices p) = unat (freeCount p)"
  by (auto elim!: mp_invE simp: mp_indices_def)

lemma indices_Cons:
  assumes "freeStack p = Some fs" "unat (freeCount p) \<le> length fs" "mp_indices p = i # is"
  shows "0 < unat (freeCount p)" "i = unat (fs ! (unat (freeCount p) - 1))"
    and "is = map unat (rev (take (unat (freeCount p) - 1) fs))"
proof -
  show pos: "0 < unat (freeCount p)"
    using assms(3) by (cases "unat (freeCount p)") (auto simp: mp_indices_def)
  then obtain n where n: "unat (freeCount p) = Suc n"
    using not0_implies_Suc by blast
  with assms(2) have "take (Suc n) fs = take n fs @ [fs ! n]"
    by (simp add: take_Suc_conv_app_nth)
  then show "i = unat (fs ! (unat (freeCount p) - 1))" "is = map unat (rev (take (unat (freeCount p) - 1) fs))"
    using assms(1,3) n by (simp_all add: mp_indices_def)
qed

lemma unat_dec: "0 < unat n \<Longrightarrow> unat (n - 1 :: size_t) = unat n - 1"
  by (subst unat_sub_noof) auto

lemma acquire_ok:
  assumes inv: "mp_inv p" and ne: "mp_indices p = i # is"
  obtains p' where "memoryPoolAcquire (Some p) (Some b) =
      Some (MEMORY_POOL_SUCCESS, Some p', Some (mp_address p i))"
    "mp_inv p'" "mp_indices p' = is" "storage p' = storage p" "blockSize p' = blockSize p"
    "blockCount p' = blockCount p"
proof -
  obtain st fs where p: "state p = Some st" "freeStack p = Some fs" "initialized p" "mp_region p"
    "0 < unat (blockSize p)" "0 < unat (blockCount p)"
    "unat (freeCount p) \<le> unat (blockCount p)" "unat (blockCount p) \<le> length st" "unat (blockCount p) \<le> length fs"
    "distinct (mp_indices p)" "\<forall>i\<in>set (mp_indices p). i < unat (blockCount p)"
    "\<forall>i<unat (blockCount p). st ! i =
       (if i \<in> set (mp_indices p) then MEMORY_POOL_BLOCK_FREE else MEMORY_POOL_BLOCK_ALLOCATED)"
    using inv by (rule mp_invE)
  have top: "0 < unat (freeCount p)" "i = unat (fs ! (unat (freeCount p) - 1))"
      "is = map unat (rev (take (unat (freeCount p) - 1) fs))"
    using indices_Cons [OF p(2) _ ne] p(7,9) by auto
  have i: "i < unat (blockCount p)"
    using p(11) ne by simp
  let ?st = "st[i := MEMORY_POOL_BLOCK_ALLOCATED]"
  let ?p = "p\<lparr>freeCount := freeCount p - 1, state := Some ?st\<rparr>"
  have ind: "mp_indices ?p = is"
    using top(1,3) p(2) by (simp add: mp_indices_def unat_dec)
  show thesis
  proof (rule that [of ?p])
    have "unat (freeCount p - 1) < length fs"
      using top(1) p(7,9) by (simp add: unat_dec)
    moreover have "fs ! unat (freeCount p - 1) = of_nat i"
      using top(1,2) by (simp add: unat_dec)
    ultimately show "memoryPoolAcquire (Some p) (Some b) =
        Some (MEMORY_POOL_SUCCESS, Some ?p, Some (mp_address p i))"
      using p top(1) i less_trans [OF i unat_less_size]
      by (auto simp: memoryPoolAcquire_def mp_address_def unat_of_nat_size)
    show "mp_inv ?p"
      using p ind ne i top(1) unfolding mp_inv_def mp_region_def
      by (auto simp: unat_dec nth_list_update)
  qed (simp_all add: ind)
qed

lemma release_null_or_uninit:
  "validatePool pool \<noteq> MEMORY_POOL_SUCCESS \<Longrightarrow> memoryPoolRelease pool b = Some (validatePool pool, pool)"
  by (simp add: memoryPoolRelease_def)

text \<open>Up to the state check, a release is decided by the address alone.\<close>

lemma release_block:
  assumes inv: "mp_inv p" and i: "i < unat (blockCount p)"
  shows "memoryPoolRelease (Some p) (mp_address p i) =
    (if the (state p) ! i \<noteq> MEMORY_POOL_BLOCK_ALLOCATED then Some (MEMORY_POOL_ERROR_INVALID_BLOCK, Some p)
     else do {
       fs' \<leftarrow> wr (the (freeStack p)) (unat (freeCount p)) (of_nat i);
       Some (MEMORY_POOL_SUCCESS, Some (p\<lparr>state := Some ((the (state p))[i := MEMORY_POOL_BLOCK_FREE]),
         freeStack := Some fs', freeCount := freeCount p + 1\<rparr>))
     })"
proof -
  obtain st fs where p: "state p = Some st" "freeStack p = Some fs" "initialized p" "mp_region p"
    "0 < unat (blockSize p)" "unat (blockCount p) \<le> length st"
    using inv by (rule mp_invE)
  note a = address_unat [OF p(4) i]
  have bs: "blockSize p \<noteq> 0"
    using p(5) by auto
  have range: "\<not> mp_address p i < storage p" "\<not> storage p + blockSize p * blockCount p \<le> mp_address p i"
    using a(1,3) p(5) i region_end(2) [OF p(4)] by (auto simp: word_less_nat_alt word_le_nat_alt)
  have align: "(mp_address p i - storage p) mod blockSize p = 0"
    by (simp add: word_unat_eq_iff unat_mod a(2))
  have ndx: "(mp_address p i - storage p) div blockSize p = of_nat i"
    using less_trans [OF i unat_less_size] p(5) by (simp add: word_unat_eq_iff unat_div a(2) unat_of_nat_size)
  have ii: "unat (of_nat i :: size_t) = i" "\<not> blockCount p \<le> of_nat i"
    using less_trans [OF i unat_less_size] i by (simp_all add: unat_of_nat_size word_le_nat_alt)
  show ?thesis
    unfolding memoryPoolRelease_def
    using address_not_null [OF p(4) i] region_end(3) [OF p(4)] range align ndx bs p(1,2,3,6) i
    by (simp add: Let_def ii)
qed

lemma release_ok:
  assumes inv: "mp_inv p" and i: "i < unat (blockCount p)" "i \<notin> set (mp_indices p)"
  obtains p' where "memoryPoolRelease (Some p) (mp_address p i) = Some (MEMORY_POOL_SUCCESS, Some p')"
    "mp_inv p'" "mp_indices p' = i # mp_indices p" "storage p' = storage p" "blockSize p' = blockSize p"
    "blockCount p' = blockCount p"
proof -
  obtain st fs where p: "state p = Some st" "freeStack p = Some fs" "initialized p" "mp_region p"
    "0 < unat (blockSize p)" "0 < unat (blockCount p)"
    "unat (freeCount p) \<le> unat (blockCount p)" "unat (blockCount p) \<le> length st" "unat (blockCount p) \<le> length fs"
    "distinct (mp_indices p)" "\<forall>i\<in>set (mp_indices p). i < unat (blockCount p)"
    "\<forall>i<unat (blockCount p). st ! i =
       (if i \<in> set (mp_indices p) then MEMORY_POOL_BLOCK_FREE else MEMORY_POOL_BLOCK_ALLOCATED)"
    using inv by (rule mp_invE)
  have "set (i # mp_indices p) \<subseteq> {..< unat (blockCount p)}"
    using p(11) i(1) by auto
  then have "card (set (i # mp_indices p)) \<le> unat (blockCount p)"
    using card_mono [OF finite_lessThan] by fastforce
  moreover have "card (set (i # mp_indices p)) = Suc (unat (freeCount p))"
    using p(10) i(2) length_mp_indices [OF inv] by (simp add: distinct_card)
  ultimately have fc: "unat (freeCount p) < unat (blockCount p)"
    by simp
  then have inc: "unat (freeCount p + 1) = Suc (unat (freeCount p))"
    by (rule unat_Suc_noof)
  let ?fs = "fs[unat (freeCount p) := of_nat i]"
  let ?p = "p\<lparr>state := Some (st[i := MEMORY_POOL_BLOCK_FREE]), freeStack := Some ?fs, freeCount := freeCount p + 1\<rparr>"
  have "take (Suc (unat (freeCount p))) ?fs = take (unat (freeCount p)) fs @ [of_nat i]"
    using fc p(9) by (simp add: take_Suc_conv_app_nth)
  then have ind: "mp_indices ?p = i # mp_indices p"
    using p(2) less_trans [OF i(1) unat_less_size] by (simp add: mp_indices_def inc unat_of_nat_size)
  show thesis
  proof (rule that [of ?p])
    show "memoryPoolRelease (Some p) (mp_address p i) = Some (MEMORY_POOL_SUCCESS, Some ?p)"
      using release_block [OF inv i(1)] p(1,2,9,12) i fc by simp
    show "mp_inv ?p"
      using p ind i fc inc unfolding mp_inv_def mp_region_def
      by (auto simp: nth_list_update)
  qed (simp_all add: ind)
qed

text \<open>Anything else is refused and changes nothing.\<close>

lemma release_bad:
  assumes inv: "mp_inv p" and bad: "\<And>i. i < unat (blockCount p) \<Longrightarrow> b = mp_address p i \<Longrightarrow> i \<in> set (mp_indices p)"
  shows "memoryPoolRelease (Some p) b = Some (MEMORY_POOL_ERROR_INVALID_BLOCK, Some p)"
proof -
  obtain st fs where p: "state p = Some st" "freeStack p = Some fs" "initialized p" "mp_region p"
    "0 < unat (blockSize p)"
    "\<forall>i<unat (blockCount p). st ! i =
       (if i \<in> set (mp_indices p) then MEMORY_POOL_BLOCK_FREE else MEMORY_POOL_BLOCK_ALLOCATED)"
    using inv by (rule mp_invE)
  have bs: "blockSize p \<noteq> 0"
    using p(5) by auto
  show ?thesis
  proof (cases "storage p \<le> b \<and> b < storage p + blockSize p * blockCount p \<and> (b - storage p) mod blockSize p = 0")
    case True
    let ?i = "unat ((b - storage p) div blockSize p)"
    have "?i < unat (blockCount p)" "mp_address p ?i = b"
      using aligned_address [OF p(4,5)] True by auto
    with release_block [OF inv, of ?i] bad [of ?i] p(1,6) show ?thesis
      by (simp add: block_states)
  next
    case False
    then consider "b < storage p \<or> storage p + blockSize p * blockCount p \<le> b"
      | "(b - storage p) mod blockSize p \<noteq> 0"
      by (auto simp: not_less not_le)
    then show ?thesis
      using region_end(3) [OF p(4)] bs p(3)
      by cases (simp_all add: memoryPoolRelease_def Let_def)
  qed
qed

text \<open>
  Without the caller's half of the contract: a pool whose storage is claimed to run past
  the end of the address space refuses every release, valid blocks included.
\<close>

lemma release_unrepresentable:
  assumes "unat (blockSize p * blockCount p) + unat (storage p) \<ge> size_limit" "initialized p"
  shows "memoryPoolRelease (Some p) b = Some (MEMORY_POOL_ERROR_INVALID_BLOCK, Some p)"
proof -
  let ?t = "blockSize p * blockCount p"
  have t: "unat ?t \<le> (size_limit - 1)"
    using unat_less_size [of ?t] by linarith
  then have "unat (UINTPTR_MAX - ?t) = (size_limit - 1) - unat ?t"
    unfolding UINTPTR_MAX_def by (subst unat_sub_noof) (simp_all add: unsigned_minus_1_eq_mask mask_eq_exp_minus_1)
  moreover have "(size_limit - 1) - unat ?t < unat (storage p)"
    using assms(1) t by auto
  ultimately have "storage p > UINTPTR_MAX - ?t"
    by (simp add: word_less_nat_alt)
  then show ?thesis
    using assms(2) by (simp add: memoryPoolRelease_def Let_def)
qed

subsection \<open>The pool as a block allocator\<close>

definition mp_acquire :: "MemoryPool_t \<Rightarrow> (uintptr_t aout \<times> MemoryPool_t) run" where
  "mp_acquire p =
     do {
       (status, pool, block) \<leftarrow> memoryPoolAcquire (Some p) (Some 0);
       p' \<leftarrow> pool;
       a \<leftarrow> block;
       (case status of
          MEMORY_POOL_SUCCESS \<Rightarrow> Some (Granted a, p')
        | MEMORY_POOL_ERROR_POOL_FULL \<Rightarrow> Some (Exhausted, p')
        | _ \<Rightarrow> None)
     }"

definition mp_release :: "MemoryPool_t \<Rightarrow> uintptr_t \<Rightarrow> (uintptr_t aout \<times> MemoryPool_t) run" where
  "mp_release p b =
     do {
       (status, pool) \<leftarrow> memoryPoolRelease (Some p) b;
       p' \<leftarrow> pool;
       (case status of
          MEMORY_POOL_SUCCESS \<Rightarrow> Some (Freed, p')
        | MEMORY_POOL_ERROR_INVALID_BLOCK \<Rightarrow> Some (Rejected, p')
        | _ \<Rightarrow> None)
     }"

lemma mp_blocks_cong:
  "storage p' = storage p \<Longrightarrow> blockSize p' = blockSize p \<Longrightarrow> blockCount p' = blockCount p \<Longrightarrow>
   mp_blocks p' = mp_blocks p \<and> mp_address p' = mp_address p"
  by (auto simp: mp_blocks_def mp_address_def fun_eq_iff)

lemma address_in_free:
  assumes "mp_inv p" "i < unat (blockCount p)"
  shows "mp_address p i \<in> set (mp_free p) \<longleftrightarrow> i \<in> set (mp_indices p)"
proof -
  obtain st fs where p: "mp_region p" "0 < unat (blockSize p)" "\<forall>i\<in>set (mp_indices p). i < unat (blockCount p)"
    using assms(1) by (rule mp_invE)
  then show ?thesis
    using address_inj [OF p(1,2) assms(2)] by (auto simp: mp_free_def)
qed

lemma not_free_iff:
  assumes "mp_inv p"
  shows "b \<in> set (mp_blocks p) \<and> b \<notin> set (mp_free p) \<longleftrightarrow>
    (\<exists>i. i < unat (blockCount p) \<and> b = mp_address p i \<and> i \<notin> set (mp_indices p))"
  using address_in_free [OF assms] by (auto simp: mp_blocks_def)

interpretation mp: block_allocator mp_acquire mp_release mp_free mp_blocks mp_inv
proof
  fix p assume inv: "mp_inv p"
  obtain st fs where p: "mp_region p" "0 < unat (blockSize p)" "distinct (mp_indices p)"
    "\<forall>i\<in>set (mp_indices p). i < unat (blockCount p)"
    using inv by (rule mp_invE)
  then show "distinct (mp_free p)"
    using address_inj [OF p(1,2)] by (auto simp: mp_free_def distinct_map inj_on_def)
  show "set (mp_free p) \<subseteq> set (mp_blocks p)"
    using p(4) by (auto simp: mp_free_def mp_blocks_def)
next
  fix p assume "mp_inv p" "mp_free p = []"
  then show "mp_acquire p = Some (Exhausted, p)"
    by (simp add: mp_acquire_def acquire_full)
next
  fix p x xs assume inv: "mp_inv p" and ne: "mp_free p = x # xs"
  obtain i "is" where i: "mp_indices p = i # is" "x = mp_address p i" "xs = map (mp_address p) is"
    using ne by (auto simp: mp_free_def)
  obtain p' where p': "memoryPoolAcquire (Some p) (Some 0) = Some (MEMORY_POOL_SUCCESS, Some p', Some (mp_address p i))"
    "mp_inv p'" "mp_indices p' = is" "storage p' = storage p" "blockSize p' = blockSize p"
    "blockCount p' = blockCount p"
    using inv i(1) by (rule acquire_ok)
  with i mp_blocks_cong [OF p'(4-6)] show "\<exists>p'. mp_acquire p = Some (Granted x, p') \<and> mp_inv p' \<and>
      mp_free p' = xs \<and> mp_blocks p' = mp_blocks p"
    by (auto simp: mp_acquire_def mp_free_def)
next
  fix p x assume inv: "mp_inv p" and x: "x \<in> set (mp_blocks p)" "x \<notin> set (mp_free p)"
  obtain i where i: "i < unat (blockCount p)" "x = mp_address p i" "i \<notin> set (mp_indices p)"
    using x not_free_iff [OF inv] by blast
  obtain p' where p': "memoryPoolRelease (Some p) (mp_address p i) = Some (MEMORY_POOL_SUCCESS, Some p')"
    "mp_inv p'" "mp_indices p' = i # mp_indices p" "storage p' = storage p" "blockSize p' = blockSize p"
    "blockCount p' = blockCount p"
    using inv i(1,3) by (rule release_ok)
  with i mp_blocks_cong [OF p'(4-6)] show "\<exists>p'. mp_release p x = Some (Freed, p') \<and> mp_inv p' \<and>
      mp_free p' = x # mp_free p \<and> mp_blocks p' = mp_blocks p"
    by (auto simp: mp_release_def mp_free_def)
next
  fix p x assume inv: "mp_inv p" and x: "\<not> (x \<in> set (mp_blocks p) \<and> x \<notin> set (mp_free p))"
  then show "mp_release p x = Some (Rejected, p)"
    using not_free_iff [OF inv, of x] by (auto simp: mp_release_def release_bad [OF inv])
qed

lemma mp_free_full: "mp_indices p = rev [0 ..< unat (blockCount p)] \<Longrightarrow> mp_free p = rev (mp_blocks p)"
  by (simp add: mp_free_def mp_blocks_def rev_map)

lemma length_mp_free: "mp_inv p \<Longrightarrow> length (mp_free p) = unat (freeCount p)"
  by (simp add: mp_free_def length_mp_indices)

lemma counters:
  assumes "mp_inv p"
  shows "memoryPoolGetFreeCount (Some p) (Some x) = Some (MEMORY_POOL_SUCCESS, Some (of_nat (length (mp_free p))))"
    and "memoryPoolGetUsedCount (Some p) (Some x) =
      Some (MEMORY_POOL_SUCCESS, Some (of_nat (length (mp_blocks p) - length (mp_free p))))"
    and "memoryPoolGetCapacity (Some p) (Some x) = Some (MEMORY_POOL_SUCCESS, Some (of_nat (length (mp_blocks p))))"
    and "memoryPoolGetBlockSize (Some p) (Some x) = Some (MEMORY_POOL_SUCCESS, Some (blockSize p))"
proof -
  obtain st fs where p: "initialized p" "unat (freeCount p) \<le> unat (blockCount p)"
    using assms by (rule mp_invE)
  then show "memoryPoolGetFreeCount (Some p) (Some x) = Some (MEMORY_POOL_SUCCESS, Some (of_nat (length (mp_free p))))"
    "memoryPoolGetUsedCount (Some p) (Some x) =
      Some (MEMORY_POOL_SUCCESS, Some (of_nat (length (mp_blocks p) - length (mp_free p))))"
    "memoryPoolGetCapacity (Some p) (Some x) = Some (MEMORY_POOL_SUCCESS, Some (of_nat (length (mp_blocks p))))"
    "memoryPoolGetBlockSize (Some p) (Some x) = Some (MEMORY_POOL_SUCCESS, Some (blockSize p))"
    by (simp_all add: memoryPoolGetFreeCount_def memoryPoolGetUsedCount_def memoryPoolGetCapacity_def
        memoryPoolGetBlockSize_def length_mp_free [OF assms] mp_blocks_def of_nat_diff)
qed

lemma mp_blocks_distinct: "mp_inv p \<Longrightarrow> distinct (mp_blocks p)"
  using address_inj [of p] by (auto elim!: mp_invE simp: mp_blocks_def distinct_map inj_on_def)

lemma fresh_pool_blocks:
  "mp_blocks (fresh_pool p stor st fs bs bc) = map (\<lambda>i. stor + of_nat i * bs) [0 ..< unat bc]"
  by (simp add: mp_blocks_def mp_address_def fun_eq_iff)

lemma fresh_pool_free: "mp_free (fresh_pool p stor st fs bs bc) = rev (mp_blocks (fresh_pool p stor st fs bs bc))"
  by (intro mp_free_full) (simp add: fresh_pool_indices)

lemma fresh_pool_acquire:
  assumes "bc \<noteq> 0"
  obtains p' a where "memoryPoolAcquire (Some (fresh_pool p stor st fs bs bc)) (Some x) =
      Some (MEMORY_POOL_SUCCESS, Some p', Some a)"
    "storage p' = stor" "blockSize p' = bs" "blockCount p' = bc" "initialized p'"
proof -
  have bc: "0 < unat bc" "unat (bc - 1) < unat bc"
    using assms unat_dec [of bc] by (simp_all add: unat_gt_0)
  then show thesis
    using that assms by (simp add: memoryPoolAcquire_def fresh_pool_def nth_append unat_of_nat_size unat_dec)
qed

subsection \<open>Properties\<close>

definition pool_example :: MemoryPool_t where
  "pool_example = \<lparr>storage = 0, state = None, freeStack = None, blockSize = 0, blockCount = 0, freeCount = 0,
     initialized = False\<rparr>"

text \<open>C31: initialisation, for all arguments, in the order in which the code checks them.  A null
  pool, storage, state array or free stack is reported first, for a pool already initialised
  too; then an initialised pool is refused, before its new dimensions are looked at (the
  design document lists this check last); then a zero block size, a zero block count and a
  product of the two past \<open>SIZE_MAX\<close>.  Each has its own status and leaves the pool as it was.
  Otherwise, with arrays of at least \<open>blockCount\<close> entries, initialisation succeeds: the blocks
  are the \<open>blockCount\<close> addresses from the storage on in steps of \<open>blockSize\<close>, and if the region
  they make up lies in the address space all of them are free, the first one at the bottom of
  the free stack, and the pool's invariant holds.\<close>

theorem pool_init:
  shows "if pool = None \<or> stor = 0 \<or> st = None \<or> fs = None
    then memoryPoolInit pool stor st fs bs bc = Some (MEMORY_POOL_ERROR_NULL_POINTER, pool)
    else if initialized (the pool)
    then memoryPoolInit pool stor st fs bs bc = Some (MEMORY_POOL_ERROR_ALREADY_INITIALIZED, pool)
    else if bs = 0
    then memoryPoolInit pool stor st fs bs bc = Some (MEMORY_POOL_ERROR_INVALID_BLOCK_SIZE, pool)
    else if bc = 0
    then memoryPoolInit pool stor st fs bs bc = Some (MEMORY_POOL_ERROR_INVALID_BLOCK_COUNT, pool)
    else if size_limit \<le> unat bs * unat bc
    then memoryPoolInit pool stor st fs bs bc = Some (MEMORY_POOL_ERROR_SIZE_OVERFLOW, pool)
    else unat bc \<le> length (the st) \<longrightarrow> unat bc \<le> length (the fs) \<longrightarrow>
      (\<exists>p'. memoryPoolInit pool stor st fs bs bc = Some (MEMORY_POOL_SUCCESS, Some p') \<and>
        initialized p' \<and> mp_blocks p' = map (\<lambda>i. stor + of_nat i * bs) [0 ..< unat bc] \<and>
        (unat stor + unat bs * unat bc < size_limit \<longrightarrow> mp_inv p' \<and> mp_free p' = rev (mp_blocks p')))"
proof (cases "pool = None \<or> stor = 0 \<or> st = None \<or> fs = None")
  case True
  then show ?thesis by (simp add: memoryPoolInit_def)
next
  case False
  then obtain p s f where args: "pool = Some p" "st = Some s" "fs = Some f" "stor \<noteq> 0" by auto
  show ?thesis
  proof (cases "initialized p \<or> bs = 0 \<or> bc = 0 \<or> size_limit \<le> unat bs * unat bc")
    case True
    then show ?thesis
      using args init_overflow [of p bs bc stor s f] by (auto simp: memoryPoolInit_def)
  next
    case False
    then have nz: "\<not> initialized p" "bs \<noteq> 0" "bc \<noteq> 0"
      by simp_all
    have "\<exists>p'. memoryPoolInit pool stor st fs bs bc = Some (MEMORY_POOL_SUCCESS, Some p') \<and>
        initialized p' \<and> mp_blocks p' = map (\<lambda>i. stor + of_nat i * bs) [0 ..< unat bc] \<and>
        (unat stor + unat bs * unat bc < size_limit \<longrightarrow> mp_inv p' \<and> mp_free p' = rev (mp_blocks p'))"
      if len: "unat bc \<le> length s" "unat bc \<le> length f"
      using init_runs [OF nz args(4) len] False args fresh_pool_free fresh_pool_blocks
        fresh_pool_inv [OF nz(2,3) args(4) _ len]
      by simp
    with args False show ?thesis by simp
  qed
qed

theorem pool_init_witness:
  "(\<exists>p'. memoryPoolInit (Some pool_example) 0x1000 (Some [9, 9]) (Some [9, 9]) 8 2 =
     Some (MEMORY_POOL_SUCCESS, Some p') \<and> mp_inv p' \<and> mp_blocks p' = [0x1000, 0x1008]) \<and>
   memoryPoolInit (Some pool_example) 0x1000 (Some [9, 9]) (Some [9, 9]) (- 1) 2 =
     Some (MEMORY_POOL_ERROR_SIZE_OVERFLOW, Some pool_example) \<and>
   memoryPoolInit (Some (pool_example\<lparr>initialized := True\<rparr>)) 0 (Some []) (Some []) 0 0 =
     Some (MEMORY_POOL_ERROR_NULL_POINTER, Some (pool_example\<lparr>initialized := True\<rparr>)) \<and>
   memoryPoolInit (Some (pool_example\<lparr>initialized := True\<rparr>)) 0x1000 (Some []) (Some []) 0 0 =
     Some (MEMORY_POOL_ERROR_ALREADY_INITIALIZED, Some (pool_example\<lparr>initialized := True\<rparr>))"
  using pool_init [of "Some pool_example" "0x1000" "Some [9, 9]" "Some [9, 9]" 8 2]
    pool_init [of "Some pool_example" "0x1000" "Some [9, 9]" "Some [9, 9]" "- 1" 2]
    pool_init [of "Some (pool_example\<lparr>initialized := True\<rparr>)" 0 "Some []" "Some []" 0 0]
    pool_init [of "Some (pool_example\<lparr>initialized := True\<rparr>)" "0x1000" "Some []" "Some []" 0 0]
  by (auto simp: pool_example_def upt_rec unsigned_minus_1_eq_mask mask_eq_exp_minus_1)

text \<open>C3: no block ever has two holders.  From the initialisation of a pool, any sequence of
  acquires and of releases of arbitrary addresses runs without undefined behaviour, and the
  blocks granted and not yet given back are pairwise different and are exactly the blocks
  that are not free.\<close>

theorem pool_no_double_grant:
  assumes "\<not> initialized old" "bs \<noteq> 0" "bc \<noteq> 0" "stor \<noteq> 0" "unat stor + unat bs * unat bc < size_limit"
    and "unat bc \<le> length st" "unat bc \<le> length fs"
  shows "\<exists>p outs p'. memoryPoolInit (Some old) stor (Some st) (Some fs) bs bc = Some (MEMORY_POOL_SUCCESS, Some p) \<and>
    alloc_run mp_acquire mp_release p ops = Some (outs, p') \<and>
    distinct (held [] ops outs) \<and> set (held [] ops outs) = set (mp_blocks p) - set (mp_free p')"
proof -
  let ?p = "fresh_pool old stor st fs bs bc"
  have "set (mp_free ?p) = set (mp_blocks ?p)"
    by (simp add: fresh_pool_free)
  with mp.run_held [of ?p ops] fresh_pool_inv [OF assms(2-7), of old] obtain outs p' where
    "alloc_run mp_acquire mp_release ?p ops = Some (outs, p')" "distinct (held [] ops outs)"
    "set (held [] ops outs) = set (mp_blocks ?p) - set (mp_free p')"
    by blast
  then show ?thesis
    using init_runs [OF assms(1-4,6,7)] assms(5) by auto
qed

lemma pool_example_init:
  obtains p where "mp_inv p" "mp_blocks p = [0x1000, 0x1008]" "mp_free p = [0x1008, 0x1000]"
proof -
  let ?p = "fresh_pool pool_example 0x1000 [9, 9] [9, 9] 8 2"
  have "mp_inv ?p"
    by (rule fresh_pool_inv) simp_all
  moreover have "mp_blocks ?p = [0x1000, 0x1008]"
    by (simp add: fresh_pool_blocks upt_rec)
  ultimately show thesis
    using that [of ?p] by (simp add: fresh_pool_free)
qed

theorem pool_no_double_grant_witness:
  "\<exists>p outs p'. memoryPoolInit (Some pool_example) 0x1000 (Some [9, 9]) (Some [9, 9]) 8 2 = Some (MEMORY_POOL_SUCCESS, Some p) \<and>
     alloc_run mp_acquire mp_release p [Acquire, Acquire, Acquire, Release 0x1008, Release 0x1008] = Some (outs, p') \<and>
     distinct (held [] [Acquire, Acquire, Acquire, Release 0x1008, Release 0x1008] outs)"
  using pool_no_double_grant [of pool_example 8 2 "0x1000" "[9, 9]" "[9, 9]"
      "[Acquire, Acquire, Acquire, Release 0x1008, Release 0x1008]"]
  by (auto simp: pool_example_def)

text \<open>C13: no block is ever lost.  From the initialisation of a pool, after any sequence of acquires
  and of releases of arbitrary addresses, once the blocks granted and not yet given back are
  released, in any order, all of these releases succeed and the pool can grant every one of
  its blocks again, each once.\<close>

theorem pool_never_leaks:
  assumes "\<not> initialized old" "bs \<noteq> 0" "bc \<noteq> 0" "stor \<noteq> 0" "unat stor + unat bs * unat bc < size_limit"
    and "unat bc \<le> length st" "unat bc \<le> length fs"
  shows "\<exists>p outs p1. memoryPoolInit (Some old) stor (Some st) (Some fs) bs bc = Some (MEMORY_POOL_SUCCESS, Some p) \<and>
    alloc_run mp_acquire mp_release p ops = Some (outs, p1) \<and>
    (\<forall>rs. distinct rs \<longrightarrow> set rs = set (held [] ops outs) \<longrightarrow>
      (\<exists>p2 gs p3. alloc_run mp_acquire mp_release p1 (map Release rs) = Some (replicate (length rs) Freed, p2) \<and>
        alloc_run mp_acquire mp_release p2 (replicate (unat bc) Acquire) = Some (map Granted gs, p3) \<and>
        distinct gs \<and> set gs = set (mp_blocks p)))"
proof -
  let ?p = "fresh_pool old stor st fs bs bc"
  have inv: "mp_inv ?p"
    using fresh_pool_inv [OF assms(2-7)] .
  have all: "set (mp_free ?p) = set (mp_blocks ?p)" "length (mp_blocks ?p) = unat bc"
    by (simp_all add: fresh_pool_free fresh_pool_blocks)
  from mp.run_recovers [OF inv all(1) mp_blocks_distinct [OF inv], of ops] show ?thesis
    unfolding all(2) using init_runs [OF assms(1-4,6,7)] assms(5) by auto
qed

theorem pool_never_leaks_witness:
  "\<exists>p p1 p2 gs p3. memoryPoolInit (Some pool_example) 0x1000 (Some [9, 9]) (Some [9, 9]) 8 2 = Some (MEMORY_POOL_SUCCESS, Some p) \<and>
     alloc_run mp_acquire mp_release p [Acquire, Release 0x1000] = Some ([Granted 0x1008, Rejected], p1) \<and>
     alloc_run mp_acquire mp_release p1 [Release 0x1008] = Some ([Freed], p2) \<and>
     alloc_run mp_acquire mp_release p2 [Acquire, Acquire] = Some (map Granted gs, p3) \<and> distinct gs"
proof -
  have ev: "case memoryPoolInit (Some pool_example) 0x1000 (Some [9, 9]) (Some [9, 9]) 8 2 of
      Some (st, Some p) \<Rightarrow> map_option fst (alloc_run mp_acquire mp_release p [Acquire, Release 0x1000]) = Some [Granted 0x1008, Rejected]
    | _ \<Rightarrow> False"
    by code_simp
  have len: "\<not> initialized pool_example" "(8 :: size_t) \<noteq> 0" "(2 :: size_t) \<noteq> 0" "(0x1000 :: uintptr_t) \<noteq> 0"
    "unat (0x1000 :: uintptr_t) + unat (8 :: size_t) * unat (2 :: size_t) < size_limit"
    "unat (2 :: size_t) \<le> length [9, 9 :: u8]" "unat (2 :: size_t) \<le> length [9, 9 :: size_t]"
    by (simp_all add: pool_example_def)
  have two: "replicate (unat (2 :: size_t)) Acquire = [Acquire, Acquire]"
  proof -
    have "unat (2 :: size_t) = Suc (Suc 0)" by simp
    then show ?thesis by (simp only: replicate.simps)
  qed
  obtain p outs p1 where run: "memoryPoolInit (Some pool_example) 0x1000 (Some [9, 9]) (Some [9, 9]) 8 2 = Some (MEMORY_POOL_SUCCESS, Some p)"
    "alloc_run mp_acquire mp_release p [Acquire, Release 0x1000] = Some (outs, p1)"
    and rec: "\<forall>rs. distinct rs \<longrightarrow> set rs = set (held [] [Acquire, Release 0x1000] outs) \<longrightarrow>
      (\<exists>p2 gs p3. alloc_run mp_acquire mp_release p1 (map Release rs) = Some (replicate (length rs) Freed, p2) \<and>
        alloc_run mp_acquire mp_release p2 [Acquire, Acquire] = Some (map Granted gs, p3) \<and>
        distinct gs \<and> set gs = set (mp_blocks p))"
    using pool_never_leaks [OF len, of "[Acquire, Release 0x1000]"] unfolding two by blast
  from ev run have outs: "outs = [Granted 0x1008, Rejected]" by simp
  have "set [0x1008] = set (held [] [Acquire, Release 0x1000] outs)"
    by (simp add: outs)
  with rec [rule_format, of "[0x1008]"] run show ?thesis
    unfolding outs by auto
qed

text \<open>C24: acquire grants the block released last, or reports that the pool is full and leaves the
  caller's pointer as it was; a granted block is a real block of the pool, inside the storage
  region, on a block boundary, not \<open>NULL\<close>, and disjoint from every other block.\<close>

theorem pool_acquire:
  assumes "mp_inv p"
  shows "if mp_free p = []
    then memoryPoolAcquire (Some p) (Some b) = Some (MEMORY_POOL_ERROR_POOL_FULL, Some p, Some b)
    else \<exists>p' a. memoryPoolAcquire (Some p) (Some b) = Some (MEMORY_POOL_SUCCESS, Some p', Some a) \<and>
      a = hd (mp_free p) \<and> mp_inv p' \<and> mp_free p' = tl (mp_free p) \<and> mp_blocks p' = mp_blocks p \<and>
      a \<noteq> 0 \<and> unat (storage p) \<le> unat a \<and>
      unat a + unat (blockSize p) \<le> unat (storage p) + unat (blockSize p) * unat (blockCount p) \<and>
      (unat a - unat (storage p)) mod unat (blockSize p) = 0 \<and>
      (\<forall>c\<in>set (mp_blocks p). c = a \<or> unat a + unat (blockSize p) \<le> unat c \<or> unat c + unat (blockSize p) \<le> unat a)"
proof (cases "mp_indices p")
  case Nil
  with acquire_full [OF assms] show ?thesis by (simp add: mp_free_def)
next
  case (Cons i "is")
  obtain p' where p': "memoryPoolAcquire (Some p) (Some b) = Some (MEMORY_POOL_SUCCESS, Some p', Some (mp_address p i))"
    "mp_inv p'" "mp_indices p' = is" "storage p' = storage p" "blockSize p' = blockSize p" "blockCount p' = blockCount p"
    using assms Cons by (rule acquire_ok)
  obtain st fs where p: "mp_region p" "\<forall>i\<in>set (mp_indices p). i < unat (blockCount p)"
    using assms by (rule mp_invE)
  then have i: "i < unat (blockCount p)" "mp_address p i \<in> set (mp_blocks p)"
    using Cons by (auto simp: mp_blocks_def)
  note inside = blocks_inside [OF p(1) i(2)] address_not_null [OF p(1) i(1)]
  have "\<forall>c\<in>set (mp_blocks p). c = mp_address p i \<or> unat (mp_address p i) + unat (blockSize p) \<le> unat c \<or>
      unat c + unat (blockSize p) \<le> unat (mp_address p i)"
    using blocks_apart [OF p(1) i(2)] by blast
  then show ?thesis
    using p'(1-3) mp_blocks_cong [OF p'(4-6)] inside Cons by (simp add: mp_free_def)
qed

theorem pool_acquire_witness:
  "\<exists>p p'. mp_inv p \<and> memoryPoolAcquire (Some p) (Some 7) = Some (MEMORY_POOL_SUCCESS, Some p', Some 0x1008)"
proof -
  obtain p where "mp_inv p" "mp_free p = [0x1008, 0x1000]"
    by (rule pool_example_init)
  with pool_acquire [of p 7] show ?thesis by auto
qed

text \<open>C12: a release succeeds exactly for the address of a block that is currently handed out, and
  puts it on top of the free stack; every other address (\<open>NULL\<close>, outside the region, inside
  a block, already free) is refused as an invalid block and changes nothing.\<close>

theorem pool_release_exact:
  assumes "mp_inv p"
  shows "if b \<in> set (mp_blocks p) \<and> b \<notin> set (mp_free p)
    then \<exists>p'. memoryPoolRelease (Some p) b = Some (MEMORY_POOL_SUCCESS, Some p') \<and> mp_inv p' \<and>
      mp_free p' = b # mp_free p \<and> mp_blocks p' = mp_blocks p
    else memoryPoolRelease (Some p) b = Some (MEMORY_POOL_ERROR_INVALID_BLOCK, Some p)"
proof (cases "b \<in> set (mp_blocks p) \<and> b \<notin> set (mp_free p)")
  case True
  then obtain i where i: "i < unat (blockCount p)" "b = mp_address p i" "i \<notin> set (mp_indices p)"
    using not_free_iff [OF assms] by blast
  obtain p' where p': "memoryPoolRelease (Some p) (mp_address p i) = Some (MEMORY_POOL_SUCCESS, Some p')"
    "mp_inv p'" "mp_indices p' = i # mp_indices p" "storage p' = storage p" "blockSize p' = blockSize p"
    "blockCount p' = blockCount p"
    using assms i(1,3) by (rule release_ok)
  with i mp_blocks_cong [OF p'(4-6)] True show ?thesis
    by (simp add: mp_free_def)
next
  case False
  then have "\<And>i. i < unat (blockCount p) \<Longrightarrow> b = mp_address p i \<Longrightarrow> i \<in> set (mp_indices p)"
    using not_free_iff [OF assms, of b] by blast
  with False release_bad [OF assms, of b] show ?thesis by auto
qed

theorem pool_release_exact_witness:
  "\<exists>p. mp_inv p \<and> memoryPoolRelease (Some p) 0x1004 = Some (MEMORY_POOL_ERROR_INVALID_BLOCK, Some p)"
proof -
  obtain p where "mp_inv p" "mp_blocks p = [0x1000, 0x1008]"
    by (rule pool_example_init)
  with pool_release_exact [of p "0x1004"] show ?thesis by auto
qed

text \<open>The counters of a pool tell the truth: free, used and total blocks and the block size,
  with free plus used equal to the capacity.\<close>

lemma pool_counters:
  assumes "mp_inv p"
  shows "\<exists>f u c. memoryPoolGetFreeCount (Some p) (Some x) = Some (MEMORY_POOL_SUCCESS, Some f) \<and>
    memoryPoolGetUsedCount (Some p) (Some x) = Some (MEMORY_POOL_SUCCESS, Some u) \<and>
    memoryPoolGetCapacity (Some p) (Some x) = Some (MEMORY_POOL_SUCCESS, Some c) \<and>
    memoryPoolGetBlockSize (Some p) (Some x) = Some (MEMORY_POOL_SUCCESS, Some (blockSize p)) \<and>
    unat f = card (set (mp_free p)) \<and> unat u = card (set (mp_blocks p) - set (mp_free p)) \<and>
    unat f + unat u = unat c \<and> unat c = length (mp_blocks p)"
proof -
  note dist = mp_blocks_distinct [OF assms] mp.free_distinct [OF assms] mp.free_blocks [OF assms]
  have le: "length (mp_free p) \<le> length (mp_blocks p)"
    using dist card_mono [OF _ dist(3)] by (simp add: distinct_card)
  have small: "length (mp_blocks p) < size_limit"
    using unat_less_size [of "blockCount p"] by (simp add: mp_blocks_def)
  have u: "unat (of_nat (length (mp_free p)) :: size_t) = length (mp_free p)"
    "unat (of_nat (length (mp_blocks p)) :: size_t) = length (mp_blocks p)"
    "unat (of_nat (length (mp_blocks p) - length (mp_free p)) :: size_t) = length (mp_blocks p) - length (mp_free p)"
    using le small by (intro unat_of_nat_size; linarith)+
  have "card (set (mp_blocks p) - set (mp_free p)) = length (mp_blocks p) - length (mp_free p)"
    using dist by (simp add: card_Diff_subset distinct_card)
  with counters [OF assms, of x] u le dist show ?thesis
    by (simp add: distinct_card)
qed

lemma pool_counters_example:
  "\<exists>p f. mp_inv p \<and> memoryPoolGetFreeCount (Some p) (Some 0) = Some (MEMORY_POOL_SUCCESS, Some f) \<and> unat f = 2"
proof -
  obtain p where "mp_inv p" "mp_free p = [0x1008, 0x1000]"
    by (rule pool_example_init)
  with pool_counters [of p 0] show ?thesis by auto
qed

text \<open>C39: initialisation accepts dimensions that claim a region past the end of the address
  space, and such a pool can only leak: it grants blocks, but every release, of the block it
  just granted too, is refused and changes nothing.\<close>

theorem pool_unrepresentable_region:
  assumes "\<not> initialized old" "bs \<noteq> 0" "bc \<noteq> 0" "stor \<noteq> 0" "unat bc \<le> length st" "unat bc \<le> length fs"
    and "unat bs * unat bc < size_limit" "size_limit \<le> unat stor + unat bs * unat bc"
  shows "\<exists>p p' a. memoryPoolInit (Some old) stor (Some st) (Some fs) bs bc = Some (MEMORY_POOL_SUCCESS, Some p) \<and>
    memoryPoolAcquire (Some p) (Some x) = Some (MEMORY_POOL_SUCCESS, Some p', Some a) \<and>
    (\<forall>b. memoryPoolRelease (Some p') b = Some (MEMORY_POOL_ERROR_INVALID_BLOCK, Some p'))"
proof -
  let ?p = "fresh_pool old stor st fs bs bc"
  obtain p' a where acq: "memoryPoolAcquire (Some ?p) (Some x) = Some (MEMORY_POOL_SUCCESS, Some p', Some a)"
    "storage p' = stor" "blockSize p' = bs" "blockCount p' = bc" "initialized p'"
    using assms(3) by (rule fresh_pool_acquire)
  have "unat (bs * bc) = unat bs * unat bc"
    using assms(7) by (intro unat_mult_noof) simp
  then have "size_limit \<le> unat (blockSize p' * blockCount p') + unat (storage p')"
    using acq(2-4) assms(8) by simp
  with acq init_runs [OF assms(1-6)] assms(7) release_unrepresentable [of p'] show ?thesis
    by auto
qed

theorem pool_unrepresentable_region_witness:
  "\<exists>p p' a. memoryPoolInit (Some pool_example) 0xFFFFFFFFFFFFFFF0 (Some [9]) (Some [9]) 16 1 =
      Some (MEMORY_POOL_SUCCESS, Some p) \<and>
    memoryPoolAcquire (Some p) (Some 7) = Some (MEMORY_POOL_SUCCESS, Some p', Some a) \<and>
    memoryPoolRelease (Some p') 0xFFFFFFFFFFFFFFF0 = Some (MEMORY_POOL_ERROR_INVALID_BLOCK, Some p')"
  using pool_unrepresentable_region [of pool_example 16 1 "0xFFFFFFFFFFFFFFF0" "[9]" "[9]" 7]
  by (auto simp: pool_example_def)

end
