(* ===== verification/MemoryPoolApi.thy ===== *)
theory MemoryPoolApi
  imports MemoryPool
begin

text \<open>
  The memory pool as its clients see it (\<open>include/memoryPool.h\<close>): the seven calls with any
  arguments, null pointers and foreign addresses included, on a pool in any of its states:
  none at all, not yet initialised, or in use.  Each call returns, with a status that the
  header documents for it, and leaves a pool on which the same holds.
\<close>

datatype pool_call =
    CallInit uintptr_t "u8 list ptr" "size_t list ptr" size_t size_t
  | CallAcquire "uintptr_t ptr"
  | CallRelease uintptr_t
  | CallGetFreeCount "size_t ptr"
  | CallGetUsedCount "size_t ptr"
  | CallGetCapacity "size_t ptr"
  | CallGetBlockSize "size_t ptr"

fun pool_do :: "MemoryPool_t ptr \<Rightarrow> pool_call \<Rightarrow> (MemoryPoolStatus_t \<times> MemoryPool_t ptr) run" where
  "pool_do pool (CallInit stor st fs bs bc) = memoryPoolInit pool stor st fs bs bc"
| "pool_do pool (CallAcquire out) =
     do { (status, pool', _) \<leftarrow> memoryPoolAcquire pool out; Some (status, pool') }"
| "pool_do pool (CallRelease b) = memoryPoolRelease pool b"
| "pool_do pool (CallGetFreeCount out) =
     do { (status, _) \<leftarrow> memoryPoolGetFreeCount pool out; Some (status, pool) }"
| "pool_do pool (CallGetUsedCount out) =
     do { (status, _) \<leftarrow> memoryPoolGetUsedCount pool out; Some (status, pool) }"
| "pool_do pool (CallGetCapacity out) =
     do { (status, _) \<leftarrow> memoryPoolGetCapacity pool out; Some (status, pool) }"
| "pool_do pool (CallGetBlockSize out) =
     do { (status, _) \<leftarrow> memoryPoolGetBlockSize pool out; Some (status, pool) }"

primrec pool_run :: "MemoryPool_t ptr \<Rightarrow> pool_call list \<Rightarrow> (MemoryPoolStatus_t list \<times> MemoryPool_t ptr) run" where
  "pool_run pool [] = Some ([], pool)"
| "pool_run pool (call # calls) =
     do {
       (status, pool') \<leftarrow> pool_do pool call;
       (statuses, pool'') \<leftarrow> pool_run pool' calls;
       Some (status # statuses, pool'')
     }"

text \<open>The statuses listed in the header for each function.\<close>

fun documented :: "pool_call \<Rightarrow> MemoryPoolStatus_t list" where
  "documented (CallInit stor st fs bs bc) =
     [MEMORY_POOL_SUCCESS, MEMORY_POOL_ERROR_NULL_POINTER, MEMORY_POOL_ERROR_ALREADY_INITIALIZED,
      MEMORY_POOL_ERROR_INVALID_BLOCK_SIZE, MEMORY_POOL_ERROR_INVALID_BLOCK_COUNT, MEMORY_POOL_ERROR_SIZE_OVERFLOW]"
| "documented (CallAcquire out) =
     [MEMORY_POOL_SUCCESS, MEMORY_POOL_ERROR_NULL_POINTER, MEMORY_POOL_ERROR_NOT_INITIALIZED, MEMORY_POOL_ERROR_POOL_FULL]"
| "documented (CallRelease b) =
     [MEMORY_POOL_SUCCESS, MEMORY_POOL_ERROR_NULL_POINTER, MEMORY_POOL_ERROR_NOT_INITIALIZED, MEMORY_POOL_ERROR_INVALID_BLOCK]"
| "documented call =
     [MEMORY_POOL_SUCCESS, MEMORY_POOL_ERROR_NULL_POINTER, MEMORY_POOL_ERROR_NOT_INITIALIZED]"

text \<open>
  The type of a pool object, and the caller's half of the contract of the initialisation: the
  metadata arrays have an entry for each block, and the storage lies in the address space.
\<close>

definition pool_typed :: "MemoryPool_t ptr \<Rightarrow> bool" where
  "pool_typed pool \<longleftrightarrow> (case pool of None \<Rightarrow> True | Some p \<Rightarrow> initialized p \<longrightarrow> mp_inv p)"

definition room_for :: "nat \<Rightarrow> 'a list ptr \<Rightarrow> bool" where
  "room_for n p \<longleftrightarrow> (case p of None \<Rightarrow> True | Some xs \<Rightarrow> n \<le> length xs)"

fun call_typed :: "pool_call \<Rightarrow> bool" where
  "call_typed (CallInit stor st fs bs bc) \<longleftrightarrow> room_for (unat bc) st \<and> room_for (unat bc) fs \<and>
     (unat bs * unat bc < size_limit \<longrightarrow> unat stor + unat bs * unat bc < size_limit)"
| "call_typed call \<longleftrightarrow> True"

lemma init_typed:
  assumes "pool_typed pool" "call_typed (CallInit stor st fs bs bc)"
  shows "\<exists>status pool'. memoryPoolInit pool stor st fs bs bc = Some (status, pool') \<and>
    pool_typed pool' \<and> status \<in> set (documented (CallInit stor st fs bs bc))"
proof (cases "pool = None \<or> stor = 0 \<or> st = None \<or> fs = None")
  case True
  with assms(1) show ?thesis by (auto simp: memoryPoolInit_def)
next
  case False
  then obtain p st0 fs0 where args: "pool = Some p" "st = Some st0" "fs = Some fs0" "stor \<noteq> 0" by auto
  show ?thesis
  proof (cases "initialized p \<or> bs = 0 \<or> bc = 0 \<or> size_limit \<le> unat bs * unat bc")
    case True
    then consider "initialized p \<or> bs = 0 \<or> bc = 0"
      | "\<not> initialized p" "bs \<noteq> 0" "bc \<noteq> 0" "size_limit \<le> unat bs * unat bc" by blast
    then show ?thesis
    proof cases
      case 1
      with args assms(1) show ?thesis by (auto simp: memoryPoolInit_def)
    next
      case 2
      with init_runs [OF 2(1-3), of stor st0 fs0] args assms show ?thesis by (simp add: room_for_def)
    qed
  next
    case False
    have "mp_inv (fresh_pool p stor st0 fs0 bs bc)"
      using False args assms(2) by (intro fresh_pool_inv) (auto simp: room_for_def)
    moreover have "memoryPoolInit pool stor st fs bs bc = Some (MEMORY_POOL_SUCCESS, Some (fresh_pool p stor st0 fs0 bs bc))"
      using init_runs [of p bs bc stor st0 fs0] False args assms(2) by (auto simp: room_for_def)
    ultimately show ?thesis
      by (simp add: pool_typed_def)
  qed
qed


lemma release_typed:
  assumes "mp_inv p"
  shows "\<exists>status p'. memoryPoolRelease (Some p) b = Some (status, Some p') \<and> mp_inv p' \<and>
    status \<in> {MEMORY_POOL_SUCCESS, MEMORY_POOL_ERROR_INVALID_BLOCK}"
proof (cases "\<exists>i. i < unat (blockCount p) \<and> b = mp_address p i \<and> i \<notin> set (mp_indices p)")
  case True
  then obtain i where i: "i < unat (blockCount p)" "b = mp_address p i" "i \<notin> set (mp_indices p)" by blast
  obtain p' where "memoryPoolRelease (Some p) (mp_address p i) = Some (MEMORY_POOL_SUCCESS, Some p')" "mp_inv p'"
    by (rule release_ok [OF assms i(1,3)])
  with i(2) show ?thesis by simp
next
  case False
  with release_bad [OF assms, of b] assms show ?thesis by blast
qed

lemma acquire_typed:
  assumes "mp_inv p"
  shows "\<exists>status p' a. memoryPoolAcquire (Some p) (Some b) = Some (status, Some p', Some a) \<and> mp_inv p' \<and>
    status \<in> {MEMORY_POOL_SUCCESS, MEMORY_POOL_ERROR_POOL_FULL}"
proof (cases "mp_indices p")
  case Nil
  with acquire_full [OF assms, of b] assms show ?thesis by (simp add: mp_free_def)
next
  case (Cons i "is")
  obtain p' where "memoryPoolAcquire (Some p) (Some b) = Some (MEMORY_POOL_SUCCESS, Some p', Some (mp_address p i))" "mp_inv p'"
    by (rule acquire_ok [OF assms Cons])
  then show ?thesis by simp
qed

lemma validate_cases:
  "validatePool pool = (case pool of None \<Rightarrow> MEMORY_POOL_ERROR_NULL_POINTER
     | Some p \<Rightarrow> if initialized p then MEMORY_POOL_SUCCESS else MEMORY_POOL_ERROR_NOT_INITIALIZED)"
  by (simp add: validatePool_def split: option.split)

lemmas query_defs = memoryPoolGetFreeCount_def memoryPoolGetUsedCount_def memoryPoolGetCapacity_def
  memoryPoolGetBlockSize_def

lemma pool_do_typed:
  assumes "pool_typed pool" "call_typed call"
  shows "\<exists>status pool'. pool_do pool call = Some (status, pool') \<and> pool_typed pool' \<and> status \<in> set (documented call)"
proof (cases call)
  case (CallInit stor st fs bs bc)
  with init_typed [OF assms(1), of stor st fs bs bc] assms(2) show ?thesis by simp
next
  case (CallAcquire out)
  show ?thesis
  proof (cases "out = None \<or> validatePool pool \<noteq> MEMORY_POOL_SUCCESS")
    case True
    with assms(1) CallAcquire show ?thesis
      by (auto simp: memoryPoolAcquire_def validate_cases split: option.splits if_splits)
  next
    case False
    then obtain p b where "pool = Some p" "initialized p" "out = Some b"
      by (auto simp: validate_cases split: option.splits if_splits)
    with acquire_typed [of p b] assms(1) CallAcquire show ?thesis
      by (auto simp: pool_typed_def)
  qed
next
  case (CallRelease b)
  show ?thesis
  proof (cases "validatePool pool = MEMORY_POOL_SUCCESS")
    case True
    then obtain p where "pool = Some p" "initialized p"
      by (auto simp: validate_cases split: option.splits if_splits)
    with release_typed [of p b] assms(1) CallRelease show ?thesis
      by (auto simp: pool_typed_def)
  next
    case False
    with assms(1) CallRelease show ?thesis
      by (auto simp: release_null_or_uninit validate_cases split: option.splits if_splits)
  qed
qed (use assms(1) in \<open>auto simp: query_defs validate_cases split: option.split\<close>)

lemma pool_run_typed:
  assumes "pool_typed pool" "\<forall>call\<in>set calls. call_typed call"
  shows "\<exists>statuses pool'. pool_run pool calls = Some (statuses, pool') \<and> pool_typed pool' \<and>
    list_all2 (\<lambda>call status. status \<in> set (documented call)) calls statuses"
  using assms
proof (induction calls arbitrary: pool)
  case Nil
  then show ?case by simp
next
  case (Cons call calls)
  obtain status pool1 where "pool_do pool call = Some (status, pool1)" "pool_typed pool1" "status \<in> set (documented call)"
    using pool_do_typed [OF Cons.prems(1), of call] Cons.prems(2) by auto
  with Cons.IH [of pool1] Cons.prems(2) show ?case by fastforce
qed

text \<open>C9: the calls of the memory pool are type safe.  On a pool in any state (none, not yet
  initialised, or in use), any sequence of calls with any arguments runs without undefined
  behaviour, as long as an initialisation is given metadata arrays large enough and a region
  inside the address space; each call returns one of the statuses that the header documents
  for it, and an initialised pool stays well-formed throughout.\<close>

theorem pool_calls_typed:
  assumes "case pool of None \<Rightarrow> True | Some p \<Rightarrow> initialized p \<longrightarrow> mp_inv p"
    and "\<forall>call\<in>set calls. call_typed call"
  shows "\<exists>statuses pool'. pool_run pool calls = Some (statuses, pool') \<and>
    list_all2 (\<lambda>call status. status \<in> set (documented call)) calls statuses \<and>
    (case pool' of None \<Rightarrow> True | Some p \<Rightarrow> initialized p \<longrightarrow> mp_inv p)"
  using pool_run_typed [of pool calls] assms unfolding pool_typed_def by blast

theorem pool_calls_typed_witness:
  "\<exists>p. pool_run (Some pool_example)
     [CallAcquire (Some 0), CallInit 0x1000 (Some [9, 9]) (Some [9, 9]) 8 2, CallAcquire (Some 0), CallAcquire None,
      CallRelease 0x1000, CallRelease 0x1000, CallGetFreeCount (Some 0)] =
     Some ([MEMORY_POOL_ERROR_NOT_INITIALIZED, MEMORY_POOL_SUCCESS, MEMORY_POOL_SUCCESS, MEMORY_POOL_ERROR_NULL_POINTER,
       MEMORY_POOL_ERROR_INVALID_BLOCK, MEMORY_POOL_ERROR_INVALID_BLOCK, MEMORY_POOL_SUCCESS], Some p) \<and> mp_inv p"
proof -
  let ?calls = "[CallAcquire (Some 0), CallInit 0x1000 (Some [9, 9]) (Some [9, 9]) 8 2, CallAcquire (Some 0), CallAcquire None,
      CallRelease 0x1000, CallRelease 0x1000, CallGetFreeCount (Some 0)]"
  have "case Some pool_example of None \<Rightarrow> True | Some p \<Rightarrow> initialized p \<longrightarrow> mp_inv p" "\<forall>call\<in>set ?calls. call_typed call"
    by (simp_all add: pool_example_def room_for_def)
  note run = pool_calls_typed [OF this]
  have "case pool_run (Some pool_example) ?calls of Some (sts, Some p) \<Rightarrow> initialized p \<and>
      sts = [MEMORY_POOL_ERROR_NOT_INITIALIZED, MEMORY_POOL_SUCCESS, MEMORY_POOL_SUCCESS, MEMORY_POOL_ERROR_NULL_POINTER,
       MEMORY_POOL_ERROR_INVALID_BLOCK, MEMORY_POOL_ERROR_INVALID_BLOCK, MEMORY_POOL_SUCCESS] | _ \<Rightarrow> False"
    by code_simp
  with run show ?thesis by (fastforce split: option.splits)
qed

end
