(* ===== verification/SwTimer.thy ===== *)
theory SwTimer
  imports Prelude
begin

text \<open>
  The software timer pool (\<open>include/swTimer.h\<close>, \<open>src/swTimer.c\<close>).  A pointer to a slot of
  the pool's storage is its index.  Callbacks are the application's code: a control block
  holds the name of its callback, and \<open>softwareTimerTick\<close> takes as a parameter what running
  a callback does to the pool and to the rest of the application (\<open>'w\<close>).
\<close>

record TimerHandle_t =
  index :: u8
  handleGeneration :: u8

datatype SoftwareTimerState_t =
    SOFTWARE_TIMER_STATE_UNUSED
  | SOFTWARE_TIMER_STATE_STOPPED
  | SOFTWARE_TIMER_STATE_RUNNING

text \<open>A C enum argument may hold a value that is none of its enumerators: the last constructor.\<close>

datatype SoftwareTimerMode_t =
    SOFTWARE_TIMER_MODE_ONE_SHOT
  | SOFTWARE_TIMER_MODE_PERIODIC
  | SOFTWARE_TIMER_MODE_OTHER u32

datatype SoftwareTimerStatus_t =
    SOFTWARE_TIMER_SUCCESS
  | SOFTWARE_TIMER_ERROR_NULL_POINTER
  | SOFTWARE_TIMER_ERROR_INVALID_HANDLE
  | SOFTWARE_TIMER_ERROR_INVALID_TIMEOUT
  | SOFTWARE_TIMER_ERROR_INVALID_MODE
  | SOFTWARE_TIMER_ERROR_INVALID_CAPACITY
  | SOFTWARE_TIMER_ERROR_POOL_FULL

record ('cb, 'ctx) TimerControlBlock_t =
  state :: SoftwareTimerState_t
  mode :: SoftwareTimerMode_t
  timeout :: u32
  remaining :: u32
  callback :: "'cb ptr"
  cbContext :: "'ctx ptr"
  generation :: u8

record ('cb, 'ctx) SoftwareTimerPool_t =
  storage :: "('cb, 'ctx) TimerControlBlock_t list ptr"
  capacity :: size_t

text \<open>
  The type of callbacks: what a call with a handle and a context pointer does to the pool and
  to the rest of the application, or that it is undefined.
\<close>

type_synonym ('cb, 'ctx, 'w) SoftwareTimerCallback_t =
  "TimerHandle_t \<Rightarrow> 'ctx ptr \<Rightarrow> ('cb, 'ctx) SoftwareTimerPool_t \<times> 'w \<Rightarrow>
   (('cb, 'ctx) SoftwareTimerPool_t \<times> 'w) run"

text \<open>\<open>pool == NULL || pool->storage == NULL\<close>\<close>

definition no_storage :: "('cb, 'ctx) SoftwareTimerPool_t ptr \<Rightarrow> bool" where
  "no_storage pool = (case pool of None \<Rightarrow> True | Some p \<Rightarrow> storage p = None)"

text \<open>\<open>outSlot\<close> points at a slot pointer, which on success is set to the handle's slot.\<close>

definition validateHandle ::
  "('cb, 'ctx) SoftwareTimerPool_t ptr \<Rightarrow> TimerHandle_t \<Rightarrow> nat ptr ptr \<Rightarrow>
   (SoftwareTimerStatus_t \<times> nat ptr ptr) run" where
  "validateHandle pool handle outSlot =
     (if no_storage pool \<or> outSlot = None then Some (SOFTWARE_TIMER_ERROR_NULL_POINTER, outSlot)
      else do {
        p \<leftarrow> deref pool;
        if ucast (index handle) \<ge> capacity p then Some (SOFTWARE_TIMER_ERROR_INVALID_HANDLE, outSlot)
        else do {
          s \<leftarrow> deref (storage p);
          slot \<leftarrow> rd s (unat (index handle));
          if state slot = SOFTWARE_TIMER_STATE_UNUSED \<or> generation slot \<noteq> handleGeneration handle
          then Some (SOFTWARE_TIMER_ERROR_INVALID_HANDLE, outSlot)
          else Some (SOFTWARE_TIMER_SUCCESS, Some (Some (unat (index handle))))
        }
      })"

definition softwareTimerInit ::
  "('cb, 'ctx) SoftwareTimerPool_t ptr \<Rightarrow> ('cb, 'ctx) TimerControlBlock_t list ptr \<Rightarrow> size_t \<Rightarrow>
   (SoftwareTimerStatus_t \<times> ('cb, 'ctx) SoftwareTimerPool_t ptr) run" where
  "softwareTimerInit pool stor cap =
     (if pool = None \<or> stor = None then Some (SOFTWARE_TIMER_ERROR_NULL_POINTER, pool)
      else if cap = 0 then Some (SOFTWARE_TIMER_ERROR_INVALID_CAPACITY, pool)
      else do {
        p \<leftarrow> deref pool;
        s0 \<leftarrow> deref stor;
        s1 \<leftarrow> for_upto (unat cap) 0
          (\<lambda>i s. wr s i \<lparr>state = SOFTWARE_TIMER_STATE_UNUSED, mode = SOFTWARE_TIMER_MODE_ONE_SHOT,
             timeout = 0, remaining = 0, callback = None, cbContext = None, generation = 0\<rparr>) s0;
        Some (SOFTWARE_TIMER_SUCCESS, Some (p\<lparr>storage := Some s1, capacity := cap\<rparr>))
      })"

text \<open>
  The scan of \<open>softwareTimerCreate\<close>, with \<open>n\<close> slots left from slot \<open>i\<close> on: the first unused
  slot, if there is one.
\<close>

primrec firstUnused :: "nat \<Rightarrow> nat \<Rightarrow> ('cb, 'ctx) TimerControlBlock_t list \<Rightarrow> nat option run" where
  "firstUnused 0 i s = Some None"
| "firstUnused (Suc n) i s =
     do {
       slot \<leftarrow> rd s i;
       if state slot = SOFTWARE_TIMER_STATE_UNUSED then Some (Some i) else firstUnused n (Suc i) s
     }"

definition softwareTimerCreate ::
  "('cb, 'ctx) SoftwareTimerPool_t ptr \<Rightarrow> SoftwareTimerMode_t \<Rightarrow> 'cb ptr \<Rightarrow> 'ctx ptr \<Rightarrow> TimerHandle_t ptr \<Rightarrow>
   (SoftwareTimerStatus_t \<times> ('cb, 'ctx) SoftwareTimerPool_t ptr \<times> TimerHandle_t ptr) run" where
  "softwareTimerCreate pool md cb ctx outHandle =
     (if no_storage pool \<or> cb = None \<or> outHandle = None
      then Some (SOFTWARE_TIMER_ERROR_NULL_POINTER, pool, outHandle)
      else if md \<noteq> SOFTWARE_TIMER_MODE_ONE_SHOT \<and> md \<noteq> SOFTWARE_TIMER_MODE_PERIODIC
      then Some (SOFTWARE_TIMER_ERROR_INVALID_MODE, pool, outHandle)
      else do {
        p \<leftarrow> deref pool;
        s \<leftarrow> deref (storage p);
        found \<leftarrow> firstUnused (unat (capacity p)) 0 s;
        (case found of
           None \<Rightarrow> Some (SOFTWARE_TIMER_ERROR_POOL_FULL, pool, outHandle)
         | Some i \<Rightarrow> do {
             slot \<leftarrow> rd s i;
             s' \<leftarrow> wr s i (slot\<lparr>mode := md, callback := cb, cbContext := ctx, timeout := 0, remaining := 0,
               state := SOFTWARE_TIMER_STATE_STOPPED\<rparr>);
             h \<leftarrow> deref outHandle;
             Some (SOFTWARE_TIMER_SUCCESS, Some (p\<lparr>storage := Some s'\<rparr>),
               Some (h\<lparr>index := of_nat i, handleGeneration := generation slot\<rparr>))
           })
      })"

text \<open>The operations on one timer: validate the handle, then update its slot.\<close>

definition softwareTimerStart ::
  "('cb, 'ctx) SoftwareTimerPool_t ptr \<Rightarrow> TimerHandle_t \<Rightarrow> u32 \<Rightarrow>
   (SoftwareTimerStatus_t \<times> ('cb, 'ctx) SoftwareTimerPool_t ptr) run" where
  "softwareTimerStart pool handle timeoutTicks =
     do {
       (status, out) \<leftarrow> validateHandle pool handle (Some None);
       if status \<noteq> SOFTWARE_TIMER_SUCCESS then Some (status, pool)
       else if timeoutTicks = 0 then Some (SOFTWARE_TIMER_ERROR_INVALID_TIMEOUT, pool)
       else do {
         p \<leftarrow> deref pool;
         s \<leftarrow> deref (storage p);
         slotp \<leftarrow> deref out;
         i \<leftarrow> deref slotp;
         slot \<leftarrow> rd s i;
         s' \<leftarrow> wr s i (slot\<lparr>timeout := timeoutTicks, remaining := timeoutTicks,
           state := SOFTWARE_TIMER_STATE_RUNNING\<rparr>);
         Some (SOFTWARE_TIMER_SUCCESS, Some (p\<lparr>storage := Some s'\<rparr>))
       }
     }"

definition softwareTimerStop ::
  "('cb, 'ctx) SoftwareTimerPool_t ptr \<Rightarrow> TimerHandle_t \<Rightarrow>
   (SoftwareTimerStatus_t \<times> ('cb, 'ctx) SoftwareTimerPool_t ptr) run" where
  "softwareTimerStop pool handle =
     do {
       (status, out) \<leftarrow> validateHandle pool handle (Some None);
       if status \<noteq> SOFTWARE_TIMER_SUCCESS then Some (status, pool)
       else do {
         p \<leftarrow> deref pool;
         s \<leftarrow> deref (storage p);
         slotp \<leftarrow> deref out;
         i \<leftarrow> deref slotp;
         slot \<leftarrow> rd s i;
         s' \<leftarrow> wr s i (slot\<lparr>state := SOFTWARE_TIMER_STATE_STOPPED, remaining := 0\<rparr>);
         Some (SOFTWARE_TIMER_SUCCESS, Some (p\<lparr>storage := Some s'\<rparr>))
       }
     }"

definition softwareTimerDelete ::
  "('cb, 'ctx) SoftwareTimerPool_t ptr \<Rightarrow> TimerHandle_t \<Rightarrow>
   (SoftwareTimerStatus_t \<times> ('cb, 'ctx) SoftwareTimerPool_t ptr) run" where
  "softwareTimerDelete pool handle =
     do {
       (status, out) \<leftarrow> validateHandle pool handle (Some None);
       if status \<noteq> SOFTWARE_TIMER_SUCCESS then Some (status, pool)
       else do {
         p \<leftarrow> deref pool;
         s \<leftarrow> deref (storage p);
         slotp \<leftarrow> deref out;
         i \<leftarrow> deref slotp;
         slot \<leftarrow> rd s i;
         s' \<leftarrow> wr s i (slot\<lparr>state := SOFTWARE_TIMER_STATE_UNUSED, timeout := 0, remaining := 0,
           callback := None, cbContext := None, generation := generation slot + 1\<rparr>);
         Some (SOFTWARE_TIMER_SUCCESS, Some (p\<lparr>storage := Some s'\<rparr>))
       }
     }"

text \<open>
  One round of the scan of \<open>softwareTimerTick\<close>: the slot is counted down, reloaded or
  stopped, and only then is its callback run.  \<open>exec\<close> is what a callback does.
\<close>

definition tickSlot ::
  "('cb \<Rightarrow> ('cb, 'ctx, 'w) SoftwareTimerCallback_t) \<Rightarrow>
   nat \<Rightarrow> ('cb, 'ctx) SoftwareTimerPool_t \<times> 'w \<Rightarrow> (('cb, 'ctx) SoftwareTimerPool_t \<times> 'w) run" where
  "tickSlot exec i pw =
     (case pw of (pool, w) \<Rightarrow> do {
       s \<leftarrow> deref (storage pool);
       slot \<leftarrow> rd s i;
       if state slot = SOFTWARE_TIMER_STATE_RUNNING then do {
         let slot1 = (if remaining slot > 0 then slot\<lparr>remaining := remaining slot - 1\<rparr> else slot);
         if remaining slot1 = 0 then do {
           let firedHandle = \<lparr>index = of_nat i, handleGeneration = generation slot1\<rparr>;
           let slot2 = (if mode slot1 = SOFTWARE_TIMER_MODE_PERIODIC
                        then slot1\<lparr>remaining := timeout slot1\<rparr>
                        else slot1\<lparr>state := SOFTWARE_TIMER_STATE_STOPPED\<rparr>);
           s' \<leftarrow> wr s i slot2;
           (case callback slot1 of
              None \<Rightarrow> Some (pool\<lparr>storage := Some s'\<rparr>, w)
            | Some cb \<Rightarrow> exec cb firedHandle (cbContext slot1) (pool\<lparr>storage := Some s'\<rparr>, w))
         } else do {
           s' \<leftarrow> wr s i slot1;
           Some (pool\<lparr>storage := Some s'\<rparr>, w)
         }
       } else Some (pool, w)
     })"

text \<open>The capacity is read again in every round, as the callbacks share the pool.\<close>

function tickFrom ::
  "('cb \<Rightarrow> ('cb, 'ctx, 'w) SoftwareTimerCallback_t) \<Rightarrow>
   nat \<Rightarrow> ('cb, 'ctx) SoftwareTimerPool_t \<times> 'w \<Rightarrow> (('cb, 'ctx) SoftwareTimerPool_t \<times> 'w) run" where
  "tickFrom exec i pw =
     (if i < unat (capacity (fst pw))
      then do { pw' \<leftarrow> tickSlot exec i pw; tickFrom exec (Suc i) pw' }
      else Some pw)"
  by auto

termination
proof (relation "measure (\<lambda>(exec, i, pw). size_limit - i)")
  fix exec :: "'cb \<Rightarrow> ('cb, 'ctx, 'w) SoftwareTimerCallback_t" and i and pw pw' :: "('cb, 'ctx) SoftwareTimerPool_t \<times> 'w"
  assume "i < unat (capacity (fst pw))"
  from less_trans [OF this unat_less_size] have "i < size_limit"
    by simp
  then show "((exec, Suc i, pw'), exec, i, pw) \<in> measure (\<lambda>(exec, i, pw). size_limit - i)"
    by simp
qed simp

declare tickFrom.simps [simp del]

definition softwareTimerTick ::
  "('cb \<Rightarrow> ('cb, 'ctx, 'w) SoftwareTimerCallback_t) \<Rightarrow>
   ('cb, 'ctx) SoftwareTimerPool_t ptr \<times> 'w \<Rightarrow>
   (SoftwareTimerStatus_t \<times> ('cb, 'ctx) SoftwareTimerPool_t ptr \<times> 'w) run" where
  "softwareTimerTick exec poolw =
     (case poolw of (pool, w) \<Rightarrow>
        if no_storage pool then Some (SOFTWARE_TIMER_ERROR_NULL_POINTER, pool, w)
        else do {
          p \<leftarrow> deref pool;
          (p', w') \<leftarrow> tickFrom exec 0 (p, w);
          Some (SOFTWARE_TIMER_SUCCESS, Some p', w')
        })"

definition softwareTimerGetState ::
  "('cb, 'ctx) SoftwareTimerPool_t ptr \<Rightarrow> TimerHandle_t \<Rightarrow> SoftwareTimerState_t ptr \<Rightarrow>
   (SoftwareTimerStatus_t \<times> SoftwareTimerState_t ptr) run" where
  "softwareTimerGetState pool handle outState =
     (if outState = None then Some (SOFTWARE_TIMER_ERROR_NULL_POINTER, outState)
      else do {
        (status, out) \<leftarrow> validateHandle pool handle (Some None);
        if status \<noteq> SOFTWARE_TIMER_SUCCESS then Some (status, outState)
        else do {
          p \<leftarrow> deref pool;
          s \<leftarrow> deref (storage p);
          slotp \<leftarrow> deref out;
          i \<leftarrow> deref slotp;
          slot \<leftarrow> rd s i;
          Some (SOFTWARE_TIMER_SUCCESS, Some (state slot))
        }
      })"

definition softwareTimerGetRemainingTicks ::
  "('cb, 'ctx) SoftwareTimerPool_t ptr \<Rightarrow> TimerHandle_t \<Rightarrow> u32 ptr \<Rightarrow>
   (SoftwareTimerStatus_t \<times> u32 ptr) run" where
  "softwareTimerGetRemainingTicks pool handle outRemaining =
     (if outRemaining = None then Some (SOFTWARE_TIMER_ERROR_NULL_POINTER, outRemaining)
      else do {
        (status, out) \<leftarrow> validateHandle pool handle (Some None);
        if status \<noteq> SOFTWARE_TIMER_SUCCESS then Some (status, outRemaining)
        else do {
          p \<leftarrow> deref pool;
          s \<leftarrow> deref (storage p);
          slotp \<leftarrow> deref out;
          i \<leftarrow> deref slotp;
          slot \<leftarrow> rd s i;
          Some (SOFTWARE_TIMER_SUCCESS, Some (remaining slot))
        }
      })"

subsection \<open>Well-formed pools and live handles\<close>

definition tcb :: "('cb, 'ctx) SoftwareTimerPool_t \<Rightarrow> nat \<Rightarrow> ('cb, 'ctx) TimerControlBlock_t" where
  "tcb p i = the (storage p) ! i"

definition live :: "('cb, 'ctx) SoftwareTimerPool_t \<Rightarrow> TimerHandle_t \<Rightarrow> bool" where
  "live p h \<longleftrightarrow> unat (index h) < unat (capacity p) \<and>
     state (tcb p (unat (index h))) \<noteq> SOFTWARE_TIMER_STATE_UNUSED \<and>
     generation (tcb p (unat (index h))) = handleGeneration h"

text \<open>
  A running timer has at least one tick left and never more than its timeout; any other
  slot has none.  A slot in use has a callback.
\<close>

definition slot_wf :: "('cb, 'ctx) TimerControlBlock_t \<Rightarrow> bool" where
  "slot_wf t \<longleftrightarrow>
     (case state t of
        SOFTWARE_TIMER_STATE_UNUSED \<Rightarrow> remaining t = 0 \<and> callback t = None
      | SOFTWARE_TIMER_STATE_STOPPED \<Rightarrow> remaining t = 0 \<and> callback t \<noteq> None
      | SOFTWARE_TIMER_STATE_RUNNING \<Rightarrow> 0 < remaining t \<and> remaining t \<le> timeout t \<and> callback t \<noteq> None) \<and>
     (mode t = SOFTWARE_TIMER_MODE_ONE_SHOT \<or> mode t = SOFTWARE_TIMER_MODE_PERIODIC)"

definition pool_wf :: "('cb, 'ctx) SoftwareTimerPool_t \<Rightarrow> bool" where
  "pool_wf p \<longleftrightarrow>
     (case storage p of None \<Rightarrow> False | Some s \<Rightarrow>
        0 < unat (capacity p) \<and> unat (capacity p) \<le> length s \<and>
        (\<forall>i<unat (capacity p). slot_wf (s ! i)))"

definition upd ::
  "('cb, 'ctx) SoftwareTimerPool_t \<Rightarrow> nat \<Rightarrow>
   (('cb, 'ctx) TimerControlBlock_t \<Rightarrow> ('cb, 'ctx) TimerControlBlock_t) \<Rightarrow> ('cb, 'ctx) SoftwareTimerPool_t" where
  "upd p i f = p\<lparr>storage := map_option (\<lambda>s. s[i := f (s ! i)]) (storage p)\<rparr>"

lemma pool_wfE:
  assumes "pool_wf p"
  obtains s where "storage p = Some s" "0 < unat (capacity p)" "unat (capacity p) \<le> length s"
    "\<forall>i<unat (capacity p). slot_wf (s ! i)" "\<not> no_storage (Some p)"
  using assms by (auto simp: pool_wf_def no_storage_def split: option.splits)

lemma slot_wfD: "pool_wf p \<Longrightarrow> i < unat (capacity p) \<Longrightarrow> slot_wf (tcb p i)"
  by (auto elim!: pool_wfE simp: tcb_def)

lemma capacity_upd [simp]: "capacity (upd p i f) = capacity p"
  by (simp add: upd_def)

lemma tcb_upd: "pool_wf p \<Longrightarrow> i < unat (capacity p) \<Longrightarrow>
   tcb (upd p i f) k = (if k = i then f (tcb p i) else tcb p k)"
  by (auto elim!: pool_wfE simp: tcb_def upd_def)

lemma pool_wf_upd:
  assumes "pool_wf p" "i < unat (capacity p)" "slot_wf (f (tcb p i))"
  shows "pool_wf (upd p i f)"
proof -
  obtain s where "storage p = Some s" "0 < unat (capacity p)" "unat (capacity p) \<le> length s"
    "\<forall>i<unat (capacity p). slot_wf (s ! i)"
    using assms(1) by (rule pool_wfE)
  with assms(2,3) show ?thesis
    by (auto simp: pool_wf_def upd_def tcb_def nth_list_update)
qed

lemma upd_same: "pool_wf p \<Longrightarrow> i < unat (capacity p) \<Longrightarrow> f (tcb p i) = tcb p i \<Longrightarrow> upd p i f = p"
  by (auto elim!: pool_wfE simp: upd_def tcb_def)

lemma liveD: "live p h \<Longrightarrow> unat (index h) < unat (capacity p)"
  by (simp add: live_def)

subsection \<open>What the operations do on a well-formed pool\<close>

definition start_slot :: "u32 \<Rightarrow> ('cb, 'ctx) TimerControlBlock_t \<Rightarrow> ('cb, 'ctx) TimerControlBlock_t" where
  "start_slot n t = t\<lparr>timeout := n, remaining := n, state := SOFTWARE_TIMER_STATE_RUNNING\<rparr>"

definition stop_slot :: "('cb, 'ctx) TimerControlBlock_t \<Rightarrow> ('cb, 'ctx) TimerControlBlock_t" where
  "stop_slot t = t\<lparr>state := SOFTWARE_TIMER_STATE_STOPPED, remaining := 0\<rparr>"

definition delete_slot :: "('cb, 'ctx) TimerControlBlock_t \<Rightarrow> ('cb, 'ctx) TimerControlBlock_t" where
  "delete_slot t = t\<lparr>state := SOFTWARE_TIMER_STATE_UNUSED, timeout := 0, remaining := 0, callback := None,
     cbContext := None, generation := generation t + 1\<rparr>"

definition create_slot ::
  "SoftwareTimerMode_t \<Rightarrow> 'cb ptr \<Rightarrow> 'ctx ptr \<Rightarrow> ('cb, 'ctx) TimerControlBlock_t \<Rightarrow> ('cb, 'ctx) TimerControlBlock_t" where
  "create_slot md cb ctx t = t\<lparr>mode := md, callback := cb, cbContext := ctx, timeout := 0, remaining := 0,
     state := SOFTWARE_TIMER_STATE_STOPPED\<rparr>"

named_theorems slot_defs \<open>the slot updates\<close>
declare start_slot_def [slot_defs] stop_slot_def [slot_defs] delete_slot_def [slot_defs] create_slot_def [slot_defs]

lemma validate_eq:
  assumes "pool_wf p"
  shows "validateHandle (Some p) h (Some out) =
    Some (if live p h then (SOFTWARE_TIMER_SUCCESS, Some (Some (unat (index h))))
          else (SOFTWARE_TIMER_ERROR_INVALID_HANDLE, Some out))"
proof -
  obtain s where "storage p = Some s" "unat (capacity p) \<le> length s" "\<not> no_storage (Some p)"
    using assms by (rule pool_wfE)
  then show ?thesis
    by (auto simp: validateHandle_def live_def tcb_def word_le_nat_alt)
qed

lemma slot_access:
  assumes "pool_wf p" "live p h"
  obtains s where "storage p = Some s" "rd s (unat (index h)) = Some (tcb p (unat (index h)))"
    "\<And>t. wr s (unat (index h)) t = Some (s[unat (index h) := t])"
    "\<And>f. p\<lparr>storage := Some (s[unat (index h) := f (tcb p (unat (index h)))])\<rparr> = upd p (unat (index h)) f"
proof -
  obtain s where s: "storage p = Some s" "unat (capacity p) \<le> length s"
    using assms(1) by (rule pool_wfE)
  then show thesis
    using that [of s] liveD [OF assms(2)] by (simp add: tcb_def upd_def)
qed

lemma start_eq:
  assumes wf: "pool_wf p"
  shows "softwareTimerStart (Some p) h n =
    Some (if \<not> live p h then (SOFTWARE_TIMER_ERROR_INVALID_HANDLE, Some p)
          else if n = 0 then (SOFTWARE_TIMER_ERROR_INVALID_TIMEOUT, Some p)
          else (SOFTWARE_TIMER_SUCCESS, Some (upd p (unat (index h)) (start_slot n))))"
proof (cases "live p h")
  case True
  obtain s where s: "storage p = Some s" "rd s (unat (index h)) = Some (tcb p (unat (index h)))"
    "\<And>t. wr s (unat (index h)) t = Some (s[unat (index h) := t])"
    "\<And>f. p\<lparr>storage := Some (s[unat (index h) := f (tcb p (unat (index h)))])\<rparr> = upd p (unat (index h)) f"
    using slot_access [OF wf True] by blast
  from s(1-3) s(4) [of "start_slot n"] True show ?thesis
    by (simp add: softwareTimerStart_def validate_eq [OF wf] start_slot_def)
qed (simp add: softwareTimerStart_def validate_eq [OF wf])

lemma stop_eq:
  assumes wf: "pool_wf p"
  shows "softwareTimerStop (Some p) h =
    Some (if \<not> live p h then (SOFTWARE_TIMER_ERROR_INVALID_HANDLE, Some p)
          else (SOFTWARE_TIMER_SUCCESS, Some (upd p (unat (index h)) stop_slot)))"
proof (cases "live p h")
  case True
  obtain s where s: "storage p = Some s" "rd s (unat (index h)) = Some (tcb p (unat (index h)))"
    "\<And>t. wr s (unat (index h)) t = Some (s[unat (index h) := t])"
    "\<And>f. p\<lparr>storage := Some (s[unat (index h) := f (tcb p (unat (index h)))])\<rparr> = upd p (unat (index h)) f"
    using slot_access [OF wf True] by blast
  from s(1-3) s(4) [of stop_slot] True show ?thesis
    by (simp add: softwareTimerStop_def validate_eq [OF wf] stop_slot_def)
qed (simp add: softwareTimerStop_def validate_eq [OF wf])

lemma delete_eq:
  assumes wf: "pool_wf p"
  shows "softwareTimerDelete (Some p) h =
    Some (if \<not> live p h then (SOFTWARE_TIMER_ERROR_INVALID_HANDLE, Some p)
          else (SOFTWARE_TIMER_SUCCESS, Some (upd p (unat (index h)) delete_slot)))"
proof (cases "live p h")
  case True
  obtain s where s: "storage p = Some s" "rd s (unat (index h)) = Some (tcb p (unat (index h)))"
    "\<And>t. wr s (unat (index h)) t = Some (s[unat (index h) := t])"
    "\<And>f. p\<lparr>storage := Some (s[unat (index h) := f (tcb p (unat (index h)))])\<rparr> = upd p (unat (index h)) f"
    using slot_access [OF wf True] by blast
  from s(1-3) s(4) [of delete_slot] True show ?thesis
    by (simp add: softwareTimerDelete_def validate_eq [OF wf] delete_slot_def)
qed (simp add: softwareTimerDelete_def validate_eq [OF wf])

lemma queries_eq:
  assumes wf: "pool_wf p"
  shows "softwareTimerGetState (Some p) h (Some st) =
      Some (if live p h then (SOFTWARE_TIMER_SUCCESS, Some (state (tcb p (unat (index h)))))
            else (SOFTWARE_TIMER_ERROR_INVALID_HANDLE, Some st))"
    and "softwareTimerGetRemainingTicks (Some p) h (Some r) =
      Some (if live p h then (SOFTWARE_TIMER_SUCCESS, Some (remaining (tcb p (unat (index h)))))
            else (SOFTWARE_TIMER_ERROR_INVALID_HANDLE, Some r))"
proof -
  show "softwareTimerGetState (Some p) h (Some st) =
      Some (if live p h then (SOFTWARE_TIMER_SUCCESS, Some (state (tcb p (unat (index h)))))
            else (SOFTWARE_TIMER_ERROR_INVALID_HANDLE, Some st))"
    by (cases "live p h"; auto elim!: slot_access [OF wf] simp: softwareTimerGetState_def validate_eq [OF wf])
  show "softwareTimerGetRemainingTicks (Some p) h (Some r) =
      Some (if live p h then (SOFTWARE_TIMER_SUCCESS, Some (remaining (tcb p (unat (index h)))))
            else (SOFTWARE_TIMER_ERROR_INVALID_HANDLE, Some r))"
    by (cases "live p h"; auto elim!: slot_access [OF wf] simp: softwareTimerGetRemainingTicks_def validate_eq [OF wf])
qed

lemma slot_wf_updates:
  "slot_wf t \<Longrightarrow> state t \<noteq> SOFTWARE_TIMER_STATE_UNUSED \<Longrightarrow> n \<noteq> 0 \<Longrightarrow> slot_wf (start_slot n t)"
  "slot_wf t \<Longrightarrow> state t \<noteq> SOFTWARE_TIMER_STATE_UNUSED \<Longrightarrow> slot_wf (stop_slot t)"
  "slot_wf t \<Longrightarrow> slot_wf (delete_slot t)"
  "md = SOFTWARE_TIMER_MODE_ONE_SHOT \<or> md = SOFTWARE_TIMER_MODE_PERIODIC \<Longrightarrow> slot_wf (create_slot md (Some cb) ctx t)"
  by (auto simp: slot_wf_def slot_defs word_gt_0 split: SoftwareTimerState_t.splits)

subsection \<open>Creation\<close>

lemma firstUnused_eq:
  "i + n \<le> length s \<Longrightarrow>
   firstUnused n i s = Some (List.find (\<lambda>k. state (s ! k) = SOFTWARE_TIMER_STATE_UNUSED) [i ..< i + n])"
proof (induction n arbitrary: i)
  case 0
  then show ?case by simp
next
  case (Suc n)
  have "[i ..< i + Suc n] = i # [Suc i ..< Suc i + n]"
    by (simp add: upt_rec)
  with Suc show ?case by (simp del: upt_Suc)
qed

definition first_free :: "('cb, 'ctx) SoftwareTimerPool_t \<Rightarrow> nat option" where
  "first_free p = List.find (\<lambda>k. state (tcb p k) = SOFTWARE_TIMER_STATE_UNUSED) [0 ..< unat (capacity p)]"

lemma first_free_Some:
  assumes "first_free p = Some i"
  shows "i < unat (capacity p)" "state (tcb p i) = SOFTWARE_TIMER_STATE_UNUSED"
    and "k < i \<Longrightarrow> state (tcb p k) \<noteq> SOFTWARE_TIMER_STATE_UNUSED"
  using assms by (auto simp: first_free_def find_Some_iff)

lemma first_free_None:
  "first_free p = None \<longleftrightarrow> (\<forall>k<unat (capacity p). state (tcb p k) \<noteq> SOFTWARE_TIMER_STATE_UNUSED)"
  by (auto simp: first_free_def find_None_iff)

lemma create_eq:
  assumes wf: "pool_wf p" and md: "md = SOFTWARE_TIMER_MODE_ONE_SHOT \<or> md = SOFTWARE_TIMER_MODE_PERIODIC"
  shows "softwareTimerCreate (Some p) md (Some cb) ctx (Some h) =
    Some (case first_free p of
            None \<Rightarrow> (SOFTWARE_TIMER_ERROR_POOL_FULL, Some p, Some h)
          | Some i \<Rightarrow> (SOFTWARE_TIMER_SUCCESS, Some (upd p i (create_slot md (Some cb) ctx)),
              Some (h\<lparr>index := of_nat i, handleGeneration := generation (tcb p i)\<rparr>)))"
proof -
  obtain s where s: "storage p = Some s" "unat (capacity p) \<le> length s" "\<not> no_storage (Some p)"
    using wf by (rule pool_wfE)
  have found: "firstUnused (unat (capacity p)) 0 s = Some (first_free p)"
    using firstUnused_eq [of 0 "unat (capacity p)" s] s by (simp add: first_free_def tcb_def)
  show ?thesis
  proof (cases "first_free p")
    case None
    with s found md show ?thesis by (auto simp: softwareTimerCreate_def)
  next
    case (Some i)
    with first_free_Some(1) [OF Some] s found md show ?thesis
      by (auto simp: softwareTimerCreate_def upd_def create_slot_def tcb_def)
  qed
qed

lemma create_bad:
  "pool_wf p \<Longrightarrow> softwareTimerCreate (Some p) (SOFTWARE_TIMER_MODE_OTHER v) (Some cb) ctx (Some h) =
     Some (SOFTWARE_TIMER_ERROR_INVALID_MODE, Some p, Some h)"
  "softwareTimerCreate (Some p) md None ctx (Some h) = Some (SOFTWARE_TIMER_ERROR_NULL_POINTER, Some p, Some h)"
  by (auto elim!: pool_wfE simp: softwareTimerCreate_def)

subsection \<open>Initialisation\<close>

definition blank_slot :: "('cb, 'ctx) TimerControlBlock_t" where
  "blank_slot = \<lparr>state = SOFTWARE_TIMER_STATE_UNUSED, mode = SOFTWARE_TIMER_MODE_ONE_SHOT,
     timeout = 0, remaining = 0, callback = None, cbContext = None, generation = 0\<rparr>"

text \<open>The pool over a storage \<open>s\<close>, all of whose \<open>cap\<close> slots are unused.\<close>

definition fresh_pool :: "('cb, 'ctx) TimerControlBlock_t list \<Rightarrow> size_t \<Rightarrow> ('cb, 'ctx) SoftwareTimerPool_t" where
  "fresh_pool s cap = \<lparr>storage = Some (replicate (unat cap) blank_slot @ drop (unat cap) s), capacity = cap\<rparr>"

lemma blank_slot_wf [simp]: "slot_wf blank_slot"
  by (simp add: slot_wf_def blank_slot_def)

lemma fresh_pool_slots:
  "capacity (fresh_pool s cap) = cap"
  "i < unat cap \<Longrightarrow> tcb (fresh_pool s cap) i = blank_slot"
  by (simp_all add: fresh_pool_def tcb_def nth_append)

lemma fresh_pool_wf: "cap \<noteq> 0 \<Longrightarrow> unat cap \<le> length s \<Longrightarrow> pool_wf (fresh_pool s cap)"
  by (auto simp: pool_wf_def fresh_pool_def nth_append unat_gt_0)

lemma init_eq:
  assumes "cap \<noteq> 0" "unat cap \<le> length s"
  shows "softwareTimerInit (Some p) (Some s) cap = Some (SOFTWARE_TIMER_SUCCESS, Some (fresh_pool s cap))"
  using for_upto_fill [of 0 "unat cap" s "\<lambda>_. blank_slot"] assms
  by (cases p) (simp add: softwareTimerInit_def blank_slot_def [symmetric] fresh_pool_def map_replicate_const)

lemma init_refused:
  "softwareTimerInit (Some p) None cap = Some (SOFTWARE_TIMER_ERROR_NULL_POINTER, Some p)"
  "softwareTimerInit (Some p) (Some s) 0 = Some (SOFTWARE_TIMER_ERROR_INVALID_CAPACITY, Some p)"
  by (simp_all add: softwareTimerInit_def)

end
