(* ===== verification/SwTimerTick.thy ===== *)
theory SwTimerTick
  imports SwTimer
begin

text \<open>
  \<open>softwareTimerTick\<close> and its callbacks.  The contract a callback must keep is the locale
  \<open>timer_callbacks\<close>: it leaves the pool well-formed, and of a capacity that fits; under it a
  tick always completes.  \<open>sparing_callbacks\<close> adds that the callbacks leave the timer in one
  slot alone; that timer then counts ticks exactly, also those that callbacks make.  Both are
  interpreted in \<open>TimerScript\<close> and \<open>TimerQuiet\<close>, on callbacks that make calls of the module's own
  API on the pool that is ticking.
\<close>

subsection \<open>One tick of one slot\<close>

definition expires :: "('cb, 'ctx) TimerControlBlock_t \<Rightarrow> bool" where
  "expires t \<longleftrightarrow> state t = SOFTWARE_TIMER_STATE_RUNNING \<and> remaining t = 1"

definition tick_slot :: "('cb, 'ctx) TimerControlBlock_t \<Rightarrow> ('cb, 'ctx) TimerControlBlock_t" where
  "tick_slot t =
     (if state t \<noteq> SOFTWARE_TIMER_STATE_RUNNING then t
      else if remaining t \<noteq> 1 then t\<lparr>remaining := remaining t - 1\<rparr>
      else if mode t = SOFTWARE_TIMER_MODE_PERIODIC then t\<lparr>remaining := timeout t\<rparr>
      else t\<lparr>remaining := 0, state := SOFTWARE_TIMER_STATE_STOPPED\<rparr>)"

definition handle_at :: "('cb, 'ctx) SoftwareTimerPool_t \<Rightarrow> nat \<Rightarrow> TimerHandle_t" where
  "handle_at p i = \<lparr>index = of_nat i, handleGeneration = generation (tcb p i)\<rparr>"

lemma tick_slot_state:
  "state (tick_slot t) = SOFTWARE_TIMER_STATE_UNUSED \<longleftrightarrow> state t = SOFTWARE_TIMER_STATE_UNUSED"
  by (simp add: tick_slot_def)

lemma tick_slot_kept [simp]:
  "generation (tick_slot t) = generation t" "callback (tick_slot t) = callback t"
  "cbContext (tick_slot t) = cbContext t" "mode (tick_slot t) = mode t" "timeout (tick_slot t) = timeout t"
  by (simp_all add: tick_slot_def)

lemma slot_wf_tick: "slot_wf t \<Longrightarrow> slot_wf (tick_slot t)"
proof -
  assume wf: "slot_wf t"
  show ?thesis
  proof (cases "state t = SOFTWARE_TIMER_STATE_RUNNING")
    case True
    with wf have r: "0 < unat (remaining t)" "unat (remaining t) \<le> unat (timeout t)"
      by (auto simp: slot_wf_def word_less_nat_alt word_le_nat_alt)
    have "unat (remaining t - 1) = unat (remaining t) - 1"
      using r(1) by (subst unat_sub_noof) auto
    moreover have "remaining t \<noteq> 1 \<longleftrightarrow> unat (remaining t) \<noteq> 1"
      by (simp add: word_unat_eq_iff)
    ultimately show ?thesis
      using wf True r by (auto simp: slot_wf_def tick_slot_def word_less_nat_alt word_le_nat_alt)
  qed (use wf in \<open>simp add: tick_slot_def\<close>)
qed

lemma tickSlot_eq:
  assumes wf: "pool_wf p" and i: "i < unat (capacity p)"
  shows "tickSlot exec i (p, w) =
    (if expires (tcb p i)
     then exec (the (callback (tcb p i))) (handle_at p i) (cbContext (tcb p i)) (upd p i tick_slot, w)
     else Some (upd p i tick_slot, w))"
proof -
  obtain s where s: "storage p = Some s" "unat (capacity p) \<le> length s"
    using wf by (rule pool_wfE)
  have t: "slot_wf (tcb p i)"
    using wf i by (rule slot_wfD)
  have r: "rd s i = Some (tcb p i)" "\<And>u. wr s i u = Some (s[i := u])"
    using s i by (simp_all add: tcb_def)
  have u: "p\<lparr>storage := Some (s[i := u])\<rparr> = upd p i (\<lambda>_. u)" for u
    using s by (simp add: upd_def)
  have cong: "f (tcb p i) = u \<Longrightarrow> upd p i f = upd p i (\<lambda>_. u)" for f u
    using s by (simp add: upd_def tcb_def)
  show ?thesis
  proof (cases "state (tcb p i) = SOFTWARE_TIMER_STATE_RUNNING")
    case False
    then have "upd p i tick_slot = p"
      using upd_same [OF wf i] by (simp add: tick_slot_def)
    with False s r show ?thesis
      by (simp add: tickSlot_def expires_def)
  next
    case True
    with t have pos: "remaining (tcb p i) > 0" and cb: "callback (tcb p i) \<noteq> None"
      by (auto simp: slot_wf_def)
    have zero: "remaining (tcb p i) - 1 = 0 \<longleftrightarrow> remaining (tcb p i) = 1"
      by simp
    from cb obtain f where f: "callback (tcb p i) = Some f" by auto
    show ?thesis
    proof (cases "remaining (tcb p i) = 1")
      case False
      then show ?thesis
        using True pos s r cong [of tick_slot "(tcb p i)\<lparr>remaining := remaining (tcb p i) - 1\<rparr>"]
        by (simp add: tickSlot_def expires_def tick_slot_def u Let_def zero)
    next
      case one: True
      then show ?thesis
        using True pos s r f
          cong [of tick_slot "(tcb p i)\<lparr>remaining := timeout (tcb p i)\<rparr>"]
          cong [of tick_slot "(tcb p i)\<lparr>remaining := 0, state := SOFTWARE_TIMER_STATE_STOPPED\<rparr>"]
        by (simp add: tickSlot_def expires_def tick_slot_def u Let_def handle_at_def)
    qed
  qed
qed

subsection \<open>A tick ends\<close>

text \<open>The storage holds as many slots as the pool claims, whatever is in them.\<close>

definition covered :: "('cb, 'ctx) SoftwareTimerPool_t \<Rightarrow> bool" where
  "covered p \<longleftrightarrow> (case storage p of None \<Rightarrow> False | Some s \<Rightarrow> unat (capacity p) \<le> length s)"

lemma covered_upd: "storage p = Some s \<Longrightarrow> covered p \<Longrightarrow> covered (p\<lparr>storage := Some (s[i := t])\<rparr>)"
  by (simp add: covered_def)

lemma tickSlot_covered:
  assumes "covered p" "unat (capacity p) \<le> n" "i < unat (capacity p)"
    and "\<And>cb h ctx p w. covered p \<Longrightarrow> unat (capacity p) \<le> n \<Longrightarrow> \<exists>p' w'. exec cb h ctx (p, w) = Some (p', w') \<and>
      covered p' \<and> unat (capacity p') \<le> n \<and> calls w' \<le> Suc (calls w)"
  shows "\<exists>p' w'. tickSlot exec i (p, w) = Some (p', w') \<and> covered p' \<and> unat (capacity p') \<le> n \<and> calls w' \<le> Suc (calls w)"
proof -
  obtain s where s: "storage p = Some s" "unat (capacity p) \<le> length s"
    using assms(1) by (auto simp: covered_def split: option.splits)
  have stored: "covered (p\<lparr>storage := Some (s[i := t])\<rparr>)" "unat (capacity (p\<lparr>storage := Some (s[i := t])\<rparr>)) \<le> n" for t
    using covered_upd [OF s(1) assms(1)] assms(2) by simp_all
  have run: "\<exists>p' w'. exec cb h ctx (p\<lparr>storage := Some (s[i := t])\<rparr>, w) = Some (p', w') \<and> covered p' \<and>
      unat (capacity p') \<le> n \<and> calls w' \<le> Suc (calls w)" for cb h ctx t
    using assms(4) [OF stored, of cb h ctx t w] by simp
  show ?thesis
    using s assms(1-3) run stored by (auto simp: tickSlot_def Let_def split: option.split)
qed

text \<open>C21: a tick always returns, after at most as many callbacks as the pool ever has slots.
  Whatever the slots hold, a corrupted pool included, and whatever the callbacks do to the
  pool and to the application, another storage and another capacity in the middle of the
  tick included, as long as each of them returns and leaves a storage that holds the slots
  that the pool then claims, at most \<open>n\<close>, the tick runs to its end without undefined
  behaviour and reports success.\<close>

theorem tick_always_returns:
  fixes calls :: "'w \<Rightarrow> nat"
  assumes "\<And>cb h ctx p w. covered p \<Longrightarrow> unat (capacity p) \<le> n \<Longrightarrow> \<exists>p' w'. exec cb h ctx (p, w) = Some (p', w') \<and>
      covered p' \<and> unat (capacity p') \<le> n \<and> calls w' \<le> Suc (calls w)"
    and "covered p" "unat (capacity p) \<le> n"
  shows "\<exists>p' w'. softwareTimerTick exec (Some p, w) = Some (SOFTWARE_TIMER_SUCCESS, Some p', w') \<and>
    covered p' \<and> unat (capacity p') \<le> n \<and> calls w' \<le> calls w + n"
proof -
  have "\<exists>p' w'. tickFrom exec i (p, w) = Some (p', w') \<and> covered p' \<and> unat (capacity p') \<le> n \<and>
      calls w' \<le> calls w + (n - i)" for i
    using assms(2,3)
  proof (induction "n - i" arbitrary: i p w)
    case 0
    then show ?case by (subst tickFrom.simps) simp
  next
    case (Suc m)
    show ?case
    proof (cases "i < unat (capacity p)")
      case True
      have "\<exists>p1 w1. tickSlot exec i (p, w) = Some (p1, w1) \<and> covered p1 \<and> unat (capacity p1) \<le> n \<and>
          calls w1 \<le> Suc (calls w)"
        by (rule tickSlot_covered [OF Suc.prems True]) (rule assms(1))
      then obtain p1 w1 where p1: "tickSlot exec i (p, w) = Some (p1, w1)" "covered p1" "unat (capacity p1) \<le> n"
        "calls w1 \<le> Suc (calls w)" by blast
      moreover have "m = n - Suc i"
        using Suc.hyps(2) by simp
      ultimately show ?thesis
        using Suc.hyps(1) [of "Suc i" p1 w1] Suc.hyps(2) True by (subst tickFrom.simps) fastforce
    next
      case False
      with Suc.prems show ?thesis by (subst tickFrom.simps) simp
    qed
  qed
  from this [of 0] assms(2) show ?thesis
    by (fastforce simp: softwareTimerTick_def no_storage_def covered_def split: option.splits)
qed

theorem tick_always_returns_witness:
  "\<exists>p' w'. softwareTimerTick (\<lambda>cb h ctx pw. Some (fst pw, Suc (snd pw)))
      (Some \<lparr>storage = Some [\<lparr>state = SOFTWARE_TIMER_STATE_RUNNING, mode = SOFTWARE_TIMER_MODE_OTHER 7, timeout = 0,
         remaining = 0, callback = Some (4 :: nat), cbContext = Some (0 :: nat), generation = 9\<rparr>], capacity = 1\<rparr>, 0) =
      Some (SOFTWARE_TIMER_SUCCESS, Some p', w') \<and> w' \<le> 1"
proof -
  let ?p = "\<lparr>storage = Some [\<lparr>state = SOFTWARE_TIMER_STATE_RUNNING, mode = SOFTWARE_TIMER_MODE_OTHER 7, timeout = 0,
         remaining = 0, callback = Some (4 :: nat), cbContext = Some (0 :: nat), generation = 9\<rparr>], capacity = 1\<rparr>"
  have "covered ?p" "unat (capacity ?p) = 1"
    by (simp_all add: covered_def)
  with tick_always_returns [of 1 "\<lambda>cb h ctx pw. Some (fst pw, Suc (snd pw))" "\<lambda>w. w" ?p 0] show ?thesis
    by fastforce
qed

subsection \<open>The callbacks' contract\<close>

text \<open>\<open>fits\<close> says which capacities the application gives its pool.\<close>

locale timer_callbacks =
  fixes fits :: "size_t \<Rightarrow> bool"
    and exec :: "'cb \<Rightarrow> ('cb, 'ctx, 'w) SoftwareTimerCallback_t"
  assumes exec_safe: "pool_wf p \<Longrightarrow> fits (capacity p) \<Longrightarrow>
      \<exists>p' w'. exec cb h ctx (p, w) = Some (p', w') \<and> pool_wf p' \<and> fits (capacity p')"
begin

lemma tickSlot_safe:
  assumes "pool_wf p" "fits (capacity p)" "i < unat (capacity p)"
  obtains p' w' where "tickSlot exec i (p, w) = Some (p', w')" "pool_wf p'" "fits (capacity p')"
proof -
  have "pool_wf (upd p i tick_slot)"
    using assms by (intro pool_wf_upd slot_wf_tick slot_wfD)
  then obtain q v where "exec (the (callback (tcb p i))) (handle_at p i) (cbContext (tcb p i)) (upd p i tick_slot, w) =
      Some (q, v)" "pool_wf q" "fits (capacity q)" "pool_wf (upd p i tick_slot)"
    using exec_safe assms(2) by fastforce
  with that assms(2) show thesis
    by (cases "expires (tcb p i)") (auto simp: tickSlot_eq [OF assms(1,3)])
qed

lemma tickFrom_safe:
  assumes "pool_wf p" "fits (capacity p)"
  shows "\<exists>p' w'. tickFrom exec i (p, w) = Some (p', w') \<and> pool_wf p' \<and> fits (capacity p')"
  using assms
proof (induction "size_limit - i" arbitrary: i p w rule: less_induct)
  case less
  show ?case
  proof (cases "i < unat (capacity p)")
    case True
    obtain p1 w1 where p1: "tickSlot exec i (p, w) = Some (p1, w1)" "pool_wf p1" "fits (capacity p1)"
      using less.prems True by (rule tickSlot_safe)
    moreover have "size_limit - Suc i < size_limit - i"
      using less_trans [OF True unat_less_size] by simp
    ultimately show ?thesis
      using less.hyps [of "Suc i" p1 w1] True by (subst tickFrom.simps) simp
  next
    case False
    with less.prems show ?thesis by (subst tickFrom.simps) simp
  qed
qed

theorem tick_safe:
  assumes "pool_wf p" "fits (capacity p)"
  shows "\<exists>p' w'. softwareTimerTick exec (Some p, w) = Some (SOFTWARE_TIMER_SUCCESS, Some p', w') \<and>
      pool_wf p' \<and> fits (capacity p')"
proof -
  obtain s where "\<not> no_storage (Some p)"
    using assms(1) by (rule pool_wfE)
  with tickFrom_safe [OF assms, of 0 w] show ?thesis
    by (auto simp: softwareTimerTick_def)
qed

text \<open>What holds of every round of the scan, and of one after the other, holds of a tick.\<close>

lemma tick_rounds:
  assumes step: "\<And>i p w p' w'. pool_wf p \<Longrightarrow> fits (capacity p) \<Longrightarrow> i < unat (capacity p) \<Longrightarrow>
      tickSlot exec i (p, w) = Some (p', w') \<Longrightarrow> R (p, w) (p', w')"
    and refl: "\<And>pw. R pw pw" and trans: "\<And>a b c. R a b \<Longrightarrow> R b c \<Longrightarrow> R a c"
    and p: "pool_wf p" "fits (capacity p)" and run: "softwareTimerTick exec (Some p, w) = Some (st, Some p', w')"
  shows "R (p, w) (p', w')"
proof -
  have rounds: "tickFrom exec i (p, w) = Some (p', w') \<Longrightarrow> R (p, w) (p', w')" for i
    using p
  proof (induction "size_limit - i" arbitrary: i p w rule: less_induct)
    case less
    show ?case
    proof (cases "i < unat (capacity p)")
      case True
      obtain p1 w1 where p1: "tickSlot exec i (p, w) = Some (p1, w1)" "pool_wf p1" "fits (capacity p1)"
        using less.prems(2,3) True by (rule tickSlot_safe)
      have "tickFrom exec (Suc i) (p1, w1) = Some (p', w')"
        using less.prems(1) p1(1) True by (subst (asm) tickFrom.simps) simp
      moreover have "size_limit - Suc i < size_limit - i"
        using less_trans [OF True unat_less_size] by simp
      ultimately have "R (p1, w1) (p', w')"
        using less.hyps p1(2,3) by blast
      with step [OF less.prems(2,3) True p1(1)] show ?thesis
        by (rule trans)
    next
      case False
      with less.prems(1) refl show ?thesis
        by (subst (asm) tickFrom.simps) simp
    qed
  qed
  have "\<not> no_storage (Some p)"
    using p(1) by (rule pool_wfE)
  with run have "tickFrom exec 0 (p, w) = Some (p', w')"
    by (auto simp: softwareTimerTick_def split: Option.bind_splits)
  then show ?thesis by (rule rounds)
qed

end

text \<open>The expiries in \<open>k\<close> ticks of a slot that each tick takes through \<open>f\<close>.\<close>

primrec expiries ::
  "(('cb, 'ctx) TimerControlBlock_t \<Rightarrow> ('cb, 'ctx) TimerControlBlock_t) \<Rightarrow> nat \<Rightarrow>
   ('cb, 'ctx) TimerControlBlock_t \<Rightarrow> nat" where
  "expiries f 0 t = 0"
| "expiries f (Suc k) t = expiries f k t + (if expires ((f ^^ k) t) then 1 else 0)"

lemma expiries_add: "expiries f (k + m) t = expiries f m t + expiries f k ((f ^^ m) t)"
  by (induction k) (simp_all add: funpow_add add.commute [of m])

lemma expiries_Suc: "expiries f (Suc m) t = (if expires t then 1 else 0) + expiries f m (f t)"
  using expiries_add [of f m 1 t] by simp

text \<open>A tick of a slot whose own callback does \<open>own\<close> to it.\<close>

definition own_step ::
  "(('cb, 'ctx) TimerControlBlock_t \<Rightarrow> ('cb, 'ctx) TimerControlBlock_t) \<Rightarrow>
   ('cb, 'ctx) TimerControlBlock_t \<Rightarrow> ('cb, 'ctx) TimerControlBlock_t" where
  "own_step own t = (if expires t then own (tick_slot t) else tick_slot t)"

lemma own_step_id [simp]: "own_step (\<lambda>t. t) = tick_slot"
  by (simp add: own_step_def fun_eq_iff)

text \<open>
  From one point of a run to a later one a slot has passed through \<open>n\<close> more ticks than the
  run has recorded in between, each of them \<open>f\<close>, and every expiry of it was a callback.
\<close>

definition passed ::
  "(('cb, 'ctx) TimerControlBlock_t \<Rightarrow> ('cb, 'ctx) TimerControlBlock_t) \<Rightarrow> ('w \<Rightarrow> nat) \<Rightarrow> ('w \<Rightarrow> nat) \<Rightarrow> nat \<Rightarrow>
   ('cb, 'ctx) TimerControlBlock_t \<times> 'w \<Rightarrow> ('cb, 'ctx) TimerControlBlock_t \<times> 'w \<Rightarrow> bool" where
  "passed f fired ticked n tw uv \<longleftrightarrow>
     (\<exists>m. ticked (snd uv) = ticked (snd tw) + m \<and> fst uv = (f ^^ (m + n)) (fst tw) \<and>
        fired (snd uv) = fired (snd tw) + expiries f (m + n) (fst tw))"

lemma passed_same: "ticked w' = ticked w \<Longrightarrow> fired w' = fired w \<Longrightarrow> passed f fired ticked 0 (t, w) (t, w')"
  by (simp add: passed_def)

lemma passed_trans:
  assumes "passed f fired ticked n a b" "passed f fired ticked n' b c"
  shows "passed f fired ticked (n + n') a c"
proof -
  from assms(1) obtain m where m: "ticked (snd b) = ticked (snd a) + m" "fst b = (f ^^ (m + n)) (fst a)"
    "fired (snd b) = fired (snd a) + expiries f (m + n) (fst a)" by (auto simp: passed_def)
  from assms(2) obtain m' where m': "ticked (snd c) = ticked (snd b) + m'" "fst c = (f ^^ (m' + n')) (fst b)"
    "fired (snd c) = fired (snd b) + expiries f (m' + n') (fst b)" by (auto simp: passed_def)
  have eq: "(m + m') + (n + n') = (m' + n') + (m + n)"
    by simp
  have "(f ^^ ((m + m') + (n + n'))) (fst a) = fst c"
    unfolding eq funpow_add [of "m' + n'"] comp_apply m(2) [symmetric] m'(2) [symmetric] ..
  moreover have "fired (snd c) = fired (snd a) + expiries f ((m + m') + (n + n')) (fst a)"
    unfolding eq expiries_add [of f "m' + n'"] m(2) [symmetric] using m(3) m'(3) by simp
  ultimately show ?thesis
    unfolding passed_def using m(1) m'(1) by (intro exI [of _ "m + m'"]) simp
qed

lemma passed_used:
  assumes f: "\<And>t. state t \<noteq> SOFTWARE_TIMER_STATE_UNUSED \<Longrightarrow> state (f t) \<noteq> SOFTWARE_TIMER_STATE_UNUSED"
    and "passed f fired ticked n (t, w) (u, v)" "state t \<noteq> SOFTWARE_TIMER_STATE_UNUSED"
  shows "state u \<noteq> SOFTWARE_TIMER_STATE_UNUSED"
proof -
  have "state ((f ^^ k) t) \<noteq> SOFTWARE_TIMER_STATE_UNUSED" for k
    by (induction k) (simp_all add: assms(3) f)
  with assms(2) show ?thesis by (metis fst_conv passed_def)
qed

text \<open>The recording of a tick, and then the tick.\<close>

lemma passed_recorded:
  assumes "passed f fired ticked 1 (t, v) uv" "ticked v = Suc (ticked w)" "fired v = fired w"
  shows "passed f fired ticked 0 (t, w) uv"
proof -
  from assms(1) obtain m where "ticked (snd uv) = ticked v + m" "fst uv = (f ^^ (m + 1)) t"
    "fired (snd uv) = fired v + expiries f (m + 1) t" by (auto simp: passed_def)
  with assms(2,3) show ?thesis
    by (auto simp: passed_def intro: exI [of _ "m + 1"])
qed

text \<open>A pool with a slot \<open>j\<close>, and no more slots than a handle can name.\<close>

definition holds_slot :: "nat \<Rightarrow> size_t \<Rightarrow> bool" where
  "holds_slot j c \<longleftrightarrow> j < unat c \<and> unat c \<le> 256"

lemma handle_at_slot:
  assumes "holds_slot j (capacity p)" "i < unat (capacity p)"
  shows "unat (index (handle_at p i)) = i" "index (handle_at p i) = of_nat j \<longleftrightarrow> i = j"
  using assms by (simp_all add: holds_slot_def handle_at_def unat_of_nat take_bit_nat_eq_self word_of_nat_eq_iff)

locale sparing_callbacks = timer_callbacks "holds_slot j" exec
  for j :: nat and exec :: "'cb \<Rightarrow> ('cb, 'ctx, 'w) SoftwareTimerCallback_t" +
  fixes own :: "('cb, 'ctx) TimerControlBlock_t \<Rightarrow> ('cb, 'ctx) TimerControlBlock_t"
    and fired ticked :: "'w \<Rightarrow> nat"
  assumes spare: "pool_wf p \<Longrightarrow> holds_slot j (capacity p) \<Longrightarrow> state (tcb p j) \<noteq> SOFTWARE_TIMER_STATE_UNUSED \<Longrightarrow>
      index h \<noteq> of_nat j \<Longrightarrow> exec cb h ctx (p, w) = Some (p', w') \<Longrightarrow>
      passed (own_step own) fired ticked 0 (tcb p j, w) (tcb p' j, w')"
    and own: "pool_wf p \<Longrightarrow> holds_slot j (capacity p) \<Longrightarrow> state (tcb p j) \<noteq> SOFTWARE_TIMER_STATE_UNUSED \<Longrightarrow>
      exec cb (handle_at p j) ctx (p, w) = Some (p', w') \<Longrightarrow>
      \<exists>v. ticked v = ticked w \<and> fired v = Suc (fired w) \<and>
        passed (own_step own) fired ticked 0 (own (tcb p j), v) (tcb p' j, w')"
    and own_used: "state t \<noteq> SOFTWARE_TIMER_STATE_UNUSED \<Longrightarrow> state (own t) \<noteq> SOFTWARE_TIMER_STATE_UNUSED"
begin

lemma own_step_used:
  "state t \<noteq> SOFTWARE_TIMER_STATE_UNUSED \<Longrightarrow> state (own_step own t) \<noteq> SOFTWARE_TIMER_STATE_UNUSED"
  by (simp add: own_step_def own_used tick_slot_state)

lemma tickSlot_spare:
  assumes wf: "pool_wf p" and c: "holds_slot j (capacity p)" and i: "i < unat (capacity p)"
    and used: "state (tcb p j) \<noteq> SOFTWARE_TIMER_STATE_UNUSED"
    and run: "tickSlot exec i (p, w) = Some (p', w')"
  shows "passed (own_step own) fired ticked (if i = j then 1 else 0) (tcb p j, w) (tcb p' j, w')"
proof -
  let ?p = "upd p i tick_slot"
  have wf1: "pool_wf ?p"
    using wf i by (intro pool_wf_upd slot_wf_tick slot_wfD)
  have t1: "tcb ?p j = (if i = j then tick_slot (tcb p j) else tcb p j)"
    using tcb_upd [OF wf i] by simp
  then have used1: "state (tcb ?p j) \<noteq> SOFTWARE_TIMER_STATE_UNUSED"
    using used by (simp add: tick_slot_state)
  note ij = handle_at_slot(2) [OF c i]
  have h1: "handle_at ?p j = handle_at p j"
    using tcb_upd [OF wf i] by (simp add: handle_at_def)
  have step: "passed (own_step own) fired ticked 1 (tcb p j, w) (own_step own (tcb p j), v)"
    if "ticked v = ticked w" "fired v = fired w + (if expires (tcb p j) then 1 else 0)" for v
    unfolding passed_def using that by (intro exI [of _ 0]) simp
  show ?thesis
  proof (cases "expires (tcb p i)")
    case False
    with run have "p' = ?p" "w' = w"
      by (simp_all add: tickSlot_eq [OF wf i])
    with False t1 step [of w] passed_same [of ticked w w fired] show ?thesis
      by (auto simp: own_step_def)
  next
    case True
    with run have ex: "exec (the (callback (tcb p i))) (handle_at p i) (cbContext (tcb p i)) (?p, w) = Some (p', w')"
      by (simp add: tickSlot_eq [OF wf i])
    show ?thesis
    proof (cases "i = j")
      case True
      have "exec (the (callback (tcb p i))) (handle_at ?p j) (cbContext (tcb p i)) (?p, w) = Some (p', w')"
        using ex True h1 by simp
      from own [OF wf1 _ used1 this] c obtain v where v: "ticked v = ticked w" "fired v = Suc (fired w)"
        "passed (own_step own) fired ticked 0 (own_step own (tcb p j), v) (tcb p' j, w')"
        using t1 True \<open>expires (tcb p i)\<close> by (auto simp: own_step_def)
      with passed_trans [OF step [of v] v(3)] True \<open>expires (tcb p i)\<close> show ?thesis by simp
    next
      case False
      with ex spare [OF wf1 _ used1] ij t1 c show ?thesis by simp
    qed
  qed
qed

lemma tickFrom_spare:
  assumes "pool_wf p" "holds_slot j (capacity p)"
    and "state (tcb p j) \<noteq> SOFTWARE_TIMER_STATE_UNUSED" "tickFrom exec i (p, w) = Some (p', w')"
  shows "passed (own_step own) fired ticked (if i \<le> j then 1 else 0) (tcb p j, w) (tcb p' j, w')"
  using assms
proof (induction "size_limit - i" arbitrary: i p w rule: less_induct)
  case less
  show ?case
  proof (cases "i < unat (capacity p)")
    case False
    with less.prems show ?thesis
      by (subst (asm) tickFrom.simps) (auto simp: holds_slot_def passed_same)
  next
    case True
    obtain p1 w1 where p1: "tickSlot exec i (p, w) = Some (p1, w1)" "pool_wf p1" "holds_slot j (capacity p1)"
      using less.prems(1,2) True by (rule tickSlot_safe)
    note step = tickSlot_spare [OF less.prems(1,2) True less.prems(3) p1(1)]
    have rest: "tickFrom exec (Suc i) (p1, w1) = Some (p', w')"
      using less.prems(4) True p1(1) by (subst (asm) tickFrom.simps) simp
    have used1: "state (tcb p1 j) \<noteq> SOFTWARE_TIMER_STATE_UNUSED"
      using own_step_used step less.prems(3) by (rule passed_used)
    have "size_limit - Suc i < size_limit - i"
      using less_trans [OF True unat_less_size] by simp
    from less.hyps [OF this p1(2,3) used1 rest]
    have "passed (own_step own) fired ticked (if Suc i \<le> j then 1 else 0) (tcb p1 j, w1) (tcb p' j, w')" .
    from passed_trans [OF step this] show ?thesis
      by (auto simp: le_less Suc_le_eq split: if_splits)
  qed
qed

text \<open>The timer in slot \<open>j\<close> sees a tick once, whatever the other timers' callbacks do.\<close>

theorem tick_spare:
  assumes wf: "pool_wf p" and c: "holds_slot j (capacity p)"
    and used: "state (tcb p j) \<noteq> SOFTWARE_TIMER_STATE_UNUSED"
    and run: "softwareTimerTick exec (Some p, w) = Some (st, Some p', w')"
  shows "passed (own_step own) fired ticked 1 (tcb p j, w) (tcb p' j, w')"
proof -
  have "\<not> no_storage (Some p)"
    using wf by (rule pool_wfE)
  with run have "tickFrom exec 0 (p, w) = Some (p', w')"
    by (auto simp: softwareTimerTick_def split: Option.bind_splits)
  from tickFrom_spare [OF wf c used this] show ?thesis by simp
qed

end

subsection \<open>A timer that is left alone\<close>

lemma tick_slot_run:
  assumes "state t = SOFTWARE_TIMER_STATE_RUNNING" "k < unat (remaining t)"
  shows "(tick_slot ^^ k) t = t\<lparr>remaining := remaining t - of_nat k\<rparr> \<and> expiries tick_slot k t = 0"
  using assms(2)
proof (induction k)
  case 0
  then show ?case by simp
next
  case (Suc k)
  have "k < 2 ^ LENGTH(32)"
    using Suc_lessD [OF Suc.prems] unsigned_less by (rule less_trans)
  then have k: "unat (of_nat k :: u32) = k"
    by (simp add: unat_of_nat take_bit_nat_eq_self)
  have "unat (remaining t - of_nat k) = unat (remaining t) - k"
    using Suc.prems k by (subst unat_sub_noof) auto
  then have "remaining t - of_nat k \<noteq> 1"
    using Suc.prems by (auto simp: word_unat_eq_iff)
  moreover have "(tick_slot ^^ k) t = t\<lparr>remaining := remaining t - of_nat k\<rparr>" "expiries tick_slot k t = 0"
    using Suc by simp_all
  ultimately have IH: "(tick_slot ^^ k) t = t\<lparr>remaining := remaining t - of_nat k\<rparr>" "expiries tick_slot k t = 0"
      "remaining t - of_nat k \<noteq> 1"
    by simp_all
  have "tick_slot (t\<lparr>remaining := remaining t - of_nat k\<rparr>) = t\<lparr>remaining := remaining t - of_nat k - 1\<rparr>"
    unfolding tick_slot_def using assms(1) IH(3) by (simp del: diff_eq_eq)
  moreover have "remaining t - of_nat k - 1 = remaining t - of_nat (Suc k)"
    by simp
  moreover have "\<not> expires (t\<lparr>remaining := remaining t - of_nat k\<rparr>)"
    unfolding expires_def using IH(3) by (simp del: diff_eq_eq)
  ultimately show ?case
    by (simp only: funpow.simps comp_apply expiries.simps IH if_False add_0_right)
qed

lemma tick_slot_expiry:
  assumes "state t = SOFTWARE_TIMER_STATE_RUNNING" "unat (remaining t) = Suc n"
  shows "(tick_slot ^^ n) t = t\<lparr>remaining := 1\<rparr>" "expires ((tick_slot ^^ n) t)"
proof -
  have "remaining t = of_nat n + 1"
    using arg_cong [OF assms(2), of "of_nat :: nat \<Rightarrow> u32"] by simp
  then show "(tick_slot ^^ n) t = t\<lparr>remaining := 1\<rparr>"
    using tick_slot_run [OF assms(1), of n] assms(2) by simp
  then show "expires ((tick_slot ^^ n) t)"
    using assms(1) by (simp add: expires_def)
qed

lemma expiry_step:
  assumes "state t = SOFTWARE_TIMER_STATE_RUNNING" "unat (remaining t) = Suc n"
  shows "(tick_slot ^^ Suc n) t = tick_slot (t\<lparr>remaining := 1\<rparr>)" "expiries tick_slot (Suc n) t = 1"
proof -
  have "expiries tick_slot n t = 0"
    using tick_slot_run [OF assms(1), of n] assms(2) by simp
  then show "(tick_slot ^^ Suc n) t = tick_slot (t\<lparr>remaining := 1\<rparr>)" "expiries tick_slot (Suc n) t = 1"
    using tick_slot_expiry [OF assms] by simp_all
qed

lemma one_shot_ticks:
  assumes "state t = SOFTWARE_TIMER_STATE_RUNNING" "mode t = SOFTWARE_TIMER_MODE_ONE_SHOT" "0 < unat (remaining t)"
  shows "(tick_slot ^^ k) t =
      (if k < unat (remaining t) then t\<lparr>remaining := remaining t - of_nat k\<rparr>
       else t\<lparr>remaining := 0, state := SOFTWARE_TIMER_STATE_STOPPED\<rparr>)"
    and "expiries tick_slot k t = (if k < unat (remaining t) then 0 else 1)"
proof -
  obtain n where n: "unat (remaining t) = Suc n"
    using assms(3) by (cases "unat (remaining t)") auto
  let ?t = "t\<lparr>remaining := 0, state := SOFTWARE_TIMER_STATE_STOPPED\<rparr>"
  have still: "(tick_slot ^^ m) ?t = ?t" "expiries tick_slot m ?t = 0" for m
    by (induction m) (simp_all add: tick_slot_def expires_def)
  have fire: "(tick_slot ^^ Suc n) t = ?t" "expiries tick_slot (Suc n) t = 1"
    unfolding expiry_step [OF assms(1) n] using assms(1,2) by (simp_all add: tick_slot_def)
  have "(tick_slot ^^ k) t = ?t \<and> expiries tick_slot k t = 1" if "Suc n \<le> k"
  proof -
    define m where "m = k - Suc n"
    have m: "k = m + Suc n"
      using that by (simp add: m_def)
    show ?thesis
      unfolding m funpow_add expiries_add by (simp only: comp_apply fire still) simp
  qed
  then have late: "\<not> k < unat (remaining t) \<Longrightarrow> (tick_slot ^^ k) t = ?t \<and> expiries tick_slot k t = 1"
    by (simp add: n)
  note early = tick_slot_run [OF assms(1), of k]
  show "(tick_slot ^^ k) t = (if k < unat (remaining t) then t\<lparr>remaining := remaining t - of_nat k\<rparr> else ?t)"
    by (cases "k < unat (remaining t)") (simp_all only: early late if_True if_False simp_thms)
  show "expiries tick_slot k t = (if k < unat (remaining t) then 0 else 1)"
    by (cases "k < unat (remaining t)") (simp_all only: early late if_True if_False simp_thms)
qed

lemma periodic_ticks:
  assumes "state t = SOFTWARE_TIMER_STATE_RUNNING" "mode t = SOFTWARE_TIMER_MODE_PERIODIC"
    and "timeout t = remaining t" "0 < unat (remaining t)"
  shows "(tick_slot ^^ k) t = t\<lparr>remaining := remaining t - of_nat (k mod unat (timeout t))\<rparr>"
    and "expiries tick_slot k t = k div unat (timeout t)"
proof -
  obtain n where n: "unat (remaining t) = Suc n"
    using assms(4) by (cases "unat (remaining t)") auto
  have cycle: "(tick_slot ^^ Suc n) t = t" "expiries tick_slot (Suc n) t = 1"
    unfolding expiry_step [OF assms(1) n] using assms(1-3) by (simp_all add: tick_slot_def)
  have cycles: "(tick_slot ^^ (Suc n * q)) t = t" "expiries tick_slot (Suc n * q) t = q" for q
  proof (induction q)
    case (Suc q)
    have split: "Suc n * Suc q = Suc n * q + Suc n" by simp
    show "(tick_slot ^^ (Suc n * Suc q)) t = t"
      unfolding split funpow_add using Suc(1) cycle(1) by simp
    show "expiries tick_slot (Suc n * Suc q) t = Suc q"
      unfolding split expiries_add using Suc(2) cycle by simp
  qed simp_all
  have split: "k = k mod Suc n + Suc n * (k div Suc n)"
    by (simp only: mod_mult_div_eq)
  have r: "k mod Suc n < unat (remaining t)"
    unfolding n by simp
  have "(tick_slot ^^ k) t = (tick_slot ^^ (k mod Suc n)) t"
    by (subst split, subst funpow_add) (simp only: comp_apply cycles(1))
  moreover have "expiries tick_slot k t = k div Suc n + expiries tick_slot (k mod Suc n) t"
    by (subst split, subst expiries_add) (simp only: cycles)
  ultimately show "(tick_slot ^^ k) t = t\<lparr>remaining := remaining t - of_nat (k mod unat (timeout t))\<rparr>"
    and "expiries tick_slot k t = k div unat (timeout t)"
    using tick_slot_run [OF assms(1) r] n assms(3) by simp_all
qed

end
