(* ===== verification/TimerScript.thy ===== *)
theory TimerScript
  imports SwTimerTick
begin

text \<open>
  Applications of the timer pool.  A callback is a \<open>script\<close>: it makes calls of the module's
  API on the pool that is ticking, one after the other, sees what each call returned before
  it decides on the next one, may itself call \<open>softwareTimerTick\<close> or initialise the pool
  anew, over the same storage or another one, and keeps a state of its own (\<open>'s\<close>, the application's variables) from one invocation to the next.  The main program
  is a script too.  Everything that passes between the application and the module is
  recorded in a trace.
\<close>

datatype ('cb, 'ctx) timer_call =
    CallCreate SoftwareTimerMode_t "'cb ptr" "'ctx ptr" "TimerHandle_t ptr"
  | CallStart TimerHandle_t u32
  | CallStop TimerHandle_t
  | CallDelete TimerHandle_t
  | CallGetState TimerHandle_t "SoftwareTimerState_t ptr"
  | CallGetRemaining TimerHandle_t "u32 ptr"
  | CallInit "('cb, 'ctx) TimerControlBlock_t list ptr" size_t

text \<open>What a call returns: its status and, where it has an out parameter, that object after the call.\<close>

datatype timer_reply =
    ReplyStatus SoftwareTimerStatus_t
  | ReplyHandle SoftwareTimerStatus_t "TimerHandle_t ptr"
  | ReplyState SoftwareTimerStatus_t "SoftwareTimerState_t ptr"
  | ReplyRemaining SoftwareTimerStatus_t "u32 ptr"

datatype ('cb, 'ctx) timer_event =
    Ticked
  | Fired TimerHandle_t "'ctx ptr"
  | Called "('cb, 'ctx) timer_call" timer_reply

text \<open>
  \<open>Tick s k\<close> stores the variables \<open>s\<close>, calls \<open>softwareTimerTick\<close> and goes on with the status
  and the variables as the callbacks have left them.
\<close>

datatype ('s, 'cb, 'ctx) script =
    Finish 's
  | Request "('cb, 'ctx) timer_call" "timer_reply \<Rightarrow> ('s, 'cb, 'ctx) script"
  | Tick 's "SoftwareTimerStatus_t option \<Rightarrow> 's \<Rightarrow> ('s, 'cb, 'ctx) script"

type_synonym ('s, 'cb, 'ctx) callbacks =
  "'cb \<Rightarrow> TimerHandle_t \<Rightarrow> 'ctx ptr \<Rightarrow> 's \<Rightarrow> ('s, 'cb, 'ctx) script"

type_synonym ('s, 'cb, 'ctx) app = "('cb, 'ctx) SoftwareTimerPool_t \<times> 's \<times> ('cb, 'ctx) timer_event list"

fun do_call ::
  "('cb, 'ctx) timer_call \<Rightarrow> ('cb, 'ctx) SoftwareTimerPool_t \<Rightarrow> (timer_reply \<times> ('cb, 'ctx) SoftwareTimerPool_t) run" where
  "do_call (CallCreate md cb ctx out) p =
     do { (status, q, out') \<leftarrow> softwareTimerCreate (Some p) md cb ctx out; p' \<leftarrow> q; Some (ReplyHandle status out', p') }"
| "do_call (CallStart h n) p =
     do { (status, q) \<leftarrow> softwareTimerStart (Some p) h n; p' \<leftarrow> q; Some (ReplyStatus status, p') }"
| "do_call (CallStop h) p =
     do { (status, q) \<leftarrow> softwareTimerStop (Some p) h; p' \<leftarrow> q; Some (ReplyStatus status, p') }"
| "do_call (CallDelete h) p =
     do { (status, q) \<leftarrow> softwareTimerDelete (Some p) h; p' \<leftarrow> q; Some (ReplyStatus status, p') }"
| "do_call (CallGetState h out) p =
     do { (status, out') \<leftarrow> softwareTimerGetState (Some p) h out; Some (ReplyState status out', p) }"
| "do_call (CallGetRemaining h out) p =
     do { (status, out') \<leftarrow> softwareTimerGetRemainingTicks (Some p) h out; Some (ReplyRemaining status out', p) }"
| "do_call (CallInit stor cap) p =
     do { (status, q) \<leftarrow> softwareTimerInit (Some p) stor cap; p' \<leftarrow> q; Some (ReplyStatus status, p') }"

text \<open>
  Running a script.  \<open>tk\<close> is the tick it may call; without one the call is not made and the
  script is told so (\<open>None\<close>), as an application that guards its nesting would.
\<close>

primrec run_script ::
  "(('cb, 'ctx) SoftwareTimerPool_t ptr \<times> 's \<times> ('cb, 'ctx) timer_event list \<Rightarrow>
     (SoftwareTimerStatus_t \<times> ('cb, 'ctx) SoftwareTimerPool_t ptr \<times> 's \<times> ('cb, 'ctx) timer_event list) run) option \<Rightarrow>
   ('s, 'cb, 'ctx) script \<Rightarrow> ('s, 'cb, 'ctx) app \<Rightarrow> ('s, 'cb, 'ctx) app run" where
  "run_script tk (Finish s) pw = Some (fst pw, s, snd (snd pw))"
| "run_script tk (Request c k) pw =
     do {
       (reply, p') \<leftarrow> do_call c (fst pw);
       run_script tk (k reply) (p', fst (snd pw), snd (snd pw) @ [Called c reply])
     }"
| "run_script tk (Tick s k) pw =
     (case tk of
        None \<Rightarrow> run_script tk (k None s) pw
      | Some tick \<Rightarrow> do {
          (status, q, w) \<leftarrow> tick (Some (fst pw), s, snd (snd pw) @ [Ticked]);
          p' \<leftarrow> q;
          run_script tk (k (Some status) (fst w)) (p', w)
        })"

text \<open>
  Running a callback: its invocation is recorded, then its script runs.  Ticks may nest in
  callbacks to any depth \<open>n\<close>; a run that ends has one.
\<close>

definition invoke ::
  "(('cb, 'ctx) SoftwareTimerPool_t ptr \<times> 's \<times> ('cb, 'ctx) timer_event list \<Rightarrow>
     (SoftwareTimerStatus_t \<times> ('cb, 'ctx) SoftwareTimerPool_t ptr \<times> 's \<times> ('cb, 'ctx) timer_event list) run) option \<Rightarrow>
   ('s, 'cb, 'ctx) callbacks \<Rightarrow> 'cb \<Rightarrow> TimerHandle_t \<Rightarrow> 'ctx ptr \<Rightarrow> ('s, 'cb, 'ctx) app \<Rightarrow> ('s, 'cb, 'ctx) app run" where
  "invoke tk cbs cb h ctx pw =
     (case pw of (p, s, tr) \<Rightarrow> run_script tk (cbs cb h ctx s) (p, s, tr @ [Fired h ctx]))"

primrec script_exec ::
  "('s, 'cb, 'ctx) callbacks \<Rightarrow> nat \<Rightarrow> 'cb \<Rightarrow> TimerHandle_t \<Rightarrow> 'ctx ptr \<Rightarrow> ('s, 'cb, 'ctx) app \<Rightarrow> ('s, 'cb, 'ctx) app run" where
  "script_exec cbs 0 = invoke None cbs"
| "script_exec cbs (Suc n) = invoke (Some (softwareTimerTick (script_exec cbs n))) cbs"

text \<open>The whole application: a main program and its callbacks.\<close>

definition run_app ::
  "('s, 'cb, 'ctx) callbacks \<Rightarrow> nat \<Rightarrow> ('s, 'cb, 'ctx) script \<Rightarrow> ('s, 'cb, 'ctx) app \<Rightarrow> ('s, 'cb, 'ctx) app run" where
  "run_app cbs n main = run_script (Some (softwareTimerTick (script_exec cbs n))) main"

subsection \<open>Scripts whose calls have a property\<close>

primrec script_all :: "(('cb, 'ctx) timer_call \<Rightarrow> bool) \<Rightarrow> ('s, 'cb, 'ctx) script \<Rightarrow> bool" where
  "script_all P (Finish s) = True"
| "script_all P (Request c k) = (P c \<and> (\<forall>r. script_all P (k r)))"
| "script_all P (Tick s k) = (\<forall>st s'. script_all P (k st s'))"

definition callbacks_all :: "(('cb, 'ctx) timer_call \<Rightarrow> bool) \<Rightarrow> ('s, 'cb, 'ctx) callbacks \<Rightarrow> bool" where
  "callbacks_all P cbs \<longleftrightarrow> (\<forall>cb h ctx s. script_all P (cbs cb h ctx s))"

text \<open>Any script, with its other calls refused.\<close>

primrec guarded :: "(('cb, 'ctx) timer_call \<Rightarrow> bool) \<Rightarrow> ('s, 'cb, 'ctx) script \<Rightarrow> ('s, 'cb, 'ctx) script" where
  "guarded P (Finish s) = Finish s"
| "guarded P (Request c k) =
     (if P c then Request c (\<lambda>r. guarded P (k r))
      else guarded P (k (ReplyStatus SOFTWARE_TIMER_ERROR_INVALID_HANDLE)))"
| "guarded P (Tick s k) = Tick s (\<lambda>st s'. guarded P (k st s'))"

definition restricted :: "(('cb, 'ctx) timer_call \<Rightarrow> bool) \<Rightarrow> ('s, 'cb, 'ctx) callbacks \<Rightarrow> ('s, 'cb, 'ctx) callbacks" where
  "restricted P cbs cb h ctx s = guarded P (cbs cb h ctx s)"

lemma guarded_all [simp]: "script_all P (guarded P sc)"
  by (induction sc) auto

lemma guarded_same: "script_all P sc \<Longrightarrow> guarded P sc = sc"
proof (induction sc)
  case (Tick s k)
  from Tick.prems show ?case
    by (simp add: Tick.IH [OF rangeI rangeI])
qed auto

lemma restricted_all [simp]: "callbacks_all P (restricted P cbs)"
  by (simp add: callbacks_all_def restricted_def)

lemma restricted_same: "callbacks_all P cbs \<Longrightarrow> restricted P cbs = cbs"
  by (simp add: callbacks_all_def restricted_def guarded_same fun_eq_iff)

lemma script_all_mono: "(\<And>c. P c \<Longrightarrow> Q c) \<Longrightarrow> script_all P sc \<Longrightarrow> script_all Q sc"
proof (induction sc)
  case (Tick s k)
  from Tick.prems(2) have "script_all P (k st s')" for st s'
    by simp
  from Tick.IH [OF rangeI rangeI Tick.prems(1) this] show ?case
    by (simp only: script_all.simps) blast
qed auto

lemma callbacks_all_mono: "(\<And>c. P c \<Longrightarrow> Q c) \<Longrightarrow> callbacks_all P cbs \<Longrightarrow> callbacks_all Q cbs"
  unfolding callbacks_all_def using script_all_mono [of P Q] by blast

text \<open>
  The one duty of an application: when it initialises the pool, the storage it passes has the
  slots it promises.  \<open>fits\<close> restricts the capacities it uses.
\<close>

fun sound_call :: "(size_t \<Rightarrow> bool) \<Rightarrow> ('cb, 'ctx) timer_call \<Rightarrow> bool" where
  "sound_call fits (CallInit (Some s) cap) = (cap = 0 \<or> unat cap \<le> length s \<and> fits cap)"
| "sound_call fits c = True"

subsection \<open>What a call does\<close>

definition mode_ok :: "SoftwareTimerMode_t \<Rightarrow> bool" where
  "mode_ok md \<longleftrightarrow> md = SOFTWARE_TIMER_MODE_ONE_SHOT \<or> md = SOFTWARE_TIMER_MODE_PERIODIC"

fun call_effect ::
  "('cb, 'ctx) timer_call \<Rightarrow> ('cb, 'ctx) SoftwareTimerPool_t \<Rightarrow> ('cb, 'ctx) SoftwareTimerPool_t" where
  "call_effect (CallCreate md cb ctx out) p =
     (if cb = None \<or> out = None \<or> \<not> mode_ok md then p
      else case first_free p of None \<Rightarrow> p | Some i \<Rightarrow> upd p i (create_slot md cb ctx))"
| "call_effect (CallStart h n) p = (if live p h \<and> n \<noteq> 0 then upd p (unat (index h)) (start_slot n) else p)"
| "call_effect (CallStop h) p = (if live p h then upd p (unat (index h)) stop_slot else p)"
| "call_effect (CallDelete h) p = (if live p h then upd p (unat (index h)) delete_slot else p)"
| "call_effect (CallGetState h out) p = p"
| "call_effect (CallGetRemaining h out) p = p"
| "call_effect (CallInit stor cap) p =
     (case stor of None \<Rightarrow> p | Some s \<Rightarrow> if cap = 0 then p else fresh_pool s cap)"

fun call_reply :: "('cb, 'ctx) timer_call \<Rightarrow> ('cb, 'ctx) SoftwareTimerPool_t \<Rightarrow> timer_reply" where
  "call_reply (CallCreate md cb ctx out) p =
     (case (cb, out) of
        (Some f, Some h) \<Rightarrow>
          if \<not> mode_ok md then ReplyHandle SOFTWARE_TIMER_ERROR_INVALID_MODE out
          else (case first_free p of
                  None \<Rightarrow> ReplyHandle SOFTWARE_TIMER_ERROR_POOL_FULL out
                | Some i \<Rightarrow> ReplyHandle SOFTWARE_TIMER_SUCCESS
                    (Some (h\<lparr>index := of_nat i, handleGeneration := generation (tcb p i)\<rparr>)))
      | _ \<Rightarrow> ReplyHandle SOFTWARE_TIMER_ERROR_NULL_POINTER out)"
| "call_reply (CallStart h n) p =
     ReplyStatus (if \<not> live p h then SOFTWARE_TIMER_ERROR_INVALID_HANDLE
       else if n = 0 then SOFTWARE_TIMER_ERROR_INVALID_TIMEOUT else SOFTWARE_TIMER_SUCCESS)"
| "call_reply (CallStop h) p =
     ReplyStatus (if \<not> live p h then SOFTWARE_TIMER_ERROR_INVALID_HANDLE else SOFTWARE_TIMER_SUCCESS)"
| "call_reply (CallDelete h) p =
     ReplyStatus (if \<not> live p h then SOFTWARE_TIMER_ERROR_INVALID_HANDLE else SOFTWARE_TIMER_SUCCESS)"
| "call_reply (CallGetState h out) p =
     (if out = None then ReplyState SOFTWARE_TIMER_ERROR_NULL_POINTER out
      else if \<not> live p h then ReplyState SOFTWARE_TIMER_ERROR_INVALID_HANDLE out
      else ReplyState SOFTWARE_TIMER_SUCCESS (Some (state (tcb p (unat (index h))))))"
| "call_reply (CallGetRemaining h out) p =
     (if out = None then ReplyRemaining SOFTWARE_TIMER_ERROR_NULL_POINTER out
      else if \<not> live p h then ReplyRemaining SOFTWARE_TIMER_ERROR_INVALID_HANDLE out
      else ReplyRemaining SOFTWARE_TIMER_SUCCESS (Some (remaining (tcb p (unat (index h))))))"
| "call_reply (CallInit stor cap) p =
     ReplyStatus (if stor = None then SOFTWARE_TIMER_ERROR_NULL_POINTER
       else if cap = 0 then SOFTWARE_TIMER_ERROR_INVALID_CAPACITY else SOFTWARE_TIMER_SUCCESS)"

text \<open>A sound call is never undefined on a well-formed pool, and it does and returns exactly this.\<close>

lemma do_call_eq:
  assumes wf: "pool_wf p" and sound: "sound_call fits c"
  shows "do_call c p = Some (call_reply c p, call_effect c p)"
proof (cases c)
  case (CallCreate md cb ctx out)
  have ns: "\<not> no_storage (Some p)"
    using wf by (rule pool_wfE)
  show ?thesis
  proof (cases "cb = None \<or> out = None \<or> \<not> mode_ok md")
    case True
    with ns CallCreate show ?thesis
      by (auto simp: softwareTimerCreate_def mode_ok_def split: option.splits)
  next
    case False
    then obtain f h where "cb = Some f" "out = Some h" "mode_ok md" by auto
    with CallCreate create_eq [OF wf, of md f ctx h] show ?thesis
      by (auto simp: mode_ok_def split: option.splits)
  qed
next
  case (CallGetState h out)
  with queries_eq(1) [OF wf, of h] show ?thesis
    by (cases out) (auto simp: softwareTimerGetState_def)
next
  case (CallGetRemaining h out)
  with queries_eq(2) [OF wf, of h] show ?thesis
    by (cases out) (auto simp: softwareTimerGetRemainingTicks_def)
next
  case (CallInit stor cap)
  with sound show ?thesis
    by (cases stor; cases "cap = 0") (simp_all add: init_refused init_eq)
qed (simp_all add: start_eq [OF wf] stop_eq [OF wf] delete_eq [OF wf])

declare do_call.simps [simp del]

text \<open>A call updates at most one slot, by one of the slot functions, or makes the pool anew.\<close>

lemma effect_cases:
  obtains (same) "call_effect c p = p"
  | (create) md cb ctx out i where "c = CallCreate md (Some cb) ctx (Some out)" "mode_ok md" "first_free p = Some i"
      "call_effect c p = upd p i (create_slot md (Some cb) ctx)"
  | (start) h n where "c = CallStart h n" "live p h" "n \<noteq> 0" "call_effect c p = upd p (unat (index h)) (start_slot n)"
  | (stop) h where "c = CallStop h" "live p h" "call_effect c p = upd p (unat (index h)) stop_slot"
  | (delete) h where "c = CallDelete h" "live p h" "call_effect c p = upd p (unat (index h)) delete_slot"
  | (init) s cap where "c = CallInit (Some s) cap" "cap \<noteq> 0" "call_effect c p = fresh_pool s cap"
proof (cases "call_effect c p = p")
  case False
  then show thesis
    by (cases c) (use create start stop delete init in \<open>auto split: if_splits option.splits\<close>)
qed (rule same)

lemma effect_wf:
  assumes wf: "pool_wf p" and c: "fits (capacity p)" "sound_call fits c"
  shows "pool_wf (call_effect c p)" "fits (capacity (call_effect c p))"
proof -
  have "pool_wf (call_effect c p) \<and> fits (capacity (call_effect c p))"
  proof (cases c p rule: effect_cases)
    case (create md cb ctx out i)
    with wf c show ?thesis
      by (auto simp: mode_ok_def intro: pool_wf_upd slot_wf_updates(4) first_free_Some(1))
  next
    case (start h n)
    with wf c show ?thesis
      by (auto simp: live_def intro!: pool_wf_upd slot_wf_updates(1) slot_wfD)
  next
    case (stop h)
    with wf c show ?thesis
      by (auto simp: live_def intro!: pool_wf_upd slot_wf_updates(2) slot_wfD)
  next
    case (delete h)
    with wf c show ?thesis
      by (auto simp: live_def intro!: pool_wf_upd slot_wf_updates(3) slot_wfD)
  next
    case (init s cap)
    with c show ?thesis
      by (simp add: fresh_pool_wf fresh_pool_slots)
  qed (use wf c in simp)
  then show "pool_wf (call_effect c p)" "fits (capacity (call_effect c p))" by simp_all
qed

subsection \<open>No application can break the pool\<close>

text \<open>A tick that a script may call: it completes and leaves the pool well-formed.\<close>

definition tick_safe ::
  "(size_t \<Rightarrow> bool) \<Rightarrow>
   (('cb, 'ctx) SoftwareTimerPool_t ptr \<times> 'w \<Rightarrow> (SoftwareTimerStatus_t \<times> ('cb, 'ctx) SoftwareTimerPool_t ptr \<times> 'w) run) \<Rightarrow> bool" where
  "tick_safe fits tick \<longleftrightarrow>
     (\<forall>p w. pool_wf p \<longrightarrow> fits (capacity p) \<longrightarrow>
        (\<exists>p' w'. tick (Some p, w) = Some (SOFTWARE_TIMER_SUCCESS, Some p', w') \<and> pool_wf p' \<and> fits (capacity p')))"

lemma run_script_safe:
  assumes "\<And>tick. tk = Some tick \<Longrightarrow> tick_safe fits tick"
  shows "script_all (sound_call fits) sc \<Longrightarrow> pool_wf p \<Longrightarrow> fits (capacity p) \<Longrightarrow>
    \<exists>p' w'. run_script tk sc (p, w) = Some (p', w') \<and> pool_wf p' \<and> fits (capacity p')"
proof (induction sc arbitrary: p w)
  case (Finish s)
  then show ?case by simp
next
  case (Request c k)
  then have c: "sound_call fits c" by simp
  from Request.IH [OF rangeI _ effect_wf [OF Request.prems(2,3) c]] Request.prems(1) show ?case
    by (simp add: do_call_eq [OF Request.prems(2) c])
next
  case (Tick s k)
  then have k: "script_all (sound_call fits) (k st s')" for st s' by simp
  show ?case
  proof (cases tk)
    case None
    with Tick.IH [OF rangeI rangeI k Tick.prems(2,3)] show ?thesis by simp
  next
    case (Some tick)
    obtain p1 s1 tr1 where "tick (Some p, s, snd w @ [Ticked]) = Some (SOFTWARE_TIMER_SUCCESS, Some p1, s1, tr1)"
      "pool_wf p1" "fits (capacity p1)"
      using assms [OF Some] Tick.prems(2,3) by (fastforce simp: tick_safe_def)
    with Tick.IH [OF rangeI rangeI k, of p1] Some show ?thesis by simp
  qed
qed

lemma timer_callbacks_invoke:
  fixes cbs :: "('s, 'cb, 'ctx) callbacks"
  assumes "\<And>tick. tk = Some tick \<Longrightarrow> tick_safe fits tick" "callbacks_all (sound_call fits) cbs"
  shows "timer_callbacks fits (invoke tk cbs)"
proof
  fix p :: "('cb, 'ctx) SoftwareTimerPool_t" and cb h ctx and w :: "'s \<times> ('cb, 'ctx) timer_event list"
  assume "pool_wf p" "fits (capacity p)"
  moreover have "script_all (sound_call fits) (cbs cb h ctx (fst w))"
    using assms(2) by (simp only: callbacks_all_def)
  ultimately have "\<exists>p' w'. run_script tk (cbs cb h ctx (fst w)) (p, fst w, snd w @ [Fired h ctx]) = Some (p', w') \<and>
      pool_wf p' \<and> fits (capacity p')"
    using run_script_safe [where tk = tk and fits = fits] assms(1) by blast
  then show "\<exists>p' w'. invoke tk cbs cb h ctx (p, w) = Some (p', w') \<and> pool_wf p' \<and> fits (capacity p')"
    by (cases w) (simp only: invoke_def prod.case fst_conv snd_conv)
qed

lemma callbacks_tick_safe: "timer_callbacks fits exec \<Longrightarrow> tick_safe fits (softwareTimerTick exec)"
  unfolding tick_safe_def by (intro allI impI) (rule timer_callbacks.tick_safe)

lemma script_exec_callbacks:
  fixes cbs :: "('s, 'cb, 'ctx) callbacks"
  assumes "callbacks_all (sound_call fits) cbs"
  shows "timer_callbacks fits (script_exec cbs n)"
proof (induction n)
  case 0
  show ?case
    unfolding script_exec.simps by (rule timer_callbacks_invoke [OF _ assms]) simp
next
  case (Suc n)
  show ?case
    unfolding script_exec.simps
    by (rule timer_callbacks_invoke [OF _ assms]) (use callbacks_tick_safe [OF Suc] in simp)
qed

interpretation app: timer_callbacks fits "script_exec (restricted (sound_call fits) cbs) n" for fits cbs n
  by (rule script_exec_callbacks) (rule restricted_all)

lemma app_tick_safe:
  assumes "callbacks_all (sound_call fits) cbs"
  shows "tick_safe fits (softwareTimerTick (script_exec cbs n))"
  using callbacks_tick_safe [OF app.timer_callbacks_axioms, of fits cbs n] restricted_same [OF assms] by simp

lemma run_app_safe:
  assumes "callbacks_all (sound_call fits) cbs" "script_all (sound_call fits) main" "pool_wf p" "fits (capacity p)"
  shows "\<exists>p' w'. run_app cbs n main (p, w) = Some (p', w') \<and> pool_wf p' \<and> fits (capacity p')"
  unfolding run_app_def
  by (rule run_script_safe [OF _ assms(2-4)]) (use app_tick_safe [OF assms(1)] in simp)

end
