(* ===== verification/TimerQuiet.thy ===== *)
theory TimerQuiet
  imports TimerScript
begin

text \<open>
  Applications that leave one timer alone.  A script that makes no start, stop or delete on
  slot \<open>j\<close> and does not initialise the pool anew (\<open>script_spares\<close>) lets the timer in that slot pass through one \<open>tick_slot\<close> for every
  tick recorded in the trace, however the ticks nest and whatever the other timers do.  The
  contract \<open>sparing_callbacks\<close> is interpreted on such callbacks, and on callbacks among which
  the one of slot \<open>j\<close> first stops its own timer.
\<close>

fun spares :: "nat \<Rightarrow> ('cb, 'ctx) timer_call \<Rightarrow> bool" where
  "spares j (CallStart h n) = (unat (index h) \<noteq> j)"
| "spares j (CallStop h) = (unat (index h) \<noteq> j)"
| "spares j (CallDelete h) = (unat (index h) \<noteq> j)"
| "spares j (CallInit stor cap) = (stor = None \<or> cap = 0)"
| "spares j c = True"

abbreviation script_spares :: "nat \<Rightarrow> ('s, 'cb, 'ctx) script \<Rightarrow> bool" where
  "script_spares j \<equiv> script_all (spares j)"

abbreviation leaves :: "nat \<Rightarrow> ('s, 'cb, 'ctx) callbacks \<Rightarrow> bool" where
  "leaves j \<equiv> callbacks_all (spares j)"

lemma spares_sound: "spares j c \<Longrightarrow> sound_call fits c"
  by (cases "(fits, c)" rule: sound_call.cases) auto

lemma spares_sounds:
  "script_spares j sc \<Longrightarrow> script_all (sound_call fits) sc"
  "leaves j cbs \<Longrightarrow> callbacks_all (sound_call fits) cbs"
  by (erule script_all_mono [rotated], erule spares_sound) (erule callbacks_all_mono [rotated], erule spares_sound)

text \<open>The callback of slot \<open>j\<close> stops its timer and then, like the others, leaves it alone.\<close>

definition stops_itself :: "nat \<Rightarrow> ('s, 'cb, 'ctx) callbacks \<Rightarrow> bool" where
  "stops_itself j cbs \<longleftrightarrow>
     (\<forall>cb h ctx s. if index h = of_nat j
        then \<exists>k. cbs cb h ctx s = Request (CallStop h) k \<and> (\<forall>r. script_spares j (k r))
        else script_spares j (cbs cb h ctx s))"

text \<open>Any callbacks, made to leave slot \<open>j\<close> alone, but for the stop.\<close>

definition self_stop :: "nat \<Rightarrow> ('s, 'cb, 'ctx) callbacks \<Rightarrow> ('s, 'cb, 'ctx) callbacks" where
  "self_stop j cbs cb h ctx s =
     (if index h = of_nat j
      then Request (CallStop h) (\<lambda>r. guarded (spares j) (case cbs cb h ctx s of Request c k \<Rightarrow> k r | sc \<Rightarrow> sc))
      else guarded (spares j) (cbs cb h ctx s))"

lemma self_stop_sound: "callbacks_all (sound_call fits) (self_stop j cbs)"
  by (auto simp: callbacks_all_def self_stop_def intro: spares_sounds(1) [where j = j])

lemma self_stop_same: "stops_itself j cbs \<Longrightarrow> self_stop j cbs = cbs"
proof (rule ext)+
  fix cb h ctx s
  assume "stops_itself j cbs"
  then have "if index h = of_nat j
      then \<exists>k. cbs cb h ctx s = Request (CallStop h) k \<and> (\<forall>r. script_spares j (k r))
      else script_spares j (cbs cb h ctx s)"
    by (simp only: stops_itself_def) blast
  then show "self_stop j cbs cb h ctx s = cbs cb h ctx s"
    by (auto simp: self_stop_def guarded_same split: if_splits)
qed

text \<open>What a trace says of slot \<open>j\<close>, and how many ticks it records.\<close>

definition firings :: "nat \<Rightarrow> ('cb, 'ctx) timer_event list \<Rightarrow> nat" where
  "firings j tr = length (filter (\<lambda>e. case e of Fired h ctx \<Rightarrow> index h = of_nat j | _ \<Rightarrow> False) tr)"

definition ticks_in :: "('cb, 'ctx) timer_event list \<Rightarrow> nat" where
  "ticks_in tr = length (filter (\<lambda>e. e = Ticked) tr)"

lemma trace_simps [simp]:
  "firings j [] = 0" "ticks_in [] = 0"
  "firings j (tr @ tr') = firings j tr + firings j tr'" "ticks_in (tr @ tr') = ticks_in tr + ticks_in tr'"
  "firings j [Ticked] = 0" "ticks_in [Ticked] = 1"
  "firings j [Called c r] = 0" "ticks_in [Called c r] = 0"
  "firings j [Fired h ctx] = (if index h = of_nat j then 1 else 0)" "ticks_in [Fired h ctx] = 0"
  by (simp_all add: firings_def ticks_in_def)

subsection \<open>Scripts that spare a slot\<close>

lemma effect_spares:
  assumes "pool_wf p" "state (tcb p j) \<noteq> SOFTWARE_TIMER_STATE_UNUSED" "spares j c"
  shows "tcb (call_effect c p) j = tcb p j"
proof (cases c p rule: effect_cases)
  case (create md cb ctx out i)
  with assms first_free_Some(1,2) [OF create(3)] tcb_upd [OF assms(1)] show ?thesis by auto
next
  case (init s cap)
  with assms show ?thesis by simp
next
  case (start h n)
  with assms tcb_upd [OF assms(1) liveD [OF start(2)]] show ?thesis by auto
next
  case (stop h)
  with assms tcb_upd [OF assms(1) liveD [OF stop(2)]] show ?thesis by auto
next
  case (delete h)
  with assms tcb_upd [OF assms(1) liveD [OF delete(2)]] show ?thesis by auto
qed simp

text \<open>A tick through which slot \<open>j\<close> passes once, as \<open>f\<close>, beyond the ticks it records itself.\<close>

definition tick_passes ::
  "(('cb, 'ctx) TimerControlBlock_t \<Rightarrow> ('cb, 'ctx) TimerControlBlock_t) \<Rightarrow> nat \<Rightarrow>
   (('cb, 'ctx) SoftwareTimerPool_t ptr \<times> 's \<times> ('cb, 'ctx) timer_event list \<Rightarrow>
     (SoftwareTimerStatus_t \<times> ('cb, 'ctx) SoftwareTimerPool_t ptr \<times> 's \<times> ('cb, 'ctx) timer_event list) run) \<Rightarrow> bool" where
  "tick_passes f j tick \<longleftrightarrow>
     (\<forall>p w. pool_wf p \<longrightarrow> holds_slot j (capacity p) \<longrightarrow> state (tcb p j) \<noteq> SOFTWARE_TIMER_STATE_UNUSED \<longrightarrow>
        (\<exists>p' w'. tick (Some p, w) = Some (SOFTWARE_TIMER_SUCCESS, Some p', w') \<and> pool_wf p' \<and>
           holds_slot j (capacity p') \<and>
           passed f (\<lambda>w. firings j (snd w)) (\<lambda>w. ticks_in (snd w)) 1 (tcb p j, w) (tcb p' j, w')))"

lemma run_script_passed:
  assumes f: "\<And>t. state t \<noteq> SOFTWARE_TIMER_STATE_UNUSED \<Longrightarrow> state (f t) \<noteq> SOFTWARE_TIMER_STATE_UNUSED"
    and tk: "\<And>tick. tk = Some tick \<Longrightarrow> tick_passes f j tick"
    and sc: "script_spares j sc"
    and p: "pool_wf p" "holds_slot j (capacity p)" "state (tcb p j) \<noteq> SOFTWARE_TIMER_STATE_UNUSED"
    and run: "run_script tk sc (p, w) = Some (p', w')"
  shows "passed f (\<lambda>w. firings j (snd w)) (\<lambda>w. ticks_in (snd w)) 0 (tcb p j, w) (tcb p' j, w')"
  using sc p run
proof (induction sc arbitrary: p w)
  case (Finish s)
  then show ?case by (auto intro: passed_same)
next
  case (Request c k)
  let ?p = "call_effect c p"
  from Request.prems(1) have c: "spares j c" by simp
  note sound = spares_sound [OF c, of "holds_slot j"]
  have same: "tcb ?p j = tcb p j"
    using Request.prems(2,4) c by (rule effect_spares)
  have "passed f (\<lambda>w. firings j (snd w)) (\<lambda>w. ticks_in (snd w)) 0
      (tcb ?p j, fst w, snd w @ [Called c (call_reply c p)]) (tcb p' j, w')"
    using Request.prems same do_call_eq [OF Request.prems(2) sound]
    by (intro Request.IH [OF rangeI _ effect_wf [where fits = "holds_slot j", OF Request.prems(2,3) sound]]) simp_all
  then show ?case
    by (simp add: same passed_def)
next
  case (Tick s k)
  show ?case
  proof (cases tk)
    case None
    with Tick.prems have "passed f (\<lambda>w. firings j (snd w)) (\<lambda>w. ticks_in (snd w)) 0 (tcb p j, w) (tcb p' j, w')"
      by (intro Tick.IH [OF rangeI rangeI, of None s]) simp_all
    then show ?thesis .
  next
    case (Some tick)
    let ?w = "(s, snd w @ [Ticked])"
    obtain p1 w1 where t: "tick (Some p, ?w) = Some (SOFTWARE_TIMER_SUCCESS, Some p1, w1)" "pool_wf p1"
      "holds_slot j (capacity p1)"
      "passed f (\<lambda>w. firings j (snd w)) (\<lambda>w. ticks_in (snd w)) 1 (tcb p j, ?w) (tcb p1 j, w1)"
      using tk [OF Some] Tick.prems(2-4) unfolding tick_passes_def by blast
    from t(4) have first: "passed f (\<lambda>w. firings j (snd w)) (\<lambda>w. ticks_in (snd w)) 0 (tcb p j, w) (tcb p1 j, w1)"
      by (rule passed_recorded) simp_all
    have used: "state (tcb p1 j) \<noteq> SOFTWARE_TIMER_STATE_UNUSED"
      using f first Tick.prems(4) by (rule passed_used)
    have "passed f (\<lambda>w. firings j (snd w)) (\<lambda>w. ticks_in (snd w)) 0 (tcb p1 j, w1) (tcb p' j, w')"
      using Tick.prems t(1-3) used Some
      by (intro Tick.IH [OF rangeI rangeI, of "Some SOFTWARE_TIMER_SUCCESS" "fst w1"]) simp_all
    from passed_trans [OF first this] show ?thesis by simp
  qed
qed

lemma run_app_passed:
  assumes "\<And>t. state t \<noteq> SOFTWARE_TIMER_STATE_UNUSED \<Longrightarrow> state (f t) \<noteq> SOFTWARE_TIMER_STATE_UNUSED"
    and "tick_passes f j (softwareTimerTick (script_exec cbs n))"
    and "callbacks_all (sound_call (holds_slot j)) cbs" "script_spares j main"
    and "pool_wf p" "holds_slot j (capacity p)" "state (tcb p j) \<noteq> SOFTWARE_TIMER_STATE_UNUSED"
  shows "\<exists>p' s' tr'. run_app cbs n main (p, s, tr) = Some (p', s', tr') \<and> pool_wf p' \<and> holds_slot j (capacity p') \<and>
    passed f (\<lambda>w. firings j (snd w)) (\<lambda>w. ticks_in (snd w)) 0 (tcb p j, s, tr) (tcb p' j, s', tr')"
proof -
  obtain p' s' tr' where run: "run_app cbs n main (p, s, tr) = Some (p', s', tr')" "pool_wf p'" "holds_slot j (capacity p')"
    using run_app_safe [OF assms(3) spares_sounds(1) [OF assms(4)] assms(5,6), of n "(s, tr)"] by auto
  have "passed f (\<lambda>w. firings j (snd w)) (\<lambda>w. ticks_in (snd w)) 0 (tcb p j, s, tr) (tcb p' j, s', tr')"
    using assms(1) _ assms(4-7) run(1) [unfolded run_app_def]
    by (rule run_script_passed) (use assms(2) in simp_all)
  with run show ?thesis by blast
qed

subsection \<open>Callbacks that leave a timer alone, and that stop their own\<close>

lemma handle_at_live:
  assumes "holds_slot j (capacity p)" "state (tcb p j) \<noteq> SOFTWARE_TIMER_STATE_UNUSED"
  shows "live p (handle_at p j)" "unat (index (handle_at p j)) = j" "index (handle_at p j) = of_nat j"
  using assms by (simp_all add: live_def handle_at_def holds_slot_def unat_of_nat take_bit_nat_eq_self)

lemma sparing_tick_passes:
  assumes "sparing_callbacks j exec own (\<lambda>w. firings j (snd w)) (\<lambda>w. ticks_in (snd w))"
  shows "tick_passes (own_step own) j (softwareTimerTick exec)"
proof -
  have "timer_callbacks (holds_slot j) exec"
    using assms by (simp add: sparing_callbacks_def)
  note safe = timer_callbacks.tick_safe [OF this]
  show ?thesis
    unfolding tick_passes_def
  proof (intro allI impI)
    fix p :: "('a, 'b) SoftwareTimerPool_t" and w :: "'c \<times> ('a, 'b) timer_event list"
    assume p: "pool_wf p" "holds_slot j (capacity p)" "state (tcb p j) \<noteq> SOFTWARE_TIMER_STATE_UNUSED"
    obtain p' w' where "softwareTimerTick exec (Some p, w) = Some (SOFTWARE_TIMER_SUCCESS, Some p', w')" "pool_wf p'"
      "holds_slot j (capacity p')"
      using safe [OF p(1,2), of w] by auto
    with sparing_callbacks.tick_spare [OF assms p this(1)]
    show "\<exists>p' w'. softwareTimerTick exec (Some p, w) = Some (SOFTWARE_TIMER_SUCCESS, Some p', w') \<and> pool_wf p' \<and>
        holds_slot j (capacity p') \<and> passed (own_step own) (\<lambda>w. firings j (snd w)) (\<lambda>w. ticks_in (snd w)) 1 (tcb p j, w) (tcb p' j, w')"
      by blast
  qed
qed

lemma invoke_passed:
  assumes "\<And>t. state t \<noteq> SOFTWARE_TIMER_STATE_UNUSED \<Longrightarrow> state (f t) \<noteq> SOFTWARE_TIMER_STATE_UNUSED"
    and "\<And>tick. tk = Some tick \<Longrightarrow> tick_passes f j tick" "script_spares j (cbs cb h ctx (fst w))"
    and "pool_wf p" "holds_slot j (capacity p)" "state (tcb p j) \<noteq> SOFTWARE_TIMER_STATE_UNUSED"
    and "invoke tk cbs cb h ctx (p, w) = Some (p', w')"
  shows "passed f (\<lambda>w. firings j (snd w)) (\<lambda>w. ticks_in (snd w)) 0
    (tcb p j, fst w, snd w @ [Fired h ctx]) (tcb p' j, w')"
  using assms(1-6)
  by (rule run_script_passed) (use assms(7) in \<open>simp_all add: invoke_def split: prod.splits\<close>)

lemma leaving_contract:
  fixes cbs :: "('s, 'cb, 'ctx) callbacks"
  assumes "timer_callbacks (holds_slot j) (invoke tk (restricted (spares j) cbs))" "\<And>tick. tk = Some tick \<Longrightarrow> tick_passes tick_slot j tick"
  shows "sparing_callbacks j (invoke tk (restricted (spares j) cbs)) (\<lambda>t. t) (\<lambda>w. firings j (snd w)) (\<lambda>w. ticks_in (snd w))"
  unfolding sparing_callbacks_def
proof (intro conjI assms(1), unfold_locales)
  fix p p' :: "('cb, 'ctx) SoftwareTimerPool_t" and cb h ctx and w w' :: "'s \<times> ('cb, 'ctx) timer_event list"
  assume *: "pool_wf p" "holds_slot j (capacity p)" "state (tcb p j) \<noteq> SOFTWARE_TIMER_STATE_UNUSED"
    "invoke tk (restricted (spares j) cbs) cb h ctx (p, w) = Some (p', w')"
  have after: "passed tick_slot (\<lambda>w. firings j (snd w)) (\<lambda>w. ticks_in (snd w)) 0
      (tcb p j, fst w, snd w @ [Fired h ctx]) (tcb p' j, w')"
    using _ assms(2) _ * by (rule invoke_passed) (simp_all add: tick_slot_state restricted_def)
  then show "index h \<noteq> of_nat j \<Longrightarrow>
      passed (own_step (\<lambda>t. t)) (\<lambda>w. firings j (snd w)) (\<lambda>w. ticks_in (snd w)) 0 (tcb p j, w) (tcb p' j, w')"
    by (simp add: passed_def)
next
  fix p p' :: "('cb, 'ctx) SoftwareTimerPool_t" and cb ctx and w w' :: "'s \<times> ('cb, 'ctx) timer_event list"
  assume *: "pool_wf p" "holds_slot j (capacity p)" "state (tcb p j) \<noteq> SOFTWARE_TIMER_STATE_UNUSED"
    "invoke tk (restricted (spares j) cbs) cb (handle_at p j) ctx (p, w) = Some (p', w')"
  have after: "passed tick_slot (\<lambda>w. firings j (snd w)) (\<lambda>w. ticks_in (snd w)) 0
      (tcb p j, fst w, snd w @ [Fired (handle_at p j) ctx]) (tcb p' j, w')"
    using _ assms(2) _ * by (rule invoke_passed) (simp_all add: tick_slot_state restricted_def)
  then show "\<exists>v. ticks_in (snd v) = ticks_in (snd w) \<and> firings j (snd v) = Suc (firings j (snd w)) \<and>
      passed (own_step (\<lambda>t. t)) (\<lambda>w. firings j (snd w)) (\<lambda>w. ticks_in (snd w)) 0 (tcb p j, v) (tcb p' j, w')"
    by (intro exI [of _ "(fst w, snd w @ [Fired (handle_at p j) ctx])"]) (simp add: handle_at_def)
qed

lemma restricted_sound: "callbacks_all (sound_call fits) (restricted (spares j) cbs)"
  by (rule spares_sounds(2)) (rule restricted_all)

lemma leaving_callbacks:
  "sparing_callbacks j (script_exec (restricted (spares j) cbs) n) (\<lambda>t. t) (\<lambda>w. firings j (snd w)) (\<lambda>w. ticks_in (snd w))"
proof (induction n)
  case 0
  show ?case
    unfolding script_exec.simps using script_exec_callbacks [OF restricted_sound, where n = 0]
    by (intro leaving_contract) simp_all
next
  case (Suc n)
  show ?case
    unfolding script_exec.simps using script_exec_callbacks [OF restricted_sound, where n = "Suc n"] sparing_tick_passes [OF Suc]
    by (intro leaving_contract) simp_all
qed

interpretation quiet: sparing_callbacks j "script_exec (restricted (spares j) cbs) n" "\<lambda>t. t"
    "\<lambda>w. firings j (snd w)" "\<lambda>w. ticks_in (snd w)" for j cbs n
  by (rule leaving_callbacks)

lemma stop_slot_stays:
  "own_step stop_slot (stop_slot t) = stop_slot t" "\<not> expires (stop_slot t)"
  by (simp_all add: own_step_def tick_slot_def stop_slot_def expires_def)

lemma own_stop_used:
  "state t \<noteq> SOFTWARE_TIMER_STATE_UNUSED \<Longrightarrow> state (own_step stop_slot t) \<noteq> SOFTWARE_TIMER_STATE_UNUSED"
  by (simp add: own_step_def tick_slot_state stop_slot_def)

lemma self_stop_contract:
  fixes cbs :: "('s, 'cb, 'ctx) callbacks"
  assumes "timer_callbacks (holds_slot j) (invoke tk (self_stop j cbs))"
    and tk: "\<And>tick. tk = Some tick \<Longrightarrow> tick_passes (own_step stop_slot) j tick"
  shows "sparing_callbacks j (invoke tk (self_stop j cbs)) stop_slot (\<lambda>w. firings j (snd w)) (\<lambda>w. ticks_in (snd w))"
  unfolding sparing_callbacks_def
proof (intro conjI assms(1), unfold_locales)
  fix p p' :: "('cb, 'ctx) SoftwareTimerPool_t" and cb h ctx and w w' :: "'s \<times> ('cb, 'ctx) timer_event list"
  assume *: "pool_wf p" "holds_slot j (capacity p)" "state (tcb p j) \<noteq> SOFTWARE_TIMER_STATE_UNUSED"
    and h: "index h \<noteq> of_nat j" and run: "invoke tk (self_stop j cbs) cb h ctx (p, w) = Some (p', w')"
  have "passed (own_step stop_slot) (\<lambda>w. firings j (snd w)) (\<lambda>w. ticks_in (snd w)) 0
      (tcb p j, fst w, snd w @ [Fired h ctx]) (tcb p' j, w')"
    using own_stop_used tk _ * run by (rule invoke_passed) (simp_all add: self_stop_def h)
  with h show "passed (own_step stop_slot) (\<lambda>w. firings j (snd w)) (\<lambda>w. ticks_in (snd w)) 0 (tcb p j, w) (tcb p' j, w')"
    by (simp add: passed_def)
next
  fix p p' :: "('cb, 'ctx) SoftwareTimerPool_t" and cb ctx and w w' :: "'s \<times> ('cb, 'ctx) timer_event list"
  assume *: "pool_wf p" "holds_slot j (capacity p)" "state (tcb p j) \<noteq> SOFTWARE_TIMER_STATE_UNUSED"
    and run: "invoke tk (self_stop j cbs) cb (handle_at p j) ctx (p, w) = Some (p', w')"
  note h = handle_at_live [OF *(2,3)]
  let ?p = "upd p j stop_slot"
  let ?sc = "guarded (spares j) (case cbs cb (handle_at p j) ctx (fst w) of Request c k \<Rightarrow> k (ReplyStatus SOFTWARE_TIMER_SUCCESS) | sc \<Rightarrow> sc)"
  let ?w = "(fst w, snd w @ [Fired (handle_at p j) ctx, Called (CallStop (handle_at p j)) (ReplyStatus SOFTWARE_TIMER_SUCCESS)])"
  have rest: "run_script tk ?sc (?p, ?w) = Some (p', w')"
    using run h by (simp add: invoke_def self_stop_def do_call_eq [OF *(1), of "\<lambda>c. True"] split: prod.splits)
  have t: "tcb ?p j = stop_slot (tcb p j)"
    using tcb_upd [OF *(1)] *(2) by (simp add: holds_slot_def)
  have "pool_wf ?p"
    using * by (intro pool_wf_upd slot_wf_updates(2) slot_wfD) (simp_all add: holds_slot_def)
  then have "passed (own_step stop_slot) (\<lambda>w. firings j (snd w)) (\<lambda>w. ticks_in (snd w)) 0 (tcb ?p j, ?w) (tcb p' j, w')"
    by (intro run_script_passed [OF own_stop_used tk guarded_all _ _ _ rest])
      (use * t in \<open>simp_all add: stop_slot_def\<close>)
  moreover have "ticks_in (snd ?w) = ticks_in (snd w) \<and> firings j (snd ?w) = Suc (firings j (snd w))"
    using h by (simp add: ticks_in_def firings_def)
  ultimately show "\<exists>v. ticks_in (snd v) = ticks_in (snd w) \<and> firings j (snd v) = Suc (firings j (snd w)) \<and>
      passed (own_step stop_slot) (\<lambda>w. firings j (snd w)) (\<lambda>w. ticks_in (snd w)) 0 (stop_slot (tcb p j), v) (tcb p' j, w')"
    unfolding t by blast
qed (simp add: stop_slot_def)

lemma self_stop_callbacks:
  "sparing_callbacks j (script_exec (self_stop j cbs) n) stop_slot (\<lambda>w. firings j (snd w)) (\<lambda>w. ticks_in (snd w))"
proof (induction n)
  case 0
  show ?case
    unfolding script_exec.simps using script_exec_callbacks [OF self_stop_sound, where n = 0]
    by (intro self_stop_contract) simp_all
next
  case (Suc n)
  show ?case
    unfolding script_exec.simps using script_exec_callbacks [OF self_stop_sound, where n = "Suc n"] sparing_tick_passes [OF Suc]
    by (intro self_stop_contract) simp_all
qed

interpretation self_stop: sparing_callbacks j "script_exec (self_stop j cbs) n" stop_slot
    "\<lambda>w. firings j (snd w)" "\<lambda>w. ticks_in (snd w)" for j cbs n
  by (rule self_stop_callbacks)

text \<open>A whole application that leaves the timer in slot \<open>j\<close> alone.\<close>

lemma quiet_app:
  assumes "leaves j cbs" "script_spares j main" "pool_wf p" "holds_slot j (capacity p)"
    and "state (tcb p j) \<noteq> SOFTWARE_TIMER_STATE_UNUSED"
  shows "\<exists>p' s' tr. run_app cbs n main (p, s, []) = Some (p', s', tr) \<and> pool_wf p' \<and> holds_slot j (capacity p') \<and>
    tcb p' j = (tick_slot ^^ ticks_in tr) (tcb p j) \<and> firings j tr = expiries tick_slot (ticks_in tr) (tcb p j)"
proof -
  have "tick_passes tick_slot j (softwareTimerTick (script_exec cbs n))"
    using sparing_tick_passes [OF quiet.sparing_callbacks_axioms [of j cbs n]] restricted_same [OF assms(1)] by simp
  from run_app_passed [OF _ this spares_sounds(2) [OF assms(1)] assms(2-5), of s "[]"] show ?thesis
    by (fastforce simp: passed_def tick_slot_state)
qed

lemma self_stop_app:
  assumes "stops_itself j cbs" "script_spares j main" "pool_wf p" "holds_slot j (capacity p)"
    and "state (tcb p j) \<noteq> SOFTWARE_TIMER_STATE_UNUSED"
  shows "\<exists>p' s' tr. run_app cbs n main (p, s, []) = Some (p', s', tr) \<and> pool_wf p' \<and> holds_slot j (capacity p') \<and>
    tcb p' j = (own_step stop_slot ^^ ticks_in tr) (tcb p j) \<and>
    firings j tr = expiries (own_step stop_slot) (ticks_in tr) (tcb p j)"
proof -
  note same = self_stop_same [OF assms(1)]
  have "tick_passes (own_step stop_slot) j (softwareTimerTick (script_exec cbs n))"
    using sparing_tick_passes [OF self_stop.sparing_callbacks_axioms [of j cbs n]] same by simp
  from run_app_passed [OF own_stop_used this self_stop_sound [of _ j cbs, unfolded same] assms(2-5), of s "[]"]
  show ?thesis
    by (fastforce simp: passed_def)
qed

end
