(* ===== verification/TimerOrder.thy ===== *)
theory TimerOrder
  imports TimerQuiet
begin

text \<open>
  The order of the callbacks.  The events of one tick are a \<open>tick_trace\<close>: callbacks in
  ascending slot order, each followed by what its script did, which may be further ticks with
  callbacks of their own, in their order.  The locale \<open>ordered_callbacks\<close> is what a tick needs
  for that, and scripts provide it.
\<close>

text \<open>The slots whose callbacks a trace records, in order.\<close>

fun fired_slots :: "('cb, 'ctx) timer_event list \<Rightarrow> nat list" where
  "fired_slots [] = []"
| "fired_slots (Fired h ctx # tr) = unat (index h) # fired_slots tr"
| "fired_slots (e # tr) = fired_slots tr"

lemma fired_slots_append [simp]: "fired_slots (tr @ tr') = fired_slots tr @ fired_slots tr'"
  by (induction tr rule: fired_slots.induct) simp_all

lemma firings_fired: "j < 256 \<Longrightarrow> 0 < firings j tr \<longleftrightarrow> j \<in> set (fired_slots tr)"
proof (induction tr rule: fired_slots.induct)
  case (2 h ctx tr)
  have "index h = of_nat j \<longleftrightarrow> unat (index h) = j"
    using 2(2) by (auto simp: unat_of_nat take_bit_nat_eq_self)
  with 2 show ?case by (auto simp: firings_def)
qed (simp_all add: firings_def)

text \<open>The events of a tick's scan from slot \<open>i\<close> on, with slots below \<open>n\<close>, and those of a script.\<close>

inductive tick_trace :: "nat \<Rightarrow> nat \<Rightarrow> ('cb, 'ctx) timer_event list \<Rightarrow> bool"
  and script_trace :: "nat \<Rightarrow> ('cb, 'ctx) timer_event list \<Rightarrow> bool" for n where
  tick_end: "tick_trace n i []"
| tick_fire: "i \<le> unat (index h) \<Longrightarrow> unat (index h) < n \<Longrightarrow> script_trace n body \<Longrightarrow>
    tick_trace n (Suc (unat (index h))) es \<Longrightarrow> tick_trace n i (Fired h ctx # body @ es)"
| script_end: "script_trace n []"
| script_call: "script_trace n es \<Longrightarrow> script_trace n (Called c r # es)"
| script_tick: "tick_trace n 0 ts \<Longrightarrow> script_trace n es \<Longrightarrow> script_trace n (Ticked # ts @ es)"

lemma tick_trace_later: "tick_trace n i es \<Longrightarrow> k \<le> i \<Longrightarrow> tick_trace n k es"
  by (erule tick_trace.cases) (auto intro: tick_trace_script_trace.intros)

text \<open>Where no callback ticks, the slots are strictly ascending.\<close>

lemma trace_order:
  "tick_trace n i es \<Longrightarrow> ticks_in es = 0 \<longrightarrow>
     sorted_wrt (<) (fired_slots es) \<and> (\<forall>k\<in>set (fired_slots es). i \<le> k \<and> k < n)"
  "script_trace n es \<Longrightarrow> ticks_in es = 0 \<longrightarrow> fired_slots es = []"
proof (induction rule: tick_trace_script_trace.inducts)
  case (tick_fire i h body es ctx)
  then show ?case by (fastforce simp: ticks_in_def)
qed (simp_all add: ticks_in_def)

subsection \<open>A tick\<close>

text \<open>Pools of at most \<open>n\<close> slots, all of which a handle can name.\<close>

definition at_most :: "nat \<Rightarrow> size_t \<Rightarrow> bool" where
  "at_most n c \<longleftrightarrow> unat c \<le> n \<and> unat c \<le> 256"

locale ordered_callbacks = timer_callbacks "at_most n" exec
  for n :: nat and exec :: "'cb \<Rightarrow> ('cb, 'ctx, 'w) SoftwareTimerCallback_t" +
  fixes trace :: "'w \<Rightarrow> ('cb, 'ctx) timer_event list"
  assumes exec_trace: "pool_wf p \<Longrightarrow> at_most n (capacity p) \<Longrightarrow> exec cb h ctx (p, w) = Some (p', w') \<Longrightarrow>
      \<exists>body. trace w' = trace w @ Fired h ctx # body \<and> script_trace n body"
begin

lemma tickSlot_trace:
  assumes wf: "pool_wf p" "at_most n (capacity p)" and i: "i < unat (capacity p)"
    and run: "tickSlot exec i (p, w) = Some (p', w')" and rest: "tick_trace n (Suc i) es"
  shows "\<exists>new. trace w' = trace w @ new \<and> tick_trace n i (new @ es)"
proof (cases "expires (tcb p i)")
  case True
  have "pool_wf (upd p i tick_slot)"
    using wf(1) i by (intro pool_wf_upd slot_wf_tick slot_wfD)
  then obtain body where "trace w' = trace w @ Fired (handle_at p i) (cbContext (tcb p i)) # body" "script_trace n body"
    using exec_trace [of "upd p i tick_slot"] run True wf(2) by (fastforce simp: tickSlot_eq [OF wf(1) i])
  moreover have "unat (index (handle_at p i)) = i" "i < n"
    using i wf(2) by (simp_all add: handle_at_def at_most_def unat_of_nat take_bit_nat_eq_self)
  ultimately show ?thesis
    using tick_fire [of i "handle_at p i" n body es] rest by auto
next
  case False
  with run rest show ?thesis
    by (auto simp: tickSlot_eq [OF wf(1) i] intro: tick_trace_later)
qed

lemma tickFrom_trace:
  assumes "pool_wf p" "at_most n (capacity p)" "tickFrom exec i (p, w) = Some (p', w')"
  shows "\<exists>new. trace w' = trace w @ new \<and> tick_trace n i new"
  using assms
proof (induction "n - i" arbitrary: i p w)
  case 0
  then show ?case
    by (subst (asm) tickFrom.simps) (auto simp: at_most_def intro: tick_end)
next
  case (Suc m)
  show ?case
  proof (cases "i < unat (capacity p)")
    case True
    obtain p1 w1 where p1: "tickSlot exec i (p, w) = Some (p1, w1)" "pool_wf p1" "at_most n (capacity p1)"
      using Suc.prems(1,2) True by (rule tickSlot_safe)
    have "tickFrom exec (Suc i) (p1, w1) = Some (p', w')"
      using Suc.prems(3) True p1(1) by (subst (asm) tickFrom.simps) simp
    moreover have "m = n - Suc i"
      using Suc.hyps(2) by simp
    ultimately obtain es where "trace w' = trace w1 @ es" "tick_trace n (Suc i) es"
      using Suc.hyps(1) p1(2,3) by blast
    with tickSlot_trace [OF Suc.prems(1,2) True p1(1)] show ?thesis by fastforce
  next
    case False
    with Suc.prems(3) show ?thesis
      by (subst (asm) tickFrom.simps) (auto intro: tick_end)
  qed
qed

theorem tick_trace:
  assumes "pool_wf p" "at_most n (capacity p)" "softwareTimerTick exec (Some p, w) = Some (st, Some p', w')"
  shows "\<exists>new. trace w' = trace w @ new \<and> tick_trace n 0 new"
proof -
  have "\<not> no_storage (Some p)"
    using assms(1) by (rule pool_wfE)
  with assms(3) have "tickFrom exec 0 (p, w) = Some (p', w')"
    by (auto simp: softwareTimerTick_def split: Option.bind_splits)
  from tickFrom_trace [OF assms(1,2) this] show ?thesis .
qed

end

subsection \<open>Scripts\<close>

definition tick_ordered ::
  "nat \<Rightarrow> (('cb, 'ctx) SoftwareTimerPool_t ptr \<times> 's \<times> ('cb, 'ctx) timer_event list \<Rightarrow>
     (SoftwareTimerStatus_t \<times> ('cb, 'ctx) SoftwareTimerPool_t ptr \<times> 's \<times> ('cb, 'ctx) timer_event list) run) \<Rightarrow> bool" where
  "tick_ordered n tick \<longleftrightarrow>
     (\<forall>p w. pool_wf p \<longrightarrow> at_most n (capacity p) \<longrightarrow>
        (\<exists>p' w' new. tick (Some p, w) = Some (SOFTWARE_TIMER_SUCCESS, Some p', w') \<and> pool_wf p' \<and>
           at_most n (capacity p') \<and> snd w' = snd w @ new \<and> tick_trace n 0 new))"

lemma run_script_trace:
  assumes tk: "\<And>tick. tk = Some tick \<Longrightarrow> tick_ordered n tick"
    and sc: "script_all (sound_call (at_most n)) sc" and p: "pool_wf p" "at_most n (capacity p)"
    and run: "run_script tk sc (p, w) = Some (p', w')"
  shows "\<exists>new. snd w' = snd w @ new \<and> script_trace n new"
  using sc p run
proof (induction sc arbitrary: p w)
  case (Finish s)
  then show ?case by (auto intro: script_end)
next
  case (Request c k)
  then have c: "sound_call (at_most n) c" by simp
  let ?p = "call_effect c p" and ?w = "(fst w, snd w @ [Called c (call_reply c p)])"
  have "\<exists>new. snd w' = snd ?w @ new \<and> script_trace n new"
    using Request.prems do_call_eq [OF Request.prems(2) c]
    by (intro Request.IH [OF rangeI _ effect_wf [where fits = "at_most n", OF Request.prems(2,3) c]]) simp_all
  then show ?case by (auto intro: script_call)
next
  case (Tick s k)
  show ?case
  proof (cases tk)
    case None
    with Tick.prems have "\<exists>new. snd w' = snd w @ new \<and> script_trace n new"
      by (intro Tick.IH [OF rangeI [of k None] rangeI [of "k None" s]]) simp_all
    then show ?thesis .
  next
    case (Some tick)
    let ?w = "(s, snd w @ [Ticked])"
    obtain p1 w1 ts where t: "tick (Some p, ?w) = Some (SOFTWARE_TIMER_SUCCESS, Some p1, w1)" "pool_wf p1"
      "at_most n (capacity p1)" "snd w1 = snd ?w @ ts" "tick_trace n 0 ts"
      using tk [OF Some] Tick.prems(2,3) unfolding tick_ordered_def by blast
    have "\<exists>new. snd w' = snd w1 @ new \<and> script_trace n new"
      using Tick.prems t(1-3) Some
      by (intro Tick.IH [OF rangeI [of k "Some SOFTWARE_TIMER_SUCCESS"]
            rangeI [of "k (Some SOFTWARE_TIMER_SUCCESS)" "fst w1"]]) simp_all
    with t(4,5) show ?thesis by (auto intro: script_tick)
  qed
qed

lemma tick_ordered:
  assumes "ordered_callbacks n exec snd"
  shows "tick_ordered n (softwareTimerTick exec)"
  unfolding tick_ordered_def
proof (intro allI impI)
  fix p :: "('a, 'b) SoftwareTimerPool_t" and w :: "'c \<times> ('a, 'b) timer_event list"
  assume p: "pool_wf p" "at_most n (capacity p)"
  have "timer_callbacks (at_most n) exec"
    using assms by (simp add: ordered_callbacks_def)
  from timer_callbacks.tick_safe [OF this p, of w]
  obtain p' w' where run: "softwareTimerTick exec (Some p, w) = Some (SOFTWARE_TIMER_SUCCESS, Some p', w')" "pool_wf p'"
    "at_most n (capacity p')" by auto
  with ordered_callbacks.tick_trace [OF assms p run(1)]
  show "\<exists>p' w' new. softwareTimerTick exec (Some p, w) = Some (SOFTWARE_TIMER_SUCCESS, Some p', w') \<and> pool_wf p' \<and>
      at_most n (capacity p') \<and> snd w' = snd w @ new \<and> tick_trace n 0 new"
    by blast
qed

lemma invoke_ordered:
  fixes cbs :: "('s, 'cb, 'ctx) callbacks"
  assumes "timer_callbacks (at_most n) (invoke tk cbs)" "\<And>tick. tk = Some tick \<Longrightarrow> tick_ordered n tick"
    and sound: "callbacks_all (sound_call (at_most n)) cbs"
  shows "ordered_callbacks n (invoke tk cbs) snd"
  unfolding ordered_callbacks_def
proof (intro conjI assms(1), unfold_locales)
  fix p p' :: "('cb, 'ctx) SoftwareTimerPool_t" and cb h ctx and w w' :: "'s \<times> ('cb, 'ctx) timer_event list"
  assume wf: "pool_wf p" "at_most n (capacity p)" and run: "invoke tk cbs cb h ctx (p, w) = Some (p', w')"
  have "run_script tk (cbs cb h ctx (fst w)) (p, fst w, snd w @ [Fired h ctx]) = Some (p', w')"
    using run by (simp add: invoke_def split: prod.splits)
  from run_script_trace [OF assms(2) _ wf this] sound
  show "\<exists>body. snd w' = snd w @ Fired h ctx # body \<and> script_trace n body"
    by (auto simp: callbacks_all_def)
qed

lemma script_exec_ordered:
  assumes "callbacks_all (sound_call (at_most n)) cbs"
  shows "ordered_callbacks n (script_exec cbs d) snd"
proof (induction d)
  case 0
  show ?case
    unfolding script_exec.simps using script_exec_callbacks [OF assms, of 0]
    by (intro invoke_ordered [OF _ _ assms]) simp_all
next
  case (Suc d)
  show ?case
    unfolding script_exec.simps using script_exec_callbacks [OF assms, of "Suc d"] tick_ordered [OF Suc]
    by (intro invoke_ordered [OF _ _ assms]) simp_all
qed

interpretation order: ordered_callbacks n "script_exec (restricted (sound_call (at_most n)) cbs) d" snd
  for n cbs d
  by (rule script_exec_ordered) (rule restricted_all)

lemma tick_app_trace:
  assumes "callbacks_all (sound_call (at_most n)) cbs" "pool_wf p" "at_most n (capacity p)"
  obtains p' s' new where "softwareTimerTick (script_exec cbs d) (Some p, s, tr) =
      Some (SOFTWARE_TIMER_SUCCESS, Some p', s', tr @ new)" "pool_wf p'" "tick_trace n 0 new"
proof -
  have "tick_ordered n (softwareTimerTick (script_exec cbs d))"
    using tick_ordered [OF order.ordered_callbacks_axioms, of n cbs d] restricted_same [OF assms(1)] by simp
  with assms(2,3) that show thesis
    unfolding tick_ordered_def by (metis prod.collapse snd_conv)
qed

end
