(* ===== verification/SwTimerApi.thy ===== *)
theory SwTimerApi
  imports TimerOrder
begin

text \<open>
  The properties of the timer pool as its applications see them: main programs and callbacks
  that are arbitrary scripts of \<open>TimerScript\<close>.
\<close>

text \<open>In a tick, a timer that the callbacks leave alone passes through it and those made within.\<close>

lemma tick_left_alone:
  assumes wf: "pool_wf p" "holds_slot j (capacity p)"
    and used: "state (tcb p j) \<noteq> SOFTWARE_TIMER_STATE_UNUSED" and leaves: "leaves j cbs"
    and run: "softwareTimerTick (script_exec cbs n) (Some p, s, tr) = Some (st, Some p', s', tr @ new)"
  shows "firings j new = expiries tick_slot (Suc (ticks_in new)) (tcb p j)"
    and "tcb p' j = (tick_slot ^^ Suc (ticks_in new)) (tcb p j)"
proof -
  have "passed (own_step (\<lambda>t. t)) (\<lambda>w. firings j (snd w)) (\<lambda>w. ticks_in (snd w)) 1 (tcb p j, s, tr) (tcb p' j, s', tr @ new)"
    using quiet.tick_spare [OF wf used, of cbs n] restricted_same [OF leaves] run by simp
  then show "firings j new = expiries tick_slot (Suc (ticks_in new)) (tcb p j)"
    and "tcb p' j = (tick_slot ^^ Suc (ticks_in new)) (tcb p j)"
    by (simp_all add: passed_def del: expiries.simps funpow.simps)
qed

subsection \<open>Properties\<close>

text \<open>C4: the pool survives every application.  From an initialised pool over any storage that
  holds it, any main program and any callbacks, which make arbitrary API calls on the pool
  (with valid, stale or invented handles and null pointers, on their own timer too), decide
  on each call by what the earlier ones returned, call the tick from within a callback to
  any depth, and initialise the pool anew, in the middle of a tick too, over the same storage
  or another and with another capacity, run to their end without undefined behaviour, and the
  pool stays well-formed: a running timer has between 1 and its timeout ticks left and a
  callback, any other slot has none left.  The only duty of the application is that a storage
  it passes holds the capacity it states (\<open>sound_call\<close>).\<close>

theorem timer_pool_always_wellformed:
  fixes cbs :: "('s, 'cb, 'ctx) callbacks"
  assumes "0 < unat cap" "unat cap \<le> length st" "fits cap"
    and "callbacks_all (sound_call fits) cbs" "script_all (sound_call fits) main"
  shows "\<exists>p p' s' tr. softwareTimerInit (Some old) (Some st) cap = Some (SOFTWARE_TIMER_SUCCESS, Some p) \<and>
    run_app cbs n main (p, s, []) = Some (p', s', tr) \<and> pool_wf p' \<and> fits (capacity p')"
proof -
  have cap: "cap \<noteq> 0" "fits (capacity (fresh_pool st cap))"
    using assms(1,3) by (auto simp: fresh_pool_slots)
  from run_app_safe [OF assms(4,5) fresh_pool_wf [OF cap(1) assms(2)] cap(2), of n "(s, [])"]
  show ?thesis
    using init_eq [OF cap(1) assms(2), of old] by auto
qed

definition no_pool :: "(nat, nat) SoftwareTimerPool_t" where
  "no_pool = \<lparr>storage = None, capacity = 0\<rparr>"

definition slot_example :: "SoftwareTimerMode_t \<Rightarrow> u32 \<Rightarrow> (nat, nat) TimerControlBlock_t" where
  "slot_example md n = blank_slot\<lparr>mode := md, callback := Some 1, state := SOFTWARE_TIMER_STATE_RUNNING,
     timeout := n, remaining := n, generation := 3\<rparr>"

definition timer_example :: "SoftwareTimerMode_t \<Rightarrow> u32 \<Rightarrow> (nat, nat) SoftwareTimerPool_t" where
  "timer_example md n = \<lparr>storage = Some [slot_example SOFTWARE_TIMER_MODE_PERIODIC 1, slot_example md n, blank_slot],
     capacity = 3\<rparr>"

definition handle_example :: TimerHandle_t where
  "handle_example = \<lparr>index = 1, handleGeneration = 3\<rparr>"

lemma all_below_3: "(\<forall>i<3. P i) \<longleftrightarrow> P 0 \<and> P 1 \<and> P (2 :: nat)"
  by (auto simp: eval_nat_numeral less_Suc_eq)

lemma timer_example_ok:
  assumes "md = SOFTWARE_TIMER_MODE_ONE_SHOT \<or> md = SOFTWARE_TIMER_MODE_PERIODIC" "0 < n"
  shows "pool_wf (timer_example md n)" "live (timer_example md n) handle_example"
    "unat (index handle_example) = 1" "capacity (timer_example md n) = 3"
    "tcb (timer_example md n) 1 = slot_example md n"
  using assms
  by (auto simp: pool_wf_def timer_example_def slot_example_def blank_slot_def handle_example_def
      slot_wf_def live_def tcb_def all_below_3)

text \<open>A main program that only ticks; one that creates and starts a timer and then ticks.\<close>

primrec ticking :: "nat \<Rightarrow> 's \<Rightarrow> ('s, 'cb, 'ctx) script" where
  "ticking 0 s = Finish s"
| "ticking (Suc n) s = Tick s (\<lambda>st. ticking n)"

definition start_and_tick :: "SoftwareTimerMode_t \<Rightarrow> u32 \<Rightarrow> nat \<Rightarrow> (nat, nat, nat) script" where
  "start_and_tick md t n =
     Request (CallCreate md (Some 1) None (Some \<lparr>index = 0, handleGeneration = 0\<rparr>))
       (\<lambda>r. case r of
              ReplyHandle SOFTWARE_TIMER_SUCCESS (Some h) \<Rightarrow> Request (CallStart h t) (\<lambda>_. ticking n 0)
            | _ \<Rightarrow> Finish 0)"

lemma ticking_all [simp]: "script_all P (ticking n s)"
  by (induction n arbitrary: s) simp_all

lemma start_and_tick_sound [simp]: "script_all (sound_call fits) (start_and_tick md t n)"
  by (simp add: start_and_tick_def split: timer_reply.split SoftwareTimerStatus_t.split option.split)

text \<open>
  Example callbacks: the first stops its timer and counts, the second replaces its timer by a
  new one and ticks from within.
\<close>

definition stopper :: "(nat, nat, nat) callbacks" where
  "stopper cb h ctx s = Request (CallStop h) (\<lambda>r. Finish (Suc s))"

definition replacer :: "(nat, nat, nat) callbacks" where
  "replacer cb h ctx s =
     Request (CallDelete h) (\<lambda>r. if r = ReplyStatus SOFTWARE_TIMER_SUCCESS
       then Request (CallCreate SOFTWARE_TIMER_MODE_PERIODIC (Some cb) ctx (Some h)) (\<lambda>r'. Tick (Suc s) (\<lambda>st s'. Finish s'))
       else Finish s)"

definition reader :: "(nat, nat, nat) callbacks" where
  "reader cb h ctx s =
     Request (CallGetRemaining h (Some 0)) (\<lambda>r. Tick s (\<lambda>st s'. Finish (Suc s')))"

lemma reader_leaves: "leaves j reader"
  by (simp add: callbacks_all_def reader_def)

text \<open>Its callback initialises the pool anew over another storage, and ticks on.\<close>

definition resetter :: "(nat, nat, nat) callbacks" where
  "resetter cb h ctx s =
     Request (CallInit (Some [blank_slot, blank_slot, blank_slot]) 3) (\<lambda>r. Request (CallDelete h)
       (\<lambda>r'. Tick (Suc s) (\<lambda>st s'. Finish s')))"

theorem timer_pool_always_wellformed_witness:
  "\<exists>p p' s' tr. softwareTimerInit (Some no_pool) (Some [blank_slot, blank_slot]) 2 = Some (SOFTWARE_TIMER_SUCCESS, Some p) \<and>
    run_app resetter 3 (start_and_tick SOFTWARE_TIMER_MODE_ONE_SHOT 2 5) (p, 0, []) = Some (p', s', tr) \<and> pool_wf p' \<and>
    unat (capacity p') \<le> 3"
proof -
  have cap: "0 < unat (2 :: size_t)" "unat (2 :: size_t) \<le> length [blank_slot, blank_slot]" "at_most 3 2"
    by (simp_all add: at_most_def)
  have "callbacks_all (sound_call (at_most 3)) resetter"
    "script_all (sound_call (at_most 3)) (start_and_tick SOFTWARE_TIMER_MODE_ONE_SHOT 2 5)"
    by (simp_all add: callbacks_all_def resetter_def at_most_def)
  from timer_pool_always_wellformed [OF cap this, of no_pool 3 0]
  show ?thesis unfolding at_most_def by blast
qed

text \<open>A started timer in the terms of the slot functions.\<close>

lemma started:
  assumes "pool_wf p" "live p h" "n \<noteq> 0"
  defines "j \<equiv> unat (index h)"
  shows "softwareTimerStart (Some p) h n = Some (SOFTWARE_TIMER_SUCCESS, Some (upd p j (start_slot n)))"
    and "pool_wf (upd p j (start_slot n))" "tcb (upd p j (start_slot n)) j = start_slot n (tcb p j)"
    and "j < unat (capacity p)" "of_nat j = index h" "j < 256"
proof -
  show j: "j < unat (capacity p)"
    using liveD [OF assms(2)] by (simp add: j_def)
  show "softwareTimerStart (Some p) h n = Some (SOFTWARE_TIMER_SUCCESS, Some (upd p j (start_slot n)))"
    using assms by (simp add: start_eq)
  show "pool_wf (upd p j (start_slot n))"
    using assms j by (intro pool_wf_upd slot_wf_updates(1) slot_wfD) (simp_all add: live_def)
  show "tcb (upd p j (start_slot n)) j = start_slot n (tcb p j)"
    using tcb_upd [OF assms(1) j] by simp
  show "of_nat j = index h" "j < 256"
    using unsigned_less [of "index h", where ?'a = nat] by (simp_all add: j_def)
qed

lemma queries_slot:
  assumes "pool_wf p" "holds_slot (unat (index h)) (capacity p)" "tcb p (unat (index h)) = t"
    and "state t \<noteq> SOFTWARE_TIMER_STATE_UNUSED" "generation t = handleGeneration h"
  shows "softwareTimerGetState (Some p) h (Some st) = Some (SOFTWARE_TIMER_SUCCESS, Some (state t))"
    and "softwareTimerGetRemainingTicks (Some p) h (Some r) = Some (SOFTWARE_TIMER_SUCCESS, Some (remaining t))"
  using assms by (simp_all add: queries_eq live_def holds_slot_def)

lemma started_app:
  fixes cbs :: "('s, 'cb, 'ctx) callbacks"
  assumes wf: "pool_wf p" and lv: "live p h" and cap: "unat (capacity p) \<le> 256" and n: "n \<noteq> 0"
    and app: "leaves (unat (index h)) cbs" "script_spares (unat (index h)) main"
  defines "j \<equiv> unat (index h)" and "t \<equiv> start_slot n (tcb p (unat (index h)))"
  shows "\<exists>p1 p2 s2 tr. softwareTimerStart (Some p) h n = Some (SOFTWARE_TIMER_SUCCESS, Some p1) \<and>
    run_app cbs d main (p1, s, []) = Some (p2, s2, tr) \<and>
    firings j tr = expiries tick_slot (ticks_in tr) t \<and>
    pool_wf p2 \<and> holds_slot j (capacity p2) \<and> tcb p2 j = (tick_slot ^^ ticks_in tr) t"
proof -
  note s = started [OF wf lv n]
  have "state (tcb (upd p j (start_slot n)) j) \<noteq> SOFTWARE_TIMER_STATE_UNUSED"
    using s(3) by (simp add: j_def start_slot_def)
  from quiet_app [OF app s(2) _ this [unfolded j_def], where s = s and n = d] s cap
  show ?thesis
    by (auto simp: j_def t_def holds_slot_def)
qed

text \<open>C8: a one-shot timer with timeout \<open>n\<close> fires exactly once, on the \<open>n\<close>-th tick after its
  start and never again, in every application that makes no start, stop or delete on this
  timer and does not initialise the pool anew from then on, whatever it and its callbacks do otherwise, ticks that callbacks make
  included; before that tick it has \<open>n - k\<close> ticks left after \<open>k\<close> ticks, after it it is stopped
  with none.\<close>

theorem one_shot_fires_once:
  fixes cbs :: "('s, 'cb, 'ctx) callbacks"
  assumes "pool_wf p" "live p h" "unat (capacity p) \<le> 256" "n \<noteq> 0"
    and "mode (tcb p (unat (index h))) = SOFTWARE_TIMER_MODE_ONE_SHOT"
    and "leaves (unat (index h)) cbs" "script_spares (unat (index h)) main"
  shows "\<exists>p1 p2 s2 tr. softwareTimerStart (Some p) h n = Some (SOFTWARE_TIMER_SUCCESS, Some p1) \<and>
    run_app cbs d main (p1, s, []) = Some (p2, s2, tr) \<and>
    firings (unat (index h)) tr = (if ticks_in tr < unat n then 0 else 1) \<and>
    softwareTimerGetState (Some p2) h (Some st) = Some (SOFTWARE_TIMER_SUCCESS,
      Some (if ticks_in tr < unat n then SOFTWARE_TIMER_STATE_RUNNING else SOFTWARE_TIMER_STATE_STOPPED)) \<and>
    softwareTimerGetRemainingTicks (Some p2) h (Some r) = Some (SOFTWARE_TIMER_SUCCESS,
      Some (if ticks_in tr < unat n then n - of_nat (ticks_in tr) else 0))"
proof -
  let ?j = "unat (index h)"
  let ?t = "start_slot n (tcb p ?j)"
  obtain p1 p2 s2 tr where run: "softwareTimerStart (Some p) h n = Some (SOFTWARE_TIMER_SUCCESS, Some p1)"
    "run_app cbs d main (p1, s, []) = Some (p2, s2, tr)"
    "firings ?j tr = expiries tick_slot (ticks_in tr) ?t"
    "pool_wf p2" "holds_slot ?j (capacity p2)" "tcb p2 ?j = (tick_slot ^^ ticks_in tr) ?t"
    using started_app [OF assms(1-4,6,7), of d s] by blast
  have t: "state ?t = SOFTWARE_TIMER_STATE_RUNNING" "mode ?t = SOFTWARE_TIMER_MODE_ONE_SHOT" "0 < unat (remaining ?t)"
      "remaining ?t = n" "generation ?t = handleGeneration h"
    using assms(2,4,5) by (simp_all add: start_slot_def unat_gt_0 live_def)
  note shot = one_shot_ticks [OF t(1-3), of "ticks_in tr", unfolded t(4)]
  have "tcb p2 ?j = (if ticks_in tr < unat n then ?t\<lparr>remaining := n - of_nat (ticks_in tr)\<rparr>
      else ?t\<lparr>remaining := 0, state := SOFTWARE_TIMER_STATE_STOPPED\<rparr>)"
    using run(6) shot(1) by simp
  from queries_slot [OF run(4,5) this] run(1-3) shot(2) t show ?thesis
    by auto
qed

theorem one_shot_fires_once_witness:
  "\<exists>p1 p2 s2 tr. softwareTimerStart (Some (timer_example SOFTWARE_TIMER_MODE_ONE_SHOT 9)) handle_example 4 =
      Some (SOFTWARE_TIMER_SUCCESS, Some p1) \<and>
    run_app reader 1 (ticking 2 0) (p1, 0, []) = Some (p2, s2, tr) \<and> ticks_in tr = 5 \<and> firings 1 tr = 1"
proof -
  note ok = timer_example_ok [of SOFTWARE_TIMER_MODE_ONE_SHOT 9]
  have "case softwareTimerStart (Some (timer_example SOFTWARE_TIMER_MODE_ONE_SHOT 9)) handle_example 4 of
      Some (st, Some p1) \<Rightarrow> (case run_app reader 1 (ticking 2 0) (p1, 0, []) of
        Some (p2, s2, tr) \<Rightarrow> ticks_in tr = 5 | None \<Rightarrow> False) | _ \<Rightarrow> False"
    by code_simp
  moreover have "mode (tcb (timer_example SOFTWARE_TIMER_MODE_ONE_SHOT 9) 1) = SOFTWARE_TIMER_MODE_ONE_SHOT"
    using ok by (simp add: slot_example_def)
  ultimately show ?thesis
    using one_shot_fires_once [of "timer_example SOFTWARE_TIMER_MODE_ONE_SHOT 9" handle_example 4
      reader "ticking 2 0" 1 0 SOFTWARE_TIMER_STATE_UNUSED 0] ok reader_leaves [of 1]
    by fastforce
qed

text \<open>C10: a periodic timer with timeout \<open>n\<close> does not drift: after \<open>k\<close> ticks from its start it has
  fired exactly \<open>k div n\<close> times, is still running and has \<open>n - k mod n\<close> ticks left, under the
  same conditions.\<close>

theorem periodic_fires_on_period:
  fixes cbs :: "('s, 'cb, 'ctx) callbacks"
  assumes "pool_wf p" "live p h" "unat (capacity p) \<le> 256" "n \<noteq> 0"
    and "mode (tcb p (unat (index h))) = SOFTWARE_TIMER_MODE_PERIODIC"
    and "leaves (unat (index h)) cbs" "script_spares (unat (index h)) main"
  shows "\<exists>p1 p2 s2 tr. softwareTimerStart (Some p) h n = Some (SOFTWARE_TIMER_SUCCESS, Some p1) \<and>
    run_app cbs d main (p1, s, []) = Some (p2, s2, tr) \<and>
    firings (unat (index h)) tr = ticks_in tr div unat n \<and>
    softwareTimerGetState (Some p2) h (Some st) = Some (SOFTWARE_TIMER_SUCCESS, Some SOFTWARE_TIMER_STATE_RUNNING) \<and>
    softwareTimerGetRemainingTicks (Some p2) h (Some r) = Some (SOFTWARE_TIMER_SUCCESS,
      Some (n - of_nat (ticks_in tr mod unat n)))"
proof -
  let ?j = "unat (index h)"
  let ?t = "start_slot n (tcb p ?j)"
  obtain p1 p2 s2 tr where run: "softwareTimerStart (Some p) h n = Some (SOFTWARE_TIMER_SUCCESS, Some p1)"
    "run_app cbs d main (p1, s, []) = Some (p2, s2, tr)"
    "firings ?j tr = expiries tick_slot (ticks_in tr) ?t"
    "pool_wf p2" "holds_slot ?j (capacity p2)" "tcb p2 ?j = (tick_slot ^^ ticks_in tr) ?t"
    using started_app [OF assms(1-4,6,7), of d s] by blast
  have t: "state ?t = SOFTWARE_TIMER_STATE_RUNNING" "mode ?t = SOFTWARE_TIMER_MODE_PERIODIC"
      "timeout ?t = remaining ?t" "0 < unat (remaining ?t)"
      "remaining ?t = n" "generation ?t = handleGeneration h" "timeout ?t = n"
    using assms(2,4,5) by (simp_all add: start_slot_def unat_gt_0 live_def)
  note period = periodic_ticks [OF t(1-4), of "ticks_in tr", unfolded t(5,7)]
  have "tcb p2 ?j = ?t\<lparr>remaining := n - of_nat (ticks_in tr mod unat n)\<rparr>"
    using run(6) period(1) by simp
  from queries_slot [OF run(4,5) this] run(1-3) period(2) t show ?thesis
    by auto
qed

theorem periodic_fires_on_period_witness:
  "\<exists>p1 p2 s2 tr. softwareTimerStart (Some (timer_example SOFTWARE_TIMER_MODE_PERIODIC 9)) handle_example 2 =
      Some (SOFTWARE_TIMER_SUCCESS, Some p1) \<and>
    run_app reader 1 (ticking 3 0) (p1, 0, []) = Some (p2, s2, tr) \<and> ticks_in tr = 7 \<and> firings 1 tr = 3"
proof -
  note ok = timer_example_ok [of SOFTWARE_TIMER_MODE_PERIODIC 9]
  have "case softwareTimerStart (Some (timer_example SOFTWARE_TIMER_MODE_PERIODIC 9)) handle_example 2 of
      Some (st, Some p1) \<Rightarrow> (case run_app reader 1 (ticking 3 0) (p1, 0, []) of
        Some (p2, s2, tr) \<Rightarrow> ticks_in tr = 7 | None \<Rightarrow> False) | _ \<Rightarrow> False"
    by code_simp
  moreover have "mode (tcb (timer_example SOFTWARE_TIMER_MODE_PERIODIC 9) 1) = SOFTWARE_TIMER_MODE_PERIODIC"
    using ok by (simp add: slot_example_def)
  ultimately show ?thesis
    using periodic_fires_on_period [of "timer_example SOFTWARE_TIMER_MODE_PERIODIC 9" handle_example 2
      reader "ticking 3 0" 1 0 SOFTWARE_TIMER_STATE_UNUSED 0] ok reader_leaves [of 1]
    by fastforce
qed

text \<open>C29: one tick, as a whole.  The callbacks run in strictly ascending slot order, each slot at
  most once, whatever calls they make on the way, a new initialisation of the pool with at
  most \<open>n\<close> slots included; ticks that they make in turn run their callbacks in that order too,
  one within the other (\<open>tick_trace\<close>).  A timer that no callback starts, stops, deletes or wipes
  is taken one tick further by this tick and by each one within, and its callback runs once
  for each of its expiries on the way, whatever happens to the other timers; so if there is
  no tick within, exactly those of these timers run theirs that are due.\<close>

theorem tick_fires_in_slot_order:
  fixes cbs :: "('s, 'cb, 'ctx) callbacks"
  assumes "pool_wf p" "at_most n (capacity p)" "callbacks_all (sound_call (at_most n)) cbs"
  shows "\<exists>p' s' new. softwareTimerTick (script_exec cbs d) (Some p, s, tr) =
      Some (SOFTWARE_TIMER_SUCCESS, Some p', s', tr @ new) \<and>
    tick_trace n 0 new \<and>
    (ticks_in new = 0 \<longrightarrow> sorted_wrt (<) (fired_slots new) \<and> (\<forall>k\<in>set (fired_slots new). k < n)) \<and>
    (\<forall>j<unat (capacity p). state (tcb p j) \<noteq> SOFTWARE_TIMER_STATE_UNUSED \<and> leaves j cbs \<longrightarrow>
       tcb p' j = (tick_slot ^^ Suc (ticks_in new)) (tcb p j) \<and>
       firings j new = expiries tick_slot (Suc (ticks_in new)) (tcb p j) \<and>
       (ticks_in new = 0 \<longrightarrow> (j \<in> set (fired_slots new) \<longleftrightarrow> expires (tcb p j))))"
proof -
  obtain p' s' new where tick: "softwareTimerTick (script_exec cbs d) (Some p, s, tr) =
      Some (SOFTWARE_TIMER_SUCCESS, Some p', s', tr @ new)" "tick_trace n 0 new"
    using assms(3,1,2) by (rule tick_app_trace)
  have alone: "tcb p' j = (tick_slot ^^ Suc (ticks_in new)) (tcb p j) \<and>
      firings j new = expiries tick_slot (Suc (ticks_in new)) (tcb p j) \<and>
      (ticks_in new = 0 \<longrightarrow> (j \<in> set (fired_slots new) \<longleftrightarrow> expires (tcb p j)))"
    if j: "j < unat (capacity p)" "state (tcb p j) \<noteq> SOFTWARE_TIMER_STATE_UNUSED" "leaves j cbs" for j
  proof -
    have "holds_slot j (capacity p)" "j < 256"
      using j(1) assms(2) by (simp_all add: holds_slot_def at_most_def)
    with tick_left_alone [OF assms(1) this(1) j(2,3) tick(1)] firings_fired [of j new] show ?thesis
      by (auto split: if_splits)
  qed
  show ?thesis
    by (intro exI [of _ p'] exI [of _ s'] exI [of _ new]) (use tick trace_order(1) [OF tick(2)] alone in blast)
qed

theorem tick_fires_in_slot_order_witness:
  "\<exists>p' s' new. softwareTimerTick (script_exec resetter 1) (Some (timer_example SOFTWARE_TIMER_MODE_PERIODIC 1), 0, []) =
      Some (SOFTWARE_TIMER_SUCCESS, Some p', s', new) \<and> tick_trace 3 0 new \<and> ticks_in new = 1"
proof -
  let ?p = "timer_example SOFTWARE_TIMER_MODE_PERIODIC 1"
  have "case softwareTimerTick (script_exec resetter 1) (Some ?p, 0, []) of
      Some (st, Some p', s', new) \<Rightarrow> ticks_in new = 1 | _ \<Rightarrow> False"
    by code_simp
  moreover have "callbacks_all (sound_call (at_most 3)) resetter" "at_most 3 (capacity ?p)"
    by (simp_all add: callbacks_all_def resetter_def at_most_def timer_example_def)
  ultimately show ?thesis
    using tick_fires_in_slot_order [of ?p 3 resetter 1 0 "[]"] timer_example_ok [of SOFTWARE_TIMER_MODE_PERIODIC 1]
    by (fastforce simp del: script_exec.simps One_nat_def)
qed

text \<open>A callback whose first call is always the stop of its own timer (\<open>stops_itself\<close>): the timer
  that is due fires on the first tick, and from then on, over any number of ticks, it is
  stopped with no ticks left and fires no more.  Stops made at any other time are the
  subject of \<open>TimerLifecycle\<close>.\<close>

lemma self_stop_at_once:
  fixes cbs :: "('s, 'cb, 'ctx) callbacks"
  assumes "pool_wf p" "live p h" "unat (capacity p) \<le> 256" "expires (tcb p (unat (index h)))"
    and "stops_itself (unat (index h)) cbs" "script_spares (unat (index h)) main"
  shows "\<exists>p2 s2 tr. run_app cbs d main (p, s, []) = Some (p2, s2, tr) \<and>
    firings (unat (index h)) tr = (if ticks_in tr = 0 then 0 else 1) \<and>
    (ticks_in tr \<noteq> 0 \<longrightarrow>
       softwareTimerGetState (Some p2) h (Some st) = Some (SOFTWARE_TIMER_SUCCESS, Some SOFTWARE_TIMER_STATE_STOPPED) \<and>
       softwareTimerGetRemainingTicks (Some p2) h (Some r) = Some (SOFTWARE_TIMER_SUCCESS, Some 0))"
proof -
  let ?j = "unat (index h)"
  let ?t = "tcb p ?j"
  have used: "state ?t \<noteq> SOFTWARE_TIMER_STATE_UNUSED"
    using assms(2) by (simp add: live_def)
  obtain p2 s2 tr where run: "run_app cbs d main (p, s, []) = Some (p2, s2, tr)"
    "pool_wf p2" "holds_slot ?j (capacity p2)" "tcb p2 ?j = (own_step stop_slot ^^ ticks_in tr) ?t"
    "firings ?j tr = expiries (own_step stop_slot) (ticks_in tr) ?t"
    using self_stop_app [OF assms(5,6,1) _ used, of d s] liveD [OF assms(2)] assms(3) by (auto simp: holds_slot_def)
  have all: "(own_step stop_slot ^^ Suc i) ?t = stop_slot (tick_slot ?t) \<and> expiries (own_step stop_slot) (Suc i) ?t = 1" for i
  proof (induction i)
    case 0
    then show ?case using assms(4) by (simp add: own_step_def)
  next
    case (Suc i)
    then show ?case
      by (simp only: funpow.simps(2) [of "Suc i"] comp_apply expiries.simps(2) [of _ "Suc i"] stop_slot_stays) simp
  qed
  have "generation (stop_slot (tick_slot ?t)) = handleGeneration h"
    using assms(2) by (simp add: stop_slot_def live_def)
  moreover obtain i where "ticks_in tr \<noteq> 0 \<longrightarrow> ticks_in tr = Suc i"
    by (cases "ticks_in tr") auto
  ultimately show ?thesis
    using queries_slot [OF run(2,3), of "stop_slot (tick_slot ?t)"] run all [of i]
    by (cases "ticks_in tr = 0") (auto simp: stop_slot_def)
qed

text \<open>C30: create takes the first unused slot and nothing else, or reports a full pool and changes
  nothing exactly when there is none; in a pool of at most 256 slots the handle it returns is
  live, names a stopped timer with no ticks left, and every other slot is as it was.\<close>

theorem create_takes_first_free:
  assumes "pool_wf p" "unat (capacity p) \<le> 256"
    and "md = SOFTWARE_TIMER_MODE_ONE_SHOT \<or> md = SOFTWARE_TIMER_MODE_PERIODIC"
  shows "if \<forall>k<unat (capacity p). state (tcb p k) \<noteq> SOFTWARE_TIMER_STATE_UNUSED
    then softwareTimerCreate (Some p) md (Some cb) ctx (Some h0) = Some (SOFTWARE_TIMER_ERROR_POOL_FULL, Some p, Some h0)
    else \<exists>p' h. softwareTimerCreate (Some p) md (Some cb) ctx (Some h0) = Some (SOFTWARE_TIMER_SUCCESS, Some p', Some h) \<and>
      pool_wf p' \<and> live p' h \<and> \<not> live p h \<and>
      (\<forall>k<unat (index h). state (tcb p k) \<noteq> SOFTWARE_TIMER_STATE_UNUSED) \<and>
      (\<forall>k. k \<noteq> unat (index h) \<longrightarrow> tcb p' k = tcb p k) \<and>
      mode (tcb p' (unat (index h))) = md \<and> callback (tcb p' (unat (index h))) = Some cb \<and>
      softwareTimerGetState (Some p') h (Some st) = Some (SOFTWARE_TIMER_SUCCESS, Some SOFTWARE_TIMER_STATE_STOPPED) \<and>
      softwareTimerGetRemainingTicks (Some p') h (Some r) = Some (SOFTWARE_TIMER_SUCCESS, Some 0)"
proof (cases "first_free p")
  case None
  with create_eq [OF assms(1,3), of cb ctx h0] first_free_None [of p] show ?thesis by simp
next
  case (Some i)
  note free = first_free_Some [OF Some]
  let ?h = "h0\<lparr>index := of_nat i, handleGeneration := generation (tcb p i)\<rparr>"
  let ?p = "upd p i (create_slot md (Some cb) ctx)"
  have i: "unat (index ?h) = i"
    using free(1) assms(2) by (simp add: unat_of_nat take_bit_nat_eq_self)
  have wf': "pool_wf ?p"
    using assms(1) free(1) slot_wf_updates(4) [OF assms(3)] by (rule pool_wf_upd)
  note t = tcb_upd [OF assms(1) free(1)]
  have lv: "live ?p ?h" "\<not> live p ?h"
    using free(1,2) i t by (simp_all add: live_def create_slot_def)
  have ex: "softwareTimerCreate (Some p) md (Some cb) ctx (Some h0) = Some (SOFTWARE_TIMER_SUCCESS, Some ?p, Some ?h)"
    using create_eq [OF assms(1,3), of cb ctx h0] Some by simp
  have "\<not> (\<forall>k<unat (capacity p). state (tcb p k) \<noteq> SOFTWARE_TIMER_STATE_UNUSED)"
    using free(1,2) by blast
  moreover have "tcb ?p k = tcb p k" if "k \<noteq> i" for k
    using that t by simp
  ultimately show ?thesis
    using ex wf' lv free(3) i t queries_eq [OF wf', of ?h] by (auto simp: create_slot_def)
qed

theorem create_takes_first_free_witness:
  "\<exists>p' h. softwareTimerCreate (Some (timer_example SOFTWARE_TIMER_MODE_ONE_SHOT 5)) SOFTWARE_TIMER_MODE_PERIODIC (Some 4) None
      (Some handle_example) = Some (SOFTWARE_TIMER_SUCCESS, Some p', Some h) \<and> live p' h"
proof -
  note ok = timer_example_ok [of SOFTWARE_TIMER_MODE_ONE_SHOT 5]
  have "\<not> (\<forall>k<3. state (tcb (timer_example SOFTWARE_TIMER_MODE_ONE_SHOT 5) k) \<noteq> SOFTWARE_TIMER_STATE_UNUSED)"
    by (simp add: all_below_3 timer_example_def tcb_def blank_slot_def)
  with create_takes_first_free [of "timer_example SOFTWARE_TIMER_MODE_ONE_SHOT 5" SOFTWARE_TIMER_MODE_PERIODIC 4 None
      handle_example SOFTWARE_TIMER_STATE_UNUSED 0] ok
  show ?thesis by auto
qed

text \<open>C28: start and stop, on any timer in any state.  Start reports an invalid handle, then a
  zero timeout, and changes nothing; else it (re)arms the timer, a running one too, with
  exactly its timeout to go.  Stop reports an invalid handle or stops the timer, and stopping
  it again changes nothing.  Neither touches another slot or makes a handle invalid.\<close>

theorem start_stop_outcome:
  assumes "pool_wf p"
  shows "\<exists>p1 p2. softwareTimerStart (Some p) h n =
      Some (if \<not> live p h then SOFTWARE_TIMER_ERROR_INVALID_HANDLE
            else if n = 0 then SOFTWARE_TIMER_ERROR_INVALID_TIMEOUT else SOFTWARE_TIMER_SUCCESS, Some p1) \<and>
    (if live p h \<and> n \<noteq> 0
     then softwareTimerGetState (Some p1) h (Some st) = Some (SOFTWARE_TIMER_SUCCESS, Some SOFTWARE_TIMER_STATE_RUNNING) \<and>
       softwareTimerGetRemainingTicks (Some p1) h (Some r) = Some (SOFTWARE_TIMER_SUCCESS, Some n) \<and>
       (\<forall>k. k \<noteq> unat (index h) \<longrightarrow> tcb p1 k = tcb p k)
     else p1 = p) \<and>
    softwareTimerStop (Some p) h =
      Some (if live p h then SOFTWARE_TIMER_SUCCESS else SOFTWARE_TIMER_ERROR_INVALID_HANDLE, Some p2) \<and>
    (if live p h
     then softwareTimerGetState (Some p2) h (Some st) = Some (SOFTWARE_TIMER_SUCCESS, Some SOFTWARE_TIMER_STATE_STOPPED) \<and>
       softwareTimerGetRemainingTicks (Some p2) h (Some r) = Some (SOFTWARE_TIMER_SUCCESS, Some 0) \<and>
       softwareTimerStop (Some p2) h = Some (SOFTWARE_TIMER_SUCCESS, Some p2) \<and>
       (\<forall>k. k \<noteq> unat (index h) \<longrightarrow> tcb p2 k = tcb p k)
     else p2 = p) \<and>
    pool_wf p1 \<and> pool_wf p2 \<and> (\<forall>g. live p1 g = live p g \<and> live p2 g = live p g)"
proof (cases "live p h")
  case False
  with assms show ?thesis by (auto simp: start_eq stop_eq)
next
  case True
  let ?j = "unat (index h)"
  let ?p1 = "if n = 0 then p else upd p ?j (start_slot n)" and ?p2 = "upd p ?j stop_slot"
  note j = liveD [OF True] and at = tcb_upd [OF assms liveD [OF True]]
  have used: "state (tcb p ?j) \<noteq> SOFTWARE_TIMER_STATE_UNUSED"
    using True by (simp add: live_def)
  have wf: "pool_wf ?p1" "pool_wf ?p2"
    using assms j used by (auto intro: pool_wf_upd slot_wf_updates slot_wfD)
  have live: "live ?p1 g = live p g" "live ?p2 g = live p g" for g
    using used at by (auto simp: live_def start_slot_def stop_slot_def)
  have again: "upd ?p2 ?j stop_slot = ?p2"
    using wf(2) j by (intro upd_same) (simp_all add: at stop_slot_def)
  have started: "softwareTimerGetState (Some ?p1) h (Some st) = Some (SOFTWARE_TIMER_SUCCESS, Some SOFTWARE_TIMER_STATE_RUNNING)"
      "softwareTimerGetRemainingTicks (Some ?p1) h (Some r) = Some (SOFTWARE_TIMER_SUCCESS, Some n)" if "n \<noteq> 0"
    unfolding queries_eq [OF wf(1)] live using that True by (simp_all add: at start_slot_def)
  have stopped: "softwareTimerGetState (Some ?p2) h (Some st) = Some (SOFTWARE_TIMER_SUCCESS, Some SOFTWARE_TIMER_STATE_STOPPED)"
      "softwareTimerGetRemainingTicks (Some ?p2) h (Some r) = Some (SOFTWARE_TIMER_SUCCESS, Some 0)"
    using True live(2) by (simp_all add: queries_eq [OF wf(2)] at stop_slot_def)
  show ?thesis
    by (rule exI [of _ ?p1], rule exI [of _ ?p2])
      (use True wf live started stopped again in
        \<open>simp add: start_eq [OF assms] stop_eq [OF assms] stop_eq [OF wf(2)] at\<close>)
qed

theorem start_stop_outcome_witness:
  "\<exists>p1. softwareTimerStart (Some (timer_example SOFTWARE_TIMER_MODE_ONE_SHOT 5)) handle_example 9 =
      Some (SOFTWARE_TIMER_SUCCESS, Some p1) \<and>
    softwareTimerGetRemainingTicks (Some p1) handle_example (Some 0) = Some (SOFTWARE_TIMER_SUCCESS, Some 9)"
  using start_stop_outcome [of "timer_example SOFTWARE_TIMER_MODE_ONE_SHOT 5" handle_example 9 SOFTWARE_TIMER_STATE_UNUSED 0]
    timer_example_ok [of SOFTWARE_TIMER_MODE_ONE_SHOT 5] by auto

subsection \<open>Two limits of the design\<close>

text \<open>
  The index of a handle is eight bits wide, but \<open>softwareTimerInit\<close> accepts larger pools: a
  timer created in a slot from 256 on is given the handle of another slot.
\<close>

lemma create_aliases_above_256:
  assumes "pool_wf p" "first_free p = Some i" "256 \<le> i"
  shows "\<exists>p' h. softwareTimerCreate (Some p) SOFTWARE_TIMER_MODE_ONE_SHOT (Some cb) ctx (Some h0) =
      Some (SOFTWARE_TIMER_SUCCESS, Some p', Some h) \<and> unat (index h) \<noteq> i"
proof -
  have "unat (of_nat i :: u8) < 256"
    using unsigned_less [of "of_nat i :: u8", where ?'a = nat] by simp
  with create_eq [OF assms(1), of SOFTWARE_TIMER_MODE_ONE_SHOT cb ctx h0] assms(2,3) show ?thesis
    by auto
qed

text \<open>
  A timer started from the callback of a lower slot is counted down in the tick that started
  it: with timeout 3 it has 2 ticks left when that tick ends.
\<close>

definition starter :: "(nat, nat, nat) callbacks" where
  "starter cb h ctx s = Request (CallStart handle_example 3) (\<lambda>r. Finish s)"

lemma started_in_callback_loses_a_tick:
  "\<exists>p' tr. softwareTimerTick (script_exec starter 0)
      (Some (timer_example SOFTWARE_TIMER_MODE_ONE_SHOT 9), 0, []) = Some (SOFTWARE_TIMER_SUCCESS, Some p', 0, tr) \<and>
    softwareTimerGetRemainingTicks (Some p') handle_example (Some 0) = Some (SOFTWARE_TIMER_SUCCESS, Some 2)"
proof -
  have "case softwareTimerTick (script_exec starter 0) (Some (timer_example SOFTWARE_TIMER_MODE_ONE_SHOT 9), 0, []) of
      Some (SOFTWARE_TIMER_SUCCESS, Some p', s, tr) \<Rightarrow> s = 0 \<and>
        softwareTimerGetRemainingTicks (Some p') handle_example (Some 0) = Some (SOFTWARE_TIMER_SUCCESS, Some 2)
    | _ \<Rightarrow> False"
    by code_simp
  then show ?thesis
    by (auto split: option.splits prod.splits SoftwareTimerStatus_t.splits)
qed

end
