(* ===== verification/TimerLifecycle.thy ===== *)
theory TimerLifecycle
  imports SwTimerApi
begin

text \<open>
  The life of one timer slot as a labelled step relation (the three states of
  \<open>docs/softwareTimer-design.md\<close>, section 4): which events a slot can take in which state, and what they
  make of it.  The relation says nothing of pools, handles, scans or callbacks; the theorems
  show that every run of an application, callbacks and their calls included, is for each slot
  a path in it, whose events are those that the trace records for that slot.  What holds of
  all paths then holds of the module.
\<close>

subsection \<open>The slot's state machine\<close>

datatype slot_event = Created | Started u32 | Stopped | Deleted | Counted | Expired | Initialised

inductive slot_step ::
  "('cb, 'ctx) TimerControlBlock_t \<Rightarrow> slot_event \<Rightarrow> ('cb, 'ctx) TimerControlBlock_t \<Rightarrow> bool" where
  step_create: "state t = SOFTWARE_TIMER_STATE_UNUSED \<Longrightarrow>
    md = SOFTWARE_TIMER_MODE_ONE_SHOT \<or> md = SOFTWARE_TIMER_MODE_PERIODIC \<Longrightarrow>
    slot_step t Created (create_slot md (Some cb) ctx t)"
| step_start: "state t \<noteq> SOFTWARE_TIMER_STATE_UNUSED \<Longrightarrow> n \<noteq> 0 \<Longrightarrow> slot_step t (Started n) (start_slot n t)"
| step_stop: "state t \<noteq> SOFTWARE_TIMER_STATE_UNUSED \<Longrightarrow> slot_step t Stopped (stop_slot t)"
| step_delete: "state t \<noteq> SOFTWARE_TIMER_STATE_UNUSED \<Longrightarrow> slot_step t Deleted (delete_slot t)"
| step_count: "state t = SOFTWARE_TIMER_STATE_RUNNING \<Longrightarrow> remaining t \<noteq> 1 \<Longrightarrow>
    slot_step t Counted (t\<lparr>remaining := remaining t - 1\<rparr>)"
| step_reload: "state t = SOFTWARE_TIMER_STATE_RUNNING \<Longrightarrow> remaining t = 1 \<Longrightarrow>
    mode t = SOFTWARE_TIMER_MODE_PERIODIC \<Longrightarrow> slot_step t Expired (t\<lparr>remaining := timeout t\<rparr>)"
| step_finish: "state t = SOFTWARE_TIMER_STATE_RUNNING \<Longrightarrow> remaining t = 1 \<Longrightarrow>
    mode t \<noteq> SOFTWARE_TIMER_MODE_PERIODIC \<Longrightarrow>
    slot_step t Expired (t\<lparr>remaining := 0, state := SOFTWARE_TIMER_STATE_STOPPED\<rparr>)"
| step_init: "slot_step t Initialised blank_slot"

inductive_cases slot_stepE [elim]:
  "slot_step t Created t'" "slot_step t (Started n) t'" "slot_step t Stopped t'"
  "slot_step t Deleted t'" "slot_step t Counted t'" "slot_step t Expired t'" "slot_step t Initialised t'"

inductive slot_path ::
  "('cb, 'ctx) TimerControlBlock_t \<Rightarrow> slot_event list \<Rightarrow> ('cb, 'ctx) TimerControlBlock_t \<Rightarrow> bool" where
  path_refl: "slot_path t [] t"
| path_step: "slot_step t e u \<Longrightarrow> slot_path u es v \<Longrightarrow> slot_path t (e # es) v"

declare path_refl [simp, intro]

inductive_simps slot_path_simps [simp]: "slot_path t [] v" "slot_path t (e # es) v"

lemma slot_path_append: "slot_path t (es @ fs) v \<longleftrightarrow> (\<exists>u. slot_path t es u \<and> slot_path u fs v)"
  by (induction es arbitrary: t) auto

subsection \<open>What holds of every path\<close>

lemma slot_step_wf: "slot_step t e u \<Longrightarrow> slot_wf t \<Longrightarrow> slot_wf u"
proof (induction rule: slot_step.induct)
  case (step_count t)
  with slot_wf_tick [of t] show ?case by (simp add: tick_slot_def)
next
  case (step_reload t)
  with slot_wf_tick [of t] show ?case by (simp add: tick_slot_def)
next
  case (step_finish t)
  with slot_wf_tick [of t] show ?case by (simp add: tick_slot_def)
qed (auto intro: slot_wf_updates)

lemma slot_path_wf: "slot_path t es u \<Longrightarrow> slot_wf t \<Longrightarrow> slot_wf u"
  by (induction rule: slot_path.induct) (auto intro: slot_step_wf)

text \<open>The events since the slot was last initialised.\<close>

definition since_init :: "slot_event list \<Rightarrow> slot_event list" where
  "since_init es = rev (takeWhile (\<lambda>e. e \<noteq> Initialised) (rev es))"

lemma since_init_simps [simp]:
  "since_init [] = []"
  "since_init (es @ [e]) = (if e = Initialised then [] else since_init es @ [e])"
  by (simp_all add: since_init_def)

lemma since_init_all: "Initialised \<notin> set es \<Longrightarrow> since_init es = es"
  by (induction es rule: rev_induct) auto

text \<open>A generation counts the deletions since then, and nothing else touches it.\<close>

lemma slot_path_generation:
  "slot_path t es u \<Longrightarrow> generation u =
     (if Initialised \<in> set es then 0 else generation t) + of_nat (count_list (since_init es) Deleted)"
proof (induction es arbitrary: u rule: rev_induct)
  case (snoc e es)
  then obtain w where "slot_path t es w" "slot_step w e u"
    by (auto simp: slot_path_append)
  with snoc.IH [of w] show ?case
    by (auto elim!: slot_step.cases simp: slot_defs blank_slot_def)
qed simp

text \<open>A slot that runs was started, and neither stopped, deleted nor initialised since.\<close>

definition running_on :: "slot_event list \<Rightarrow> bool" where
  "running_on es \<longleftrightarrow> (\<exists>a n b. es = a @ Started n # b \<and> set b \<inter> {Stopped, Deleted, Initialised} = {})"

lemma slot_path_running:
  assumes "slot_path t es u" "state t \<noteq> SOFTWARE_TIMER_STATE_RUNNING" "state u = SOFTWARE_TIMER_STATE_RUNNING"
  shows "running_on es"
  using assms
proof (induction es arbitrary: u rule: rev_induct)
  case Nil
  then show ?case by simp
next
  case (snoc e es)
  from snoc.prems(1) obtain w where w: "slot_path t es w" "slot_step w e u"
    by (auto simp: slot_path_append)
  show ?case
  proof (cases "\<exists>n. e = Started n")
    case True
    then obtain n where "es @ [e] = es @ Started n # []" by blast
    then show ?thesis unfolding running_on_def by fastforce
  next
    case False
    with w(2) snoc.prems(3) have "state w = SOFTWARE_TIMER_STATE_RUNNING" "e \<notin> {Stopped, Deleted, Initialised}"
      by (auto elim!: slot_step.cases simp: slot_defs blank_slot_def)
    moreover from snoc.IH [OF w(1) snoc.prems(2) this(1)] obtain a n b where
      "es = a @ Started n # b" "set b \<inter> {Stopped, Deleted, Initialised} = {}"
      unfolding running_on_def by blast
    ultimately have "es @ [e] = a @ Started n # (b @ [e])"
      "set (b @ [e]) \<inter> {Stopped, Deleted, Initialised} = {}" by simp_all
    then show ?thesis unfolding running_on_def by blast
  qed
qed

lemma slot_path_expiry:
  assumes "slot_path t (pre @ Expired # post) u" "state t \<noteq> SOFTWARE_TIMER_STATE_RUNNING"
  shows "running_on pre"
  using assms slot_path_running [of t pre] by (auto simp: slot_path_append)

text \<open>From a start, or from the expiry of a periodic timer, exactly its timeout of counts and
  an expiry, with the expiry counted as the last one.\<close>

lemma slot_path_counts:
  assumes "slot_path t (replicate k Counted @ [Expired]) u" "slot_wf t"
  shows "unat (remaining t) = k + 1"
  using assms
proof (induction k arbitrary: t)
  case 0
  then show ?case by auto
next
  case (Suc k)
  then obtain v where v: "slot_step t Counted v" "slot_path v (replicate k Counted @ [Expired]) u" by auto
  with Suc.IH [OF v(2) slot_step_wf [OF v(1) Suc.prems(2)]]
  have "unat (remaining t - 1) = k + 1" by auto
  moreover have "0 < unat (remaining t)"
    using v(1) Suc.prems(2) by (auto simp: slot_wf_def word_less_nat_alt)
  ultimately show ?case
    by (subst (asm) unat_sub_noof) auto
qed

text \<open>A slot that does not run expires only after it is started.\<close>

lemma slot_path_silent:
  assumes "slot_path t es u" "state t \<noteq> SOFTWARE_TIMER_STATE_RUNNING" "\<forall>n. Started n \<notin> set es"
  shows "Expired \<notin> set es" "state u \<noteq> SOFTWARE_TIMER_STATE_RUNNING"
    and "state t = SOFTWARE_TIMER_STATE_STOPPED \<Longrightarrow> set es \<inter> {Deleted, Initialised} = {} \<Longrightarrow>
      state u = SOFTWARE_TIMER_STATE_STOPPED"
proof -
  have step: "e \<noteq> Expired \<and> state v \<noteq> SOFTWARE_TIMER_STATE_RUNNING \<and>
      (state t = SOFTWARE_TIMER_STATE_STOPPED \<longrightarrow> e \<notin> {Deleted, Initialised} \<longrightarrow> state v = SOFTWARE_TIMER_STATE_STOPPED)"
    if "slot_step t e v" "state t \<noteq> SOFTWARE_TIMER_STATE_RUNNING" "\<forall>n. e \<noteq> Started n"
    for t v :: "('cb, 'ctx) TimerControlBlock_t" and e
    using that by (auto elim!: slot_step.cases simp: slot_defs blank_slot_def)
  have "Expired \<notin> set es \<and> state u \<noteq> SOFTWARE_TIMER_STATE_RUNNING \<and>
    (state t = SOFTWARE_TIMER_STATE_STOPPED \<longrightarrow> set es \<inter> {Deleted, Initialised} = {} \<longrightarrow> state u = SOFTWARE_TIMER_STATE_STOPPED)"
    using assms
  proof (induction rule: slot_path.induct)
    case (path_step t e v es u)
    from step [OF path_step.hyps(1)] path_step show ?case by auto
  qed simp
  then show "Expired \<notin> set es" "state u \<noteq> SOFTWARE_TIMER_STATE_RUNNING"
    and "state t = SOFTWARE_TIMER_STATE_STOPPED \<Longrightarrow> set es \<inter> {Deleted, Initialised} = {} \<Longrightarrow>
      state u = SOFTWARE_TIMER_STATE_STOPPED"
    by blast+
qed

subsection \<open>Runs of the module are paths\<close>

text \<open>The events that a trace records for slot \<open>k\<close>: the callbacks run for it, and the calls on it that succeeded.\<close>

fun call_events :: "nat \<Rightarrow> ('cb, 'ctx) timer_call \<Rightarrow> timer_reply \<Rightarrow> slot_event list" where
  "call_events k (CallCreate md cb ctx out) r =
     (case r of
        ReplyHandle st (Some h) \<Rightarrow> if st = SOFTWARE_TIMER_SUCCESS \<and> unat (index h) = k then [Created] else []
      | _ \<Rightarrow> [])"
| "call_events k (CallStart h n) r =
     (if r = ReplyStatus SOFTWARE_TIMER_SUCCESS \<and> unat (index h) = k then [Started n] else [])"
| "call_events k (CallStop h) r =
     (if r = ReplyStatus SOFTWARE_TIMER_SUCCESS \<and> unat (index h) = k then [Stopped] else [])"
| "call_events k (CallDelete h) r =
     (if r = ReplyStatus SOFTWARE_TIMER_SUCCESS \<and> unat (index h) = k then [Deleted] else [])"
| "call_events k (CallInit stor cap) r = (if r = ReplyStatus SOFTWARE_TIMER_SUCCESS then [Initialised] else [])"
| "call_events k c r = []"

fun slot_events :: "nat \<Rightarrow> ('cb, 'ctx) timer_event list \<Rightarrow> slot_event list" where
  "slot_events k [] = []"
| "slot_events k (Ticked # tr) = slot_events k tr"
| "slot_events k (Fired h ctx # tr) = (if unat (index h) = k then [Expired] else []) @ slot_events k tr"
| "slot_events k (Called c r # tr) = call_events k c r @ slot_events k tr"

lemma slot_events_append [simp]: "slot_events k (tr @ tr') = slot_events k tr @ slot_events k tr'"
  by (induction k tr rule: slot_events.induct) simp_all

text \<open>The events of a path but for its counts, which the trace does not show.\<close>

definition visible :: "slot_event list \<Rightarrow> slot_event list" where
  "visible es = filter (\<lambda>e. e \<noteq> Counted) es"

lemma visible_simps [simp]:
  "visible [] = []" "visible (es @ fs) = visible es @ visible fs"
  "visible (e # es) = (if e = Counted then [] else [e]) @ visible es"
  by (simp_all add: visible_def)

lemma count_visible [simp]: "e \<noteq> Counted \<Longrightarrow> count_list (visible es) e = count_list es e"
  by (induction es) auto

lemma visible_init [simp]:
  "Initialised \<in> set (visible es) \<longleftrightarrow> Initialised \<in> set es" "since_init (visible es) = visible (since_init es)"
  by (auto simp: visible_def) (induction es rule: rev_induct; simp)

lemma visible_split:
  "visible es = a @ e # b \<Longrightarrow> \<exists>as bs. es = as @ e # bs \<and> visible bs = b"
proof (induction es arbitrary: a)
  case (Cons f es)
  show ?case
  proof (cases "f = Counted \<or> a \<noteq> []")
    case True
    with Cons.prems obtain a' where "visible es = a' @ e # b"
      by (cases a) (auto split: if_splits)
    from Cons.IH [OF this] obtain as bs where "f # es = (f # as) @ e # bs" "visible bs = b" by auto
    then show ?thesis by blast
  next
    case False
    with Cons.prems have "f # es = [] @ e # es" "visible es = b" by simp_all
    then show ?thesis by blast
  qed
qed simp

lemma set_visible: "e \<noteq> Counted \<Longrightarrow> e \<in> set (visible es) \<longleftrightarrow> e \<in> set es"
  by (auto simp: visible_def)

lemma slot_events_fired: "Fired h ctx \<in> set tr \<Longrightarrow> unat (index h) = k \<Longrightarrow> Expired \<in> set (slot_events k tr)"
  by (induction k tr rule: slot_events.induct) auto

text \<open>From one point of a run to another, slot \<open>k\<close> took a path with the events seen in between.\<close>

definition took_path ::
  "('w \<Rightarrow> slot_event list) \<Rightarrow> nat \<Rightarrow> ('cb, 'ctx) SoftwareTimerPool_t \<times> 'w \<Rightarrow> ('cb, 'ctx) SoftwareTimerPool_t \<times> 'w \<Rightarrow> bool" where
  "took_path seen k pw qv \<longleftrightarrow>
     (\<exists>es. slot_path (tcb (fst pw) k) es (tcb (fst qv) k) \<and> seen (snd qv) = seen (snd pw) @ visible es)"

lemma took_path_refl [simp]: "took_path seen k pw pw"
  by (auto simp: took_path_def)

lemma took_path_trans: "took_path seen k a b \<Longrightarrow> took_path seen k b c \<Longrightarrow> took_path seen k a c"
  unfolding took_path_def
proof (elim exE conjE)
  fix es fs
  assume "slot_path (tcb (fst a) k) es (tcb (fst b) k)" "seen (snd b) = seen (snd a) @ visible es"
    "slot_path (tcb (fst b) k) fs (tcb (fst c) k)" "seen (snd c) = seen (snd b) @ visible fs"
  then show "\<exists>es. slot_path (tcb (fst a) k) es (tcb (fst c) k) \<and> seen (snd c) = seen (snd a) @ visible es"
    by (intro exI [of _ "es @ fs"]) (auto simp: slot_path_append)
qed

lemma upd_path:
  assumes "pool_wf p" "i < unat (capacity p)" "slot_step (tcb p i) e (f (tcb p i))"
  shows "\<exists>es. slot_path (tcb p k) es (tcb (upd p i f) k) \<and> visible es = (if i = k then visible [e] else [])"
proof (cases "k = i")
  case True
  with assms show ?thesis
    by (auto simp: tcb_upd intro!: exI [of _ "[e]"])
next
  case False
  with assms show ?thesis
    by (auto simp: tcb_upd intro!: exI [of _ "[]"])
qed

lemma no_path: "q = p \<Longrightarrow> evs = [] \<Longrightarrow> \<exists>es. slot_path (tcb p k) es (tcb q k) \<and> visible es = evs"
  by (auto intro!: exI [of _ "[]"])

lemma call_path:
  assumes wf: "pool_wf p" and cap: "holds_slot k (capacity p)" and sound: "sound_call (holds_slot k) c"
  shows "\<exists>es. slot_path (tcb p k) es (tcb (call_effect c p) k) \<and> visible es = call_events k c (call_reply c p)"
proof (cases c)
  case (CallCreate md cb ctx out)
  show ?thesis
  proof (cases "cb = None \<or> out = None \<or> \<not> mode_ok md \<or> first_free p = None")
    case True
    with CallCreate show ?thesis
      by (intro no_path) (auto split: option.splits)
  next
    case False
    then obtain f h i where fi: "cb = Some f" "out = Some h" "mode_ok md" "first_free p = Some i" by auto
    then have "slot_step (tcb p i) Created (create_slot md cb ctx (tcb p i))"
      using first_free_Some(2) [of p i] step_create [of "tcb p i" md f ctx] by (simp add: mode_ok_def)
    moreover have "unat (of_nat i :: u8) = i"
      using first_free_Some(1) [OF fi(4)] cap by (simp add: holds_slot_def unat_of_nat take_bit_nat_eq_self)
    ultimately show ?thesis
      using upd_path [OF wf first_free_Some(1) [OF fi(4)], of Created "create_slot md cb ctx" k] CallCreate fi
      by (cases "i = k") simp_all
  qed
next
  case (CallStart h n)
  show ?thesis
  proof (cases "live p h \<and> n \<noteq> 0")
    case True
    then have "slot_step (tcb p (unat (index h))) (Started n) (start_slot n (tcb p (unat (index h))))"
      by (intro step_start) (simp_all add: live_def)
    with True CallStart upd_path [OF wf liveD, of h "Started n" "start_slot n" k] show ?thesis
      by (cases "unat (index h) = k") simp_all
  qed (use CallStart in \<open>auto intro!: no_path\<close>)
next
  case (CallStop h)
  show ?thesis
  proof (cases "live p h")
    case True
    then have "slot_step (tcb p (unat (index h))) Stopped (stop_slot (tcb p (unat (index h))))"
      by (intro step_stop) (simp add: live_def)
    with True CallStop upd_path [OF wf liveD, of h Stopped stop_slot k] show ?thesis
      by (cases "unat (index h) = k") simp_all
  qed (use CallStop in \<open>auto intro!: no_path\<close>)
next
  case (CallDelete h)
  show ?thesis
  proof (cases "live p h")
    case True
    then have "slot_step (tcb p (unat (index h))) Deleted (delete_slot (tcb p (unat (index h))))"
      by (intro step_delete) (simp add: live_def)
    with True CallDelete upd_path [OF wf liveD, of h Deleted delete_slot k] show ?thesis
      by (cases "unat (index h) = k") simp_all
  qed (use CallDelete in \<open>auto intro!: no_path\<close>)
next
  case (CallInit stor n)
  show ?thesis
  proof (cases "stor = None \<or> n = 0")
    case True
    with CallInit show ?thesis by (intro no_path) (auto split: option.splits)
  next
    case False
    with CallInit sound obtain s where "stor = Some s" "n \<noteq> 0" "k < unat n"
      by (auto simp: holds_slot_def)
    with CallInit show ?thesis
      by (intro exI [of _ "[Initialised]"]) (simp add: fresh_pool_slots step_init)
  qed
qed (auto intro!: no_path)

text \<open>Callbacks that move slot \<open>k\<close> along its state machine, each recorded for its own slot.\<close>

locale lawful_callbacks = timer_callbacks "holds_slot k" exec
  for k :: nat and exec :: "'cb \<Rightarrow> ('cb, 'ctx, 'w) SoftwareTimerCallback_t" +
  fixes seen :: "'w \<Rightarrow> slot_event list"
  assumes exec_path: "pool_wf p \<Longrightarrow> holds_slot k (capacity p) \<Longrightarrow> exec cb h ctx (p, w) = Some (p', w') \<Longrightarrow>
      \<exists>es. slot_path (tcb p k) es (tcb p' k) \<and>
        seen w' = seen w @ (if unat (index h) = k then [Expired] else []) @ visible es"
begin

lemma tickSlot_path:
  assumes wf: "pool_wf p" and c: "holds_slot k (capacity p)" and i: "i < unat (capacity p)"
    and run: "tickSlot exec i (p, w) = Some (p', w')"
  shows "took_path seen k (p, w) (p', w')"
proof (cases "expires (tcb p i)")
  case True
  note idx = handle_at_slot(1) [OF c i]
  from True have step: "slot_step (tcb p i) Expired (tick_slot (tcb p i))"
    by (auto simp: expires_def tick_slot_def intro: step_reload step_finish)
  then obtain es where es: "slot_path (tcb p k) es (tcb (upd p i tick_slot) k)"
    "visible es = (if i = k then [Expired] else [])"
    using upd_path [OF wf i, of Expired tick_slot k] step by auto
  have "pool_wf (upd p i tick_slot)"
    using wf i by (intro pool_wf_upd slot_wf_tick slot_wfD)
  moreover have "exec (the (callback (tcb p i))) (handle_at p i) (cbContext (tcb p i)) (upd p i tick_slot, w) =
      Some (p', w')"
    using run True by (simp add: tickSlot_eq [OF wf i])
  ultimately have "\<exists>fs. slot_path (tcb (upd p i tick_slot) k) fs (tcb p' k) \<and>
      seen w' = seen w @ (if i = k then [Expired] else []) @ visible fs"
    using exec_path [of "upd p i tick_slot" _ "handle_at p i"] c idx by simp
  then obtain fs where "slot_path (tcb (upd p i tick_slot) k) fs (tcb p' k)"
    "seen w' = seen w @ (if i = k then [Expired] else []) @ visible fs" by blast
  with es show ?thesis
    unfolding took_path_def by (intro exI [of _ "es @ fs"]) (auto simp: slot_path_append)
next
  case False
  with run have p': "p' = upd p i tick_slot" "w' = w"
    by (simp_all add: tickSlot_eq [OF wf i])
  show ?thesis
  proof (cases "state (tcb p i) = SOFTWARE_TIMER_STATE_RUNNING")
    case True
    with False have "slot_step (tcb p i) Counted (tick_slot (tcb p i))"
      by (auto simp: expires_def tick_slot_def intro: step_count)
    with upd_path [OF wf i, of Counted tick_slot k] show ?thesis
      by (auto simp: p' took_path_def)
  next
    case False
    then show ?thesis
      using upd_same [OF wf i, of tick_slot] by (simp add: p' tick_slot_def)
  qed
qed

theorem tick_path:
  assumes "pool_wf p" "holds_slot k (capacity p)" "softwareTimerTick exec (Some p, w) = Some (st, Some p', w')"
  shows "took_path seen k (p, w) (p', w')"
  using tickSlot_path took_path_refl took_path_trans assms by (rule tick_rounds)

end

subsection \<open>Scripts are lawful\<close>

definition tick_lawful ::
  "nat \<Rightarrow> (('cb, 'ctx) SoftwareTimerPool_t ptr \<times> 's \<times> ('cb, 'ctx) timer_event list \<Rightarrow>
     (SoftwareTimerStatus_t \<times> ('cb, 'ctx) SoftwareTimerPool_t ptr \<times> 's \<times> ('cb, 'ctx) timer_event list) run) \<Rightarrow> bool" where
  "tick_lawful k tick \<longleftrightarrow>
     (\<forall>p w. pool_wf p \<longrightarrow> holds_slot k (capacity p) \<longrightarrow>
        (\<exists>p' w'. tick (Some p, w) = Some (SOFTWARE_TIMER_SUCCESS, Some p', w') \<and> pool_wf p' \<and>
           holds_slot k (capacity p') \<and> took_path (\<lambda>w. slot_events k (snd w)) k (p, w) (p', w')))"

lemma run_script_path:
  assumes tk: "\<And>tick. tk = Some tick \<Longrightarrow> tick_lawful k tick"
    and sc: "script_all (sound_call (holds_slot k)) sc" and p: "pool_wf p" "holds_slot k (capacity p)"
    and run: "run_script tk sc (p, w) = Some (p', w')"
  shows "took_path (\<lambda>w. slot_events k (snd w)) k (p, w) (p', w')"
  using sc p run
proof (induction sc arbitrary: p w)
  case (Finish s)
  then show ?case by (auto simp: took_path_def intro: exI [of _ "[]"])
next
  case (Request c k')
  then have c: "sound_call (holds_slot k) c" by simp
  let ?p = "call_effect c p" and ?w = "(fst w, snd w @ [Called c (call_reply c p)])"
  have "took_path (\<lambda>w. slot_events k (snd w)) k (?p, ?w) (p', w')"
    using Request.prems do_call_eq [OF Request.prems(2) c]
    by (intro Request.IH [OF rangeI _ effect_wf [where fits = "holds_slot k", OF Request.prems(2,3) c]]) simp_all
  moreover have "took_path (\<lambda>w. slot_events k (snd w)) k (p, w) (?p, ?w)"
    using call_path [OF Request.prems(2,3) c] by (auto simp: took_path_def)
  ultimately show ?case by (rule took_path_trans [rotated])
next
  case (Tick s k')
  show ?case
  proof (cases tk)
    case None
    with Tick.prems have "took_path (\<lambda>w. slot_events k (snd w)) k (p, w) (p', w')"
      by (intro Tick.IH [OF rangeI [of k' None] rangeI [of "k' None" s]]) simp_all
    then show ?thesis .
  next
    case (Some tick)
    let ?w = "(s, snd w @ [Ticked])"
    obtain p1 w1 where t: "tick (Some p, ?w) = Some (SOFTWARE_TIMER_SUCCESS, Some p1, w1)" "pool_wf p1"
      "holds_slot k (capacity p1)" "took_path (\<lambda>w. slot_events k (snd w)) k (p, ?w) (p1, w1)"
      using tk [OF Some] Tick.prems(2,3) unfolding tick_lawful_def by blast
    have "took_path (\<lambda>w. slot_events k (snd w)) k (p1, w1) (p', w')"
      using Tick.prems t(1-3) Some
      by (intro Tick.IH [OF rangeI [of k' "Some SOFTWARE_TIMER_SUCCESS"]
            rangeI [of "k' (Some SOFTWARE_TIMER_SUCCESS)" "fst w1"]]) simp_all
    moreover have "took_path (\<lambda>w. slot_events k (snd w)) k (p, w) (p1, w1)"
      using t(4) by (simp add: took_path_def)
    ultimately show ?thesis by (rule took_path_trans [rotated])
  qed
qed

lemma tick_lawful:
  assumes "lawful_callbacks k exec (\<lambda>w. slot_events k (snd w))"
  shows "tick_lawful k (softwareTimerTick exec)"
  unfolding tick_lawful_def
proof (intro allI impI)
  fix p :: "('a, 'b) SoftwareTimerPool_t" and w :: "'c \<times> ('a, 'b) timer_event list"
  assume p: "pool_wf p" "holds_slot k (capacity p)"
  have "timer_callbacks (holds_slot k) exec"
    using assms by (simp add: lawful_callbacks_def)
  from timer_callbacks.tick_safe [OF this p, of w]
  obtain p' w' where run: "softwareTimerTick exec (Some p, w) = Some (SOFTWARE_TIMER_SUCCESS, Some p', w')" "pool_wf p'"
    "holds_slot k (capacity p')" by auto
  with lawful_callbacks.tick_path [OF assms p run(1)]
  show "\<exists>p' w'. softwareTimerTick exec (Some p, w) = Some (SOFTWARE_TIMER_SUCCESS, Some p', w') \<and> pool_wf p' \<and>
      holds_slot k (capacity p') \<and> took_path (\<lambda>w. slot_events k (snd w)) k (p, w) (p', w')"
    by blast
qed

lemma invoke_lawful:
  fixes cbs :: "('s, 'cb, 'ctx) callbacks"
  assumes "timer_callbacks (holds_slot k) (invoke tk cbs)" "\<And>tick. tk = Some tick \<Longrightarrow> tick_lawful k tick"
    and sound: "callbacks_all (sound_call (holds_slot k)) cbs"
  shows "lawful_callbacks k (invoke tk cbs) (\<lambda>w. slot_events k (snd w))"
  unfolding lawful_callbacks_def
proof (intro conjI assms(1), unfold_locales)
  fix p p' :: "('cb, 'ctx) SoftwareTimerPool_t" and cb h ctx and w w' :: "'s \<times> ('cb, 'ctx) timer_event list"
  assume wf: "pool_wf p" "holds_slot k (capacity p)" and run: "invoke tk cbs cb h ctx (p, w) = Some (p', w')"
  have "run_script tk (cbs cb h ctx (fst w)) (p, fst w, snd w @ [Fired h ctx]) = Some (p', w')"
    using run by (simp add: invoke_def split: prod.splits)
  from run_script_path [OF assms(2) _ wf this] sound
  show "\<exists>es. slot_path (tcb p k) es (tcb p' k) \<and>
      slot_events k (snd w') = slot_events k (snd w) @ (if unat (index h) = k then [Expired] else []) @ visible es"
    by (auto simp: took_path_def callbacks_all_def)
qed

lemma script_exec_lawful:
  assumes "callbacks_all (sound_call (holds_slot k)) cbs"
  shows "lawful_callbacks k (script_exec cbs n) (\<lambda>w. slot_events k (snd w))"
proof (induction n)
  case 0
  show ?case
    unfolding script_exec.simps using script_exec_callbacks [OF assms, of 0]
    by (intro invoke_lawful [OF _ _ assms]) simp_all
next
  case (Suc n)
  show ?case
    unfolding script_exec.simps using script_exec_callbacks [OF assms, of "Suc n"] tick_lawful [OF Suc]
    by (intro invoke_lawful [OF _ _ assms]) simp_all
qed

interpretation app_path: lawful_callbacks k "script_exec (restricted (sound_call (holds_slot k)) cbs) n"
    "\<lambda>w. slot_events k (snd w)" for k cbs n
  by (rule script_exec_lawful) (rule restricted_all)

lemma run_app_path:
  assumes sound: "callbacks_all (sound_call (holds_slot k)) cbs" "script_all (sound_call (holds_slot k)) main"
    and p: "pool_wf p" "holds_slot k (capacity p)"
  obtains p' s' tr' es where "run_app cbs n main (p, s, []) = Some (p', s', tr')" "pool_wf p'" "holds_slot k (capacity p')"
    "slot_path (tcb p k) es (tcb p' k)" "slot_events k tr' = visible es"
proof -
  obtain p' s' tr' where run: "run_app cbs n main (p, s, []) = Some (p', s', tr')" "pool_wf p'" "holds_slot k (capacity p')"
    using run_app_safe [OF sound p, of n "(s, [])"] by auto
  have lawful: "tick_lawful k (softwareTimerTick (script_exec cbs n))"
    using tick_lawful [OF app_path.lawful_callbacks_axioms, of k cbs n] restricted_same [OF sound(1)] by simp
  have "took_path (\<lambda>w. slot_events k (snd w)) k (p, s, []) (p', s', tr')"
    using run(1) lawful
    by (intro run_script_path [OF _ sound(2) p, where tk = "Some (softwareTimerTick (script_exec cbs n))"])
      (simp_all add: run_app_def)
  with run that show thesis by (auto simp: took_path_def)
qed

subsection \<open>Properties\<close>

text \<open>C7: every life of a pool is, for each of its slots, a path of the slot's state machine.  From
  an initialised pool of at most 256 slots, for any main program and any callbacks, there is
  for each slot \<open>k\<close> a sequence of events that leads from the unused slot to the slot as it is
  at the end.  But for the counts, these are exactly the events the trace records for that
  slot, in their order: the successful creations, starts, stops and deletions, the callbacks
  run, and the new initialisations of the pool, which may come from within a tick and change
  the capacity as long as slot \<open>k\<close> is there.  Its deletions since the last initialisation are
  its generation (modulo 256), and every expiry is preceded by a start with no stop, deletion
  or initialisation in between.\<close>

theorem timer_runs_follow_lifecycle:
  fixes cbs :: "('s, 'cb, 'ctx) callbacks"
  assumes "holds_slot k cap" "unat cap \<le> length st"
    and "callbacks_all (sound_call (holds_slot k)) cbs" "script_all (sound_call (holds_slot k)) main"
  shows "\<exists>p p' s' tr es. softwareTimerInit (Some old) (Some st) cap = Some (SOFTWARE_TIMER_SUCCESS, Some p) \<and>
    run_app cbs n main (p, s, []) = Some (p', s', tr) \<and>
    state (tcb p k) = SOFTWARE_TIMER_STATE_UNUSED \<and> slot_path (tcb p k) es (tcb p' k) \<and>
    slot_events k tr = filter (\<lambda>e. e \<noteq> Counted) es \<and>
    generation (tcb p' k) = of_nat (count_list (since_init es) Deleted) \<and>
    (\<forall>pre post. es = pre @ Expired # post \<longrightarrow>
       (\<exists>a n b. pre = a @ Started n # b \<and> set b \<inter> {Stopped, Deleted, Initialised} = {}))"
proof -
  let ?p = "fresh_pool st cap"
  have cap: "cap \<noteq> 0" "k < unat cap" "holds_slot k (capacity ?p)"
    using assms(1) by (auto simp: holds_slot_def fresh_pool_slots)
  note p = init_eq [OF cap(1) assms(2), of old] fresh_pool_wf [OF cap(1) assms(2)]
  have t: "state (tcb ?p k) = SOFTWARE_TIMER_STATE_UNUSED" "generation (tcb ?p k) = 0"
    using cap(2) by (simp_all add: fresh_pool_slots blank_slot_def)
  obtain p' s' tr es where run: "run_app cbs n main (?p, s, []) = Some (p', s', tr)"
    and path: "slot_path (tcb ?p k) es (tcb p' k)" "slot_events k tr = visible es"
    using run_app_path [OF assms(3,4) p(2) cap(3), of n s] by metis
  have "generation (tcb p' k) = of_nat (count_list (since_init es) Deleted)"
    using slot_path_generation [OF path(1)] t(2) by simp
  moreover have "\<forall>pre post. es = pre @ Expired # post \<longrightarrow> running_on pre"
    using slot_path_expiry [of "tcb ?p k" _ _ "tcb p' k"] path(1) t(1) by auto
  ultimately show ?thesis
    using p(1) run path t(1) unfolding running_on_def
    by (intro exI [of _ ?p] exI [of _ p'] exI [of _ s'] exI [of _ tr] exI [of _ es]) (simp add: visible_def)
qed

theorem timer_runs_follow_lifecycle_witness:
  "\<exists>p p' s' tr es. softwareTimerInit (Some no_pool) (Some [blank_slot]) 1 = Some (SOFTWARE_TIMER_SUCCESS, Some p) \<and>
    run_app resetter 2 (start_and_tick SOFTWARE_TIMER_MODE_PERIODIC 1 3) (p, 0, []) = Some (p', s', tr) \<and>
    slot_path (tcb p 0) es (tcb p' 0) \<and> slot_events 0 tr = filter (\<lambda>e. e \<noteq> Counted) es"
proof -
  have "holds_slot 0 1" "unat (1 :: size_t) \<le> length [blank_slot]" "callbacks_all (sound_call (holds_slot 0)) resetter"
    by (simp_all add: holds_slot_def callbacks_all_def resetter_def)
  from timer_runs_follow_lifecycle [OF this start_and_tick_sound, of no_pool 2 SOFTWARE_TIMER_MODE_PERIODIC 1 3 0]
  show ?thesis by blast
qed

text \<open>C15: a deleted timer's handle, exactly.  After a successful delete and any run of an
  application the old handle is good again just when its slot is in use and has come back to
  its generation: when the slot has been deleted a multiple of 256 times by then, this delete
  included, or, after a new initialisation of the pool, which starts the generations over,
  as many times since as the handle says.  Then it names, unnoticed, the timer that has the
  slot now.  Otherwise, so without initialisations for the next 254 deletions of the slot at
  least and whatever new timers it was given to, every operation on it is refused as an
  invalid handle and touches nothing.\<close>

theorem stale_handle_refused:
  fixes cbs :: "('s, 'cb, 'ctx) callbacks"
  assumes "pool_wf p" "live p h" "unat (capacity p) \<le> 256"
    and "callbacks_all (sound_call (holds_slot (unat (index h)))) cbs"
    and "script_all (sound_call (holds_slot (unat (index h)))) main"
  shows "\<exists>p1 p2 s' tr again. softwareTimerDelete (Some p) h = Some (SOFTWARE_TIMER_SUCCESS, Some p1) \<and>
    run_app cbs d main (p1, s, []) = Some (p2, s', tr) \<and>
    again = (state (tcb p2 (unat (index h))) \<noteq> SOFTWARE_TIMER_STATE_UNUSED \<and>
      (if Initialised \<in> set (slot_events (unat (index h)) tr)
       then handleGeneration h = of_nat (count_list (since_init (slot_events (unat (index h)) tr)) Deleted)
       else 256 dvd Suc (count_list (slot_events (unat (index h)) tr) Deleted))) \<and>
    (\<not> again \<longrightarrow>
       softwareTimerStart (Some p2) h n = Some (SOFTWARE_TIMER_ERROR_INVALID_HANDLE, Some p2) \<and>
       softwareTimerStop (Some p2) h = Some (SOFTWARE_TIMER_ERROR_INVALID_HANDLE, Some p2) \<and>
       softwareTimerDelete (Some p2) h = Some (SOFTWARE_TIMER_ERROR_INVALID_HANDLE, Some p2) \<and>
       softwareTimerGetState (Some p2) h (Some st) = Some (SOFTWARE_TIMER_ERROR_INVALID_HANDLE, Some st) \<and>
       softwareTimerGetRemainingTicks (Some p2) h (Some r) = Some (SOFTWARE_TIMER_ERROR_INVALID_HANDLE, Some r)) \<and>
    (again \<longrightarrow>
       softwareTimerStop (Some p2) h = Some (SOFTWARE_TIMER_SUCCESS, Some (upd p2 (unat (index h)) stop_slot)) \<and>
       softwareTimerDelete (Some p2) h = Some (SOFTWARE_TIMER_SUCCESS, Some (upd p2 (unat (index h)) delete_slot)) \<and>
       softwareTimerGetState (Some p2) h (Some st) =
         Some (SOFTWARE_TIMER_SUCCESS, Some (state (tcb p2 (unat (index h))))))"
proof -
  let ?j = "unat (index h)" and ?p1 = "upd p (unat (index h)) delete_slot"
  note j = liveD [OF assms(2)]
  have wf1: "pool_wf ?p1" "holds_slot ?j (capacity ?p1)"
    using assms(1,3) j by (auto simp: holds_slot_def intro!: pool_wf_upd slot_wf_updates(3) slot_wfD)
  obtain p2 s' tr es where p2: "run_app cbs d main (?p1, s, []) = Some (p2, s', tr)" "pool_wf p2"
      "holds_slot ?j (capacity p2)"
    and es: "slot_path (tcb ?p1 ?j) es (tcb p2 ?j)" "slot_events ?j tr = visible es"
    using run_app_path [OF assms(4,5) wf1, of d s] by metis
  let ?n = "Suc (count_list es Deleted)"
  have gen: "generation (tcb p2 ?j) = (if Initialised \<in> set es then of_nat (count_list (since_init es) Deleted)
      else handleGeneration h + of_nat ?n)"
    using slot_path_generation [OF es(1)] assms(2)
    by (simp add: tcb_upd [OF assms(1) j] delete_slot_def live_def since_init_all)
  have "(of_nat ?n :: u8) = 0 \<longleftrightarrow> 256 dvd ?n"
    unfolding word_of_nat_eq_0_iff by simp
  then have "generation (tcb p2 ?j) = handleGeneration h \<longleftrightarrow>
      (if Initialised \<in> set es then handleGeneration h = of_nat (count_list (since_init es) Deleted) else 256 dvd ?n)"
    unfolding gen by (auto simp del: of_nat_Suc)
  then have live: "live p2 h \<longleftrightarrow> state (tcb p2 ?j) \<noteq> SOFTWARE_TIMER_STATE_UNUSED \<and>
      (if Initialised \<in> set (slot_events ?j tr)
       then handleGeneration h = of_nat (count_list (since_init (slot_events ?j tr)) Deleted)
       else 256 dvd Suc (count_list (slot_events ?j tr) Deleted))"
    using p2(3) unfolding live_def es(2) by (simp add: holds_slot_def)
  show ?thesis
    by (rule exI [of _ ?p1], rule exI [of _ p2], rule exI [of _ s'], rule exI [of _ tr], rule exI [of _ "live p2 h"])
      (use p2 assms(2) live in \<open>simp add: delete_eq [OF assms(1)] start_eq [OF p2(2)] stop_eq [OF p2(2)]
        delete_eq [OF p2(2)] queries_eq [OF p2(2)]\<close>)
qed

theorem stale_handle_refused_witness:
  "\<exists>p1 p2 s' tr. softwareTimerDelete (Some (timer_example SOFTWARE_TIMER_MODE_ONE_SHOT 5)) handle_example =
      Some (SOFTWARE_TIMER_SUCCESS, Some p1) \<and>
    run_app replacer 1 (start_and_tick SOFTWARE_TIMER_MODE_ONE_SHOT 1 2) (p1, 0, []) = Some (p2, s', tr) \<and>
    slot_events 1 tr = [Created, Started 1, Expired, Deleted, Created] \<and>
    softwareTimerStop (Some p2) handle_example = Some (SOFTWARE_TIMER_ERROR_INVALID_HANDLE, Some p2)"
proof -
  let ?p = "timer_example SOFTWARE_TIMER_MODE_ONE_SHOT 5 :: (nat, nat) SoftwareTimerPool_t"
  have ev: "case softwareTimerDelete (Some ?p) handle_example of
      Some (st, Some p1) \<Rightarrow> (case run_app replacer 1 (start_and_tick SOFTWARE_TIMER_MODE_ONE_SHOT 1 2) (p1, 0, []) of
        Some (p2, s2, tr) \<Rightarrow> slot_events 1 tr = [Created, Started 1, Expired, Deleted, Created] | None \<Rightarrow> False) | _ \<Rightarrow> False"
    by code_simp
  have ok: "pool_wf ?p" "live ?p handle_example" "unat (capacity ?p) \<le> 256" and index: "unat (index handle_example) = 1"
    using timer_example_ok [of SOFTWARE_TIMER_MODE_ONE_SHOT 5] by simp_all
  have sound: "callbacks_all (sound_call (holds_slot 1)) replacer"
    by (simp add: callbacks_all_def replacer_def)
  obtain p1 p2 s' tr again where run: "softwareTimerDelete (Some ?p) handle_example = Some (SOFTWARE_TIMER_SUCCESS, Some p1)"
    "run_app replacer 1 (start_and_tick SOFTWARE_TIMER_MODE_ONE_SHOT 1 2) (p1, 0, []) = Some (p2, s', tr)"
    "again = (state (tcb p2 1) \<noteq> SOFTWARE_TIMER_STATE_UNUSED \<and> (if Initialised \<in> set (slot_events 1 tr)
       then handleGeneration handle_example = of_nat (count_list (since_init (slot_events 1 tr)) Deleted)
       else 256 dvd Suc (count_list (slot_events 1 tr) Deleted)))"
    "\<not> again \<longrightarrow> softwareTimerStop (Some p2) handle_example = Some (SOFTWARE_TIMER_ERROR_INVALID_HANDLE, Some p2)"
    using stale_handle_refused [OF ok, unfolded index, OF sound start_and_tick_sound,
      of 1 SOFTWARE_TIMER_MODE_ONE_SHOT 1 2 0 1 SOFTWARE_TIMER_STATE_UNUSED 0]
    by blast
  have events: "slot_events 1 tr = [Created, Started 1, Expired, Deleted, Created]"
    using ev run(1,2) by simp
  have "\<not> 256 dvd Suc 1"
    by (simp add: nat_dvd_not_less)
  then have "\<not> again"
    using run(3) unfolding events by simp
  with run events show ?thesis by blast
qed

text \<open>
  Generations start over with a new initialisation: the first handle of a pool, whose timer
  was deleted, is good again for the first timer that is created after it.
\<close>

definition first_handle :: TimerHandle_t where
  "first_handle = \<lparr>index = 0, handleGeneration = 0\<rparr>"

definition init_and_create :: "(timer_reply, nat, nat) script" where
  "init_and_create =
     Request (CallCreate SOFTWARE_TIMER_MODE_ONE_SHOT (Some 1) None (Some first_handle)) (\<lambda>_.
     Request (CallDelete first_handle) (\<lambda>_.
     Request (CallCreate SOFTWARE_TIMER_MODE_ONE_SHOT (Some 2) None (Some first_handle)) (\<lambda>_.
     Request (CallInit (Some [blank_slot]) 1) (\<lambda>_.
     Request (CallCreate SOFTWARE_TIMER_MODE_ONE_SHOT (Some 3) None (Some first_handle)) (\<lambda>_.
     Request (CallStart first_handle 7) (\<lambda>r. Finish r))))))"

lemma init_revives_handle:
  "\<exists>p tr. run_app (\<lambda>cb h ctx s. Finish s) 0 init_and_create
      (fresh_pool [blank_slot] 1, ReplyStatus SOFTWARE_TIMER_ERROR_INVALID_HANDLE, []) =
      Some (p, ReplyStatus SOFTWARE_TIMER_SUCCESS, tr) \<and>
    slot_events 0 tr = [Created, Deleted, Created, Initialised, Created, Started 7]"
proof -
  have "case run_app (\<lambda>cb h ctx s. Finish s) 0 init_and_create
      (fresh_pool [blank_slot] 1, ReplyStatus SOFTWARE_TIMER_ERROR_INVALID_HANDLE, []) of
      Some (p, r, tr) \<Rightarrow> r = ReplyStatus SOFTWARE_TIMER_SUCCESS \<and>
        slot_events 0 tr = [Created, Deleted, Created, Initialised, Created, Started 7]
    | None \<Rightarrow> False"
    by code_simp
  then show ?thesis
    by (auto split: option.splits)
qed

text \<open>C25: a stopped timer is silent until it is started again.  In every run of an application
  from a well-formed pool, whatever its main program and its callbacks do: after any
  successful stop of the timer in slot \<open>k\<close>, made by the main program, by another timer's
  callback or by its own callback on whichever firing and at whichever point of it, before or
  after ticks made from within, for a one-shot or a periodic timer, its callback is not
  invoked any more unless the slot is started again; at the end it is not running and has no
  ticks left, and it is still there and stopped if it was not deleted and the pool not
  initialised anew.  So the reload that precedes a periodic timer's callback does not undo a
  stop made in it.\<close>

theorem stop_is_final:
  fixes cbs :: "('s, 'cb, 'ctx) callbacks"
  assumes "pool_wf p" "holds_slot k (capacity p)"
    and "callbacks_all (sound_call (holds_slot k)) cbs" "script_all (sound_call (holds_slot k)) main"
  shows "\<exists>p' s' tr. run_app cbs d main (p, s, []) = Some (p', s', tr) \<and>
    (\<forall>pre h post. tr = pre @ Called (CallStop h) (ReplyStatus SOFTWARE_TIMER_SUCCESS) # post \<longrightarrow> unat (index h) = k \<longrightarrow>
      (\<forall>n. Started n \<notin> set (slot_events k post)) \<longrightarrow>
      (\<forall>h' ctx. Fired h' ctx \<in> set post \<longrightarrow> unat (index h') \<noteq> k) \<and>
      state (tcb p' k) \<noteq> SOFTWARE_TIMER_STATE_RUNNING \<and> remaining (tcb p' k) = 0 \<and>
      (set (slot_events k post) \<inter> {Deleted, Initialised} = {} \<longrightarrow> state (tcb p' k) = SOFTWARE_TIMER_STATE_STOPPED))"
proof -
  obtain p' s' tr es where run: "run_app cbs d main (p, s, []) = Some (p', s', tr)" "pool_wf p'" "holds_slot k (capacity p')"
    and es: "slot_path (tcb p k) es (tcb p' k)" "slot_events k tr = visible es"
    using run_app_path [OF assms(3,4,1,2), of d s] by metis
  have "(\<forall>h' ctx. Fired h' ctx \<in> set post \<longrightarrow> unat (index h') \<noteq> k) \<and>
      state (tcb p' k) \<noteq> SOFTWARE_TIMER_STATE_RUNNING \<and> remaining (tcb p' k) = 0 \<and>
      (set (slot_events k post) \<inter> {Deleted, Initialised} = {} \<longrightarrow> state (tcb p' k) = SOFTWARE_TIMER_STATE_STOPPED)"
    if tr: "tr = pre @ Called (CallStop h) (ReplyStatus SOFTWARE_TIMER_SUCCESS) # post" "unat (index h) = k"
      and quiet: "\<forall>n. Started n \<notin> set (slot_events k post)" for pre h post
  proof -
    have "visible es = slot_events k pre @ Stopped # slot_events k post"
      using es(2) tr by simp
    then obtain as bs where split: "es = as @ Stopped # bs" "visible bs = slot_events k post"
      using visible_split by blast
    then obtain t where t: "slot_path (stop_slot t) bs (tcb p' k)"
      using es(1) by (auto simp: slot_path_append)
    have stopped: "state (stop_slot t) = SOFTWARE_TIMER_STATE_STOPPED"
      by (simp add: stop_slot_def)
    have "\<forall>n. Started n \<notin> set bs"
      using quiet unfolding split(2) [symmetric] by (simp add: set_visible)
    note silent = slot_path_silent [OF t _ this, unfolded stopped]
    have "set bs \<inter> {Deleted, Initialised} = set (slot_events k post) \<inter> {Deleted, Initialised}"
      unfolding split(2) [symmetric] using set_visible [of Deleted bs] set_visible [of Initialised bs] by blast
    moreover have "Expired \<notin> set (slot_events k post)"
      unfolding split(2) [symmetric] using silent(1) by (simp add: set_visible)
    moreover have "slot_wf (tcb p' k)"
      using run(2,3) by (auto simp: holds_slot_def intro: slot_wfD)
    ultimately show ?thesis
      using silent(2,3) slot_events_fired [of _ _ post k]
      by (cases "state (tcb p' k)") (auto simp: slot_wf_def)
  qed
  with run(1) show ?thesis by blast
qed

text \<open>A periodic timer that fires on each tick and stops itself on its third firing, behind a tick of its own.\<close>

definition fires_thrice :: "(nat, nat, nat) callbacks" where
  "fires_thrice cb h ctx s =
     (if s = 2 then Tick 3 (\<lambda>st s'. Request (CallStop h) (\<lambda>r. Finish s')) else Finish (Suc s))"

theorem stop_is_final_witness:
  "\<exists>p' s' tr pre post. run_app fires_thrice 1 (start_and_tick SOFTWARE_TIMER_MODE_PERIODIC 1 6)
      (fresh_pool [blank_slot] 1, 0, []) = Some (p', s', tr) \<and>
    tr = pre @ Called (CallStop first_handle) (ReplyStatus SOFTWARE_TIMER_SUCCESS) # post \<and>
    firings 0 pre = 4 \<and> ticks_in post = 3 \<and>
    (\<forall>h ctx. Fired h ctx \<in> set post \<longrightarrow> unat (index h) \<noteq> 0) \<and> state (tcb p' 0) = SOFTWARE_TIMER_STATE_STOPPED"
proof -
  let ?main = "start_and_tick SOFTWARE_TIMER_MODE_PERIODIC 1 6" and ?p = "fresh_pool [blank_slot] 1 :: (nat, nat) SoftwareTimerPool_t"
  let ?before = "\<lambda>e. case e of Called (CallStop h) r \<Rightarrow> False | _ \<Rightarrow> True"
  have ev: "case run_app fires_thrice 1 ?main (?p, 0, []) of
      Some (p', s', tr) \<Rightarrow>
        (case dropWhile ?before tr of
           [] \<Rightarrow> False
         | e # post \<Rightarrow> e = Called (CallStop first_handle) (ReplyStatus SOFTWARE_TIMER_SUCCESS) \<and>
             firings 0 (takeWhile ?before tr) = 4 \<and> ticks_in post = 3 \<and> slot_events 0 post = [])
    | None \<Rightarrow> False"
    by code_simp
  have hyps: "pool_wf ?p" "holds_slot 0 (capacity ?p)" "callbacks_all (sound_call (holds_slot 0)) fires_thrice"
    by (auto simp: fresh_pool_wf fresh_pool_slots holds_slot_def callbacks_all_def fires_thrice_def)
  obtain p' s' tr where run: "run_app fires_thrice 1 ?main (?p, 0, []) = Some (p', s', tr)"
    and final: "\<forall>pre h post. tr = pre @ Called (CallStop h) (ReplyStatus SOFTWARE_TIMER_SUCCESS) # post \<longrightarrow> unat (index h) = 0 \<longrightarrow>
      (\<forall>n. Started n \<notin> set (slot_events 0 post)) \<longrightarrow>
      (\<forall>h' ctx. Fired h' ctx \<in> set post \<longrightarrow> unat (index h') \<noteq> 0) \<and>
      state (tcb p' 0) \<noteq> SOFTWARE_TIMER_STATE_RUNNING \<and> remaining (tcb p' 0) = 0 \<and>
      (set (slot_events 0 post) \<inter> {Deleted, Initialised} = {} \<longrightarrow> state (tcb p' 0) = SOFTWARE_TIMER_STATE_STOPPED)"
    using stop_is_final [OF hyps start_and_tick_sound, of 1 SOFTWARE_TIMER_MODE_PERIODIC 1 6 0] by blast
  obtain post where post: "dropWhile ?before tr = Called (CallStop first_handle) (ReplyStatus SOFTWARE_TIMER_SUCCESS) # post"
    "firings 0 (takeWhile ?before tr) = 4" "ticks_in post = 3" "slot_events 0 post = []"
    using ev unfolding run by (auto split: list.splits)
  then have "tr = takeWhile ?before tr @ Called (CallStop first_handle) (ReplyStatus SOFTWARE_TIMER_SUCCESS) # post"
    using takeWhile_dropWhile_id [of ?before tr] by simp
  moreover from final [rule_format, OF this] post(4)
  have "(\<forall>h ctx. Fired h ctx \<in> set post \<longrightarrow> unat (index h) \<noteq> 0) \<and> state (tcb p' 0) = SOFTWARE_TIMER_STATE_STOPPED"
    by (simp add: first_handle_def)
  ultimately show ?thesis
    using run post(2,3) by blast
qed

end
