(* ===== verification/Logger.thy ===== *)
theory Logger
  imports Prelude
begin

text \<open>
  The logger (\<open>include/logger.h\<close>, \<open>src/logger.c\<close>).  A level is the integer a
  \<open>LoggerLevel_t\<close> argument holds, which need not be one of its enumerators.  A call of the
  backend is an effect: \<open>loggerWrite\<close> returns the delivery it makes, if any.  What
  \<open>vsnprintf\<close> makes of the caller's format and arguments is a parameter (\<open>render\<close>): the text
  is the caller's, the logger only bounds and places it.  A formatting call may fail, and
  then leaves arbitrary bytes in the buffer.
\<close>

type_synonym LoggerLevel_t = int

definition LOGGER_LEVEL_OFF :: LoggerLevel_t where "LOGGER_LEVEL_OFF = 0"
definition LOGGER_LEVEL_ERROR :: LoggerLevel_t where "LOGGER_LEVEL_ERROR = 1"
definition LOGGER_LEVEL_WARN :: LoggerLevel_t where "LOGGER_LEVEL_WARN = 2"
definition LOGGER_LEVEL_INFO :: LoggerLevel_t where "LOGGER_LEVEL_INFO = 3"
definition LOGGER_LEVEL_DEBUG :: LoggerLevel_t where "LOGGER_LEVEL_DEBUG = 4"

lemmas logger_levels = LOGGER_LEVEL_OFF_def LOGGER_LEVEL_ERROR_def LOGGER_LEVEL_WARN_def
  LOGGER_LEVEL_INFO_def LOGGER_LEVEL_DEBUG_def

datatype LoggerStatus_t =
    LOGGER_SUCCESS
  | LOGGER_ERROR_NULL_POINTER
  | LOGGER_ERROR_NO_BACKEND
  | LOGGER_ERROR_INVALID_LEVEL

record ('b, 'ctx) Logger_t =
  backend :: "'b ptr"
  backendContext :: "'ctx ptr"
  runtimeThreshold :: LoggerLevel_t

text \<open>The default of \<open>LOGGER_MAX_MESSAGE_LENGTH\<close>; a build may set any other value from 2 on.\<close>

definition LOGGER_MAX_MESSAGE_LENGTH :: nat where "LOGGER_MAX_MESSAGE_LENGTH = 128"

subsection \<open>The formatted output of the C library\<close>

datatype rendering = Rendered string | RenderFailed string

definition INT_MAX :: nat where "INT_MAX = 2147483647"

definition NUL :: char where "NUL = CHR 0x00"

text \<open>
  \<open>snprintf (buf + off, n, \<dots>)\<close>: at most \<open>n - 1\<close> characters and a terminator are written, and
  the length of the whole text is returned; a failure, or a length no \<open>int\<close> can hold, is a
  negative result.
\<close>

definition c_snprintf :: "char list \<Rightarrow> nat \<Rightarrow> nat \<Rightarrow> rendering \<Rightarrow> (int \<times> char list) run" where
  "c_snprintf buf off n r =
     (case r of
        Rendered t \<Rightarrow> do {
          buf' \<leftarrow> wr_block buf off (if n = 0 then [] else take (n - 1) t @ [NUL]);
          Some (if length t \<le> INT_MAX then int (length t) else - 1, buf')
        }
      | RenderFailed bytes \<Rightarrow> do {
          buf' \<leftarrow> wr_block buf off (take n bytes);
          Some (- 1, buf')
        })"

subsection \<open>The module\<close>

definition validateLogger :: "('b, 'ctx) Logger_t ptr \<Rightarrow> LoggerStatus_t" where
  "validateLogger logger = (if logger = None then LOGGER_ERROR_NULL_POINTER else LOGGER_SUCCESS)"

definition validateThresholdLevel :: "LoggerLevel_t \<Rightarrow> LoggerStatus_t" where
  "validateThresholdLevel level =
     (if level < LOGGER_LEVEL_OFF \<or> level > LOGGER_LEVEL_DEBUG then LOGGER_ERROR_INVALID_LEVEL
      else LOGGER_SUCCESS)"

definition validateMessageLevel :: "LoggerLevel_t \<Rightarrow> LoggerStatus_t" where
  "validateMessageLevel level =
     (if level < LOGGER_LEVEL_ERROR \<or> level > LOGGER_LEVEL_DEBUG then LOGGER_ERROR_INVALID_LEVEL
      else LOGGER_SUCCESS)"

definition loggerLevelToString :: "LoggerLevel_t \<Rightarrow> string" where
  "loggerLevelToString level =
     (if level = LOGGER_LEVEL_ERROR then ''ERROR''
      else if level = LOGGER_LEVEL_WARN then ''WARN''
      else if level = LOGGER_LEVEL_INFO then ''INFO''
      else if level = LOGGER_LEVEL_DEBUG then ''DEBUG''
      else ''UNKNOWN'')"

definition loggerInit ::
  "('b, 'ctx) Logger_t ptr \<Rightarrow> LoggerLevel_t \<Rightarrow> (LoggerStatus_t \<times> ('b, 'ctx) Logger_t ptr) run" where
  "loggerInit logger initialThreshold =
     (if validateLogger logger \<noteq> LOGGER_SUCCESS then Some (validateLogger logger, logger)
      else if validateThresholdLevel initialThreshold \<noteq> LOGGER_SUCCESS
      then Some (validateThresholdLevel initialThreshold, logger)
      else do {
        l \<leftarrow> deref logger;
        Some (LOGGER_SUCCESS,
          Some (l\<lparr>backend := None, backendContext := None, runtimeThreshold := initialThreshold\<rparr>))
      })"

definition loggerSetBackend ::
  "('b, 'ctx) Logger_t ptr \<Rightarrow> 'b ptr \<Rightarrow> 'ctx ptr \<Rightarrow> (LoggerStatus_t \<times> ('b, 'ctx) Logger_t ptr) run" where
  "loggerSetBackend logger be ctx =
     (if validateLogger logger \<noteq> LOGGER_SUCCESS then Some (validateLogger logger, logger)
      else if be = None then Some (LOGGER_ERROR_NULL_POINTER, logger)
      else do {
        l \<leftarrow> deref logger;
        Some (LOGGER_SUCCESS, Some (l\<lparr>backend := be, backendContext := ctx\<rparr>))
      })"

definition loggerClearBackend ::
  "('b, 'ctx) Logger_t ptr \<Rightarrow> (LoggerStatus_t \<times> ('b, 'ctx) Logger_t ptr) run" where
  "loggerClearBackend logger =
     (if validateLogger logger \<noteq> LOGGER_SUCCESS then Some (validateLogger logger, logger)
      else do {
        l \<leftarrow> deref logger;
        Some (LOGGER_SUCCESS, Some (l\<lparr>backend := None, backendContext := None\<rparr>))
      })"

definition loggerSetLevel ::
  "('b, 'ctx) Logger_t ptr \<Rightarrow> LoggerLevel_t \<Rightarrow> (LoggerStatus_t \<times> ('b, 'ctx) Logger_t ptr) run" where
  "loggerSetLevel logger threshold =
     (if validateLogger logger \<noteq> LOGGER_SUCCESS then Some (validateLogger logger, logger)
      else if validateThresholdLevel threshold \<noteq> LOGGER_SUCCESS
      then Some (validateThresholdLevel threshold, logger)
      else do {
        l \<leftarrow> deref logger;
        Some (LOGGER_SUCCESS, Some (l\<lparr>runtimeThreshold := threshold\<rparr>))
      })"

definition loggerGetLevel ::
  "('b, 'ctx) Logger_t ptr \<Rightarrow> LoggerLevel_t ptr \<Rightarrow> (LoggerStatus_t \<times> LoggerLevel_t ptr) run" where
  "loggerGetLevel logger outThreshold =
     (if validateLogger logger \<noteq> LOGGER_SUCCESS then Some (validateLogger logger, outThreshold)
      else if outThreshold = None then Some (LOGGER_ERROR_NULL_POINTER, outThreshold)
      else do {
        l \<leftarrow> deref logger;
        Some (LOGGER_SUCCESS, Some (runtimeThreshold l))
      })"

text \<open>A call of the backend: which one, with what message, length and context.\<close>

record ('b, 'ctx) delivery =
  to :: 'b
  message :: "char list"
  msgLength :: nat
  toContext :: "'ctx ptr"

text \<open>
  The two halves of the formatting: each prints, and clamps the number of characters that
  landed in the buffer.  All of these numbers are at most \<open>sizeof(buffer)\<close>, so they are
  naturals here.
\<close>

definition printPrefix :: "char list \<Rightarrow> rendering \<Rightarrow> (nat \<times> char list) run" where
  "printPrefix buffer r =
     do {
       (prefixLen, buffer1) \<leftarrow> c_snprintf buffer 0 (length buffer) r;
       if prefixLen < 0 then do { buffer2 \<leftarrow> wr buffer1 0 NUL; Some (0, buffer2) }
       else if nat prefixLen < length buffer then Some (nat prefixLen, buffer1)
       else Some (length buffer - 1, buffer1)
     }"

definition printMessage :: "char list \<Rightarrow> nat \<Rightarrow> rendering \<Rightarrow> (nat \<times> char list) run" where
  "printMessage buffer used r =
     do {
       let remaining = length buffer - used;
       (msgLen, buffer1) \<leftarrow> c_snprintf buffer used remaining r;
       if msgLen < 0 then do { buffer2 \<leftarrow> wr buffer1 used NUL; Some (0, buffer2) }
       else if nat msgLen < remaining then Some (nat msgLen, buffer1)
       else Some (remaining - 1, buffer1)
     }"

text \<open>
  \<open>stack\<close> is the message buffer as the call finds it, and its length is \<open>sizeof(buffer)\<close>;
  \<open>prefixFails\<close> is what a failing \<open>snprintf\<close> of the prefix leaves behind, if it fails.
\<close>

definition loggerWrite ::
  "char list \<Rightarrow> string option \<Rightarrow> ('fmt \<Rightarrow> 'args \<Rightarrow> rendering) \<Rightarrow>
   ('b, 'ctx) Logger_t ptr \<Rightarrow> LoggerLevel_t \<Rightarrow> string ptr \<Rightarrow> 'fmt ptr \<Rightarrow> 'args \<Rightarrow>
   (LoggerStatus_t \<times> ('b, 'ctx) delivery option) run" where
  "loggerWrite stack prefixFails render logger level module fmt args =
     (if validateLogger logger \<noteq> LOGGER_SUCCESS then Some (validateLogger logger, None)
      else if validateMessageLevel level \<noteq> LOGGER_SUCCESS then Some (validateMessageLevel level, None)
      else do {
        l \<leftarrow> deref logger;
        if (word_of_int level :: u32) > word_of_int (runtimeThreshold l) then Some (LOGGER_SUCCESS, None)
        else if module = None then Some (LOGGER_ERROR_NULL_POINTER, None)
        else if fmt = None then Some (LOGGER_ERROR_NULL_POINTER, None)
        else if backend l = None then Some (LOGGER_ERROR_NO_BACKEND, None)
        else do {
          let levelStr = loggerLevelToString level;
          m \<leftarrow> deref module;
          (used, buffer1) \<leftarrow> printPrefix stack
            (case prefixFails of
               None \<Rightarrow> Rendered (''['' @ levelStr @ '']['' @ m @ ''] '')
             | Some bytes \<Rightarrow> RenderFailed bytes);
          f \<leftarrow> deref fmt;
          (msgWritten, buffer2) \<leftarrow> printMessage buffer1 used (render f args);
          b \<leftarrow> deref (backend l);
          Some (LOGGER_SUCCESS,
            Some \<lparr>to = b, message = buffer2, msgLength = used + msgWritten, toContext = backendContext l\<rparr>)
        }
      })"

text \<open>
  The build configuration.  The preprocessor compares integer mirrors of the levels; a build
  that sets \<open>LOGGER_COMPILE_TIME_LEVEL\<close> or \<open>LOGGER_MAX_MESSAGE_LENGTH\<close> out of range stops with
  an \<open>#error\<close>.
\<close>

definition LOGGER_LEVEL_OFF_VAL :: int where "LOGGER_LEVEL_OFF_VAL = 0"
definition LOGGER_LEVEL_ERROR_VAL :: int where "LOGGER_LEVEL_ERROR_VAL = 1"
definition LOGGER_LEVEL_WARN_VAL :: int where "LOGGER_LEVEL_WARN_VAL = 2"
definition LOGGER_LEVEL_INFO_VAL :: int where "LOGGER_LEVEL_INFO_VAL = 3"
definition LOGGER_LEVEL_DEBUG_VAL :: int where "LOGGER_LEVEL_DEBUG_VAL = 4"

lemmas logger_level_vals = LOGGER_LEVEL_OFF_VAL_def LOGGER_LEVEL_ERROR_VAL_def LOGGER_LEVEL_WARN_VAL_def
  LOGGER_LEVEL_INFO_VAL_def LOGGER_LEVEL_DEBUG_VAL_def

text \<open>\<open>LOGGER_COMPILE_TIME_LEVEL\<close> of a build that does or does not define it.\<close>

definition LOGGER_COMPILE_TIME_LEVEL :: "int option \<Rightarrow> int" where
  "LOGGER_COMPILE_TIME_LEVEL defined = (case defined of None \<Rightarrow> LOGGER_LEVEL_DEBUG_VAL | Some v \<Rightarrow> v)"

definition compile_time_level_ok :: "int \<Rightarrow> bool" where
  "compile_time_level_ok compileTime \<longleftrightarrow>
     \<not> (compileTime < LOGGER_LEVEL_OFF_VAL \<or> compileTime > LOGGER_LEVEL_DEBUG_VAL)"

definition max_message_length_ok :: "nat \<Rightarrow> bool" where
  "max_message_length_ok maxLength \<longleftrightarrow> \<not> maxLength < 2"

text \<open>
  The macros.  \<open>compileTime\<close> is \<open>LOGGER_COMPILE_TIME_LEVEL\<close>; the variadic arguments are an
  expression, so evaluating them is a run of its own, which a compiled-out macro never starts.
\<close>

definition logger_macro ::
  "int \<Rightarrow> LoggerLevel_t \<Rightarrow> int \<Rightarrow> char list \<Rightarrow> string option \<Rightarrow> ('fmt \<Rightarrow> 'args \<Rightarrow> rendering) \<Rightarrow>
   ('b, 'ctx) Logger_t ptr \<Rightarrow> string ptr \<Rightarrow> 'fmt ptr \<Rightarrow> 'args run \<Rightarrow> ('b, 'ctx) delivery option run" where
  "logger_macro levelVal level compileTime stack prefixFails render logger module fmt args =
     (if compileTime \<ge> levelVal
      then do {
        a \<leftarrow> args;
        (status, d) \<leftarrow> loggerWrite stack prefixFails render logger level module fmt a;
        Some d
      }
      else Some None)"

definition LOGGER_ERROR where "LOGGER_ERROR = logger_macro LOGGER_LEVEL_ERROR_VAL LOGGER_LEVEL_ERROR"
definition LOGGER_WARN where "LOGGER_WARN = logger_macro LOGGER_LEVEL_WARN_VAL LOGGER_LEVEL_WARN"
definition LOGGER_INFO where "LOGGER_INFO = logger_macro LOGGER_LEVEL_INFO_VAL LOGGER_LEVEL_INFO"
definition LOGGER_DEBUG where "LOGGER_DEBUG = logger_macro LOGGER_LEVEL_DEBUG_VAL LOGGER_LEVEL_DEBUG"

subsection \<open>What is printed\<close>

text \<open>The text a formatting call contributes: nothing, if it fails.\<close>

definition text_of :: "rendering \<Rightarrow> string" where
  "text_of r = (case r of Rendered t \<Rightarrow> if length t \<le> INT_MAX then t else [] | RenderFailed bytes \<Rightarrow> [])"

definition prefix_text :: "string option \<Rightarrow> LoggerLevel_t \<Rightarrow> string \<Rightarrow> string" where
  "prefix_text prefixFails level m =
     (case prefixFails of
        None \<Rightarrow> text_of (Rendered (''['' @ loggerLevelToString level @ ''][''  @ m @ ''] ''))
      | Some bytes \<Rightarrow> [])"

lemma wr_block_parts:
  assumes "off + length bs \<le> length m"
  obtains m' where "wr_block m off bs = Some m'" "length m' = length m"
    "take (off + length bs) m' = take off m @ bs" "take off m' = take off m"
  using assms that [of "take off m @ bs @ drop (off + length bs) m"] by simp

text \<open>
  A formatting call into the \<open>n\<close> bytes from \<open>off\<close> to the end of the buffer, followed by the
  code's own termination of a failed one, leaves the bounded text and a terminator.
\<close>

definition print_at :: "char list \<Rightarrow> nat \<Rightarrow> rendering \<Rightarrow> (nat \<times> char list) run" where
  "print_at buf off r =
     do {
       (len, buf1) \<leftarrow> c_snprintf buf off (length buf - off) r;
       if len < 0 then do { buf2 \<leftarrow> wr buf1 off NUL; Some (0, buf2) }
       else if nat len < length buf - off then Some (nat len, buf1)
       else Some (length buf - off - 1, buf1)
     }"

lemma print_at_eq: "printPrefix buf r = print_at buf 0 r" "printMessage buf off r = print_at buf off r"
  unfolding printPrefix_def printMessage_def print_at_def Let_def diff_zero by (rule refl)+

lemma print_at_ok:
  assumes off: "off < length buf"
  obtains buf' where "print_at buf off r = Some (min (length (text_of r)) (length buf - off - 1), buf')"
    "length buf' = length buf"
    "take (off + min (length (text_of r)) (length buf - off - 1)) buf' =
       take off buf @ take (length buf - off - 1) (text_of r)"
    "buf' ! (off + min (length (text_of r)) (length buf - off - 1)) = NUL"
proof -
  let ?n = "length buf - off"
  note result = that
  have failed: thesis
    if bs: "length bs \<le> ?n" and none: "text_of r = []"
      and eq: "\<And>m. wr_block buf off bs = Some m \<Longrightarrow> c_snprintf buf off ?n r = Some (- 1, m)" for bs
  proof -
    have "off + length bs \<le> length buf"
      using bs off by simp
    then obtain m where m: "wr_block buf off bs = Some m" "length m = length buf" "take off m = take off buf"
      by (rule wr_block_parts)
    show thesis
      using result [of "m[off := NUL]"] eq [OF m(1)] m off none by (simp add: print_at_def)
  qed
  show thesis
  proof (cases r)
    case (RenderFailed bytes)
    show thesis
      by (rule failed [of "take ?n bytes"]) (simp_all add: RenderFailed text_of_def c_snprintf_def)
  next
    case (Rendered t)
    let ?bs = "take (?n - 1) t @ [NUL]"
    show thesis
    proof (cases "length t \<le> INT_MAX")
      case False
      then show thesis
        using off by (intro failed [of ?bs]) (simp_all add: Rendered text_of_def c_snprintf_def)
    next
      case True
      let ?k = "min (length t) (?n - 1)"
      have k: "off + ?k < length buf" "length ?bs = Suc ?k"
        using off by auto
      let ?m = "take off buf @ ?bs @ drop (off + length ?bs) buf"
      have wr: "wr_block buf off ?bs = Some ?m"
        using k by simp
      have "c_snprintf buf off ?n r = Some (int (length t), ?m)"
        using True off wr by (simp add: Rendered c_snprintf_def)
      then have "print_at buf off r = Some (?k, ?m)"
        by (auto simp: print_at_def)
      moreover have "length ?m = length buf"
        using k by simp
      moreover have "take (off + ?k) ?m = take off buf @ take (?n - 1) t"
        using off by simp
      moreover have "?m ! (off + ?k) = NUL"
        using off by (simp add: nth_append)
      ultimately show thesis
        using result True by (simp add: Rendered text_of_def)
    qed
  qed
qed

text \<open>The whole message: prefix and text, cut to the buffer, and terminated.\<close>

lemma loggerWrite_prints:
  assumes "1 \<le> level" "level \<le> 4" "level \<le> runtimeThreshold l" "runtimeThreshold l \<le> 4"
    and "backend l = Some b" "2 \<le> length stack"
  obtains d where "loggerWrite stack prefixFails render (Some l) level (Some m) (Some f) args = Some (LOGGER_SUCCESS, Some d)"
    "to d = b" "toContext d = backendContext l" "length (message d) = length stack"
    "msgLength d < length stack" "message d ! msgLength d = NUL"
    "take (msgLength d) (message d) =
       take (length stack - 1) (prefix_text prefixFails level m @ text_of (render f args))"
proof -
  let ?N = "length stack"
  define pr where "pr = (case prefixFails of
      None \<Rightarrow> Rendered (''['' @ loggerLevelToString level @ ''][''  @ m @ ''] '') | Some bytes \<Rightarrow> RenderFailed bytes)"
  have P: "text_of pr = prefix_text prefixFails level m"
    by (cases prefixFails) (simp_all add: pr_def prefix_text_def text_of_def)
  let ?used = "min (length (text_of pr)) (?N - 0 - 1)"
  have zero: "0 < ?N"
    using assms(6) by linarith
  obtain b1 where b1: "print_at stack 0 pr = Some (?used, b1)" "length b1 = ?N"
      "take (0 + ?used) b1 = take 0 stack @ take (?N - 0 - 1) (text_of pr)"
    using zero by (rule print_at_ok)
  let ?T = "text_of (render f args)"
  let ?n = "min (length ?T) (length b1 - ?used - 1)"
  have "?used < length b1"
    using zero unfolding b1(2) by linarith
  then obtain b2 where b2: "print_at b1 ?used (render f args) = Some (?n, b2)" "length b2 = length b1"
      "take (?used + ?n) b2 = take ?used b1 @ take (length b1 - ?used - 1) ?T" "b2 ! (?used + ?n) = NUL"
    by (rule print_at_ok)
  let ?d = "\<lparr>to = b, message = b2, msgLength = ?used + ?n, toContext = backendContext l\<rparr>"
  have levels: "(0 :: int) \<le> level" "level < 2 ^ 32" "0 \<le> runtimeThreshold l" "runtimeThreshold l < 2 ^ 32"
    using assms(1-4) by simp_all
  have "\<not> (word_of_int level :: u32) > word_of_int (runtimeThreshold l)"
    using assms(3) levels by (simp add: word_less_def uint_word_of_int not_less)
  then have run: "loggerWrite stack prefixFails render (Some l) level (Some m) (Some f) args = Some (LOGGER_SUCCESS, Some ?d)"
    using assms(1,2,5) b1(1) b2(1)
    by (simp add: loggerWrite_def validateLogger_def validateMessageLevel_def logger_levels print_at_eq
        pr_def [symmetric])
  show thesis
  proof (rule that [of ?d, OF run])
    show "take (msgLength ?d) (message ?d) = take (?N - 1) (prefix_text prefixFails level m @ ?T)"
      using b1(2,3) b2(3) by (simp add: P [symmetric] min_def)
    have "?used + ?n < ?N"
      using zero unfolding b1(2) by linarith
    then show "msgLength ?d < ?N"
      by simp
  qed (use b1(2) b2(2,4) in simp_all)
qed

subsection \<open>Properties\<close>

text \<open>A message that passes both gates reaches the registered backend, once, with the
  registered context: it is the prefix \<open>[LEVEL][MODULE]\<close> and the formatted text, cut to one
  less than the buffer, terminated at exactly the length the backend is told, whatever the
  buffer held before, for every buffer size from 2 on, and also when a formatting call fails
  (its part is then empty) or either text is longer than the buffer.\<close>

lemma logger_delivers_bounded_message:
  assumes "level \<in> {1, 2, 3, 4}" "level \<le> runtimeThreshold l" "runtimeThreshold l \<le> 4"
    and "backend l = Some b" "2 \<le> length stack"
  shows "\<exists>d. loggerWrite stack prefixFails render (Some l) level (Some m) (Some f) args = Some (LOGGER_SUCCESS, Some d) \<and>
    to d = b \<and> toContext d = backendContext l \<and>
    take (msgLength d) (message d) = take (length stack - 1) (prefix_text prefixFails level m @ text_of (render f args)) \<and>
    msgLength d < length stack \<and> length (message d) = length stack \<and> message d ! msgLength d = NUL"
proof -
  have "1 \<le> level" "level \<le> 4"
    using assms(1) by auto
  then show ?thesis
    using loggerWrite_prints [OF _ _ assms(2-5), of prefixFails render m f args] by metis
qed

definition logger_example :: "(nat, nat) Logger_t" where
  "logger_example = \<lparr>backend = Some 5, backendContext = None, runtimeThreshold = 3\<rparr>"

lemma logger_delivers_bounded_message_example:
  "\<exists>d. loggerWrite (replicate 16 CHR ''x'') None (\<lambda>f args. Rendered f) (Some logger_example) LOGGER_LEVEL_WARN (Some ''CRC'')
      (Some ''bad sum'') () = Some (LOGGER_SUCCESS, Some d) \<and> to d = 5 \<and>
    take (msgLength d) (message d) = ''[WARN][CRC] bad''"
proof -
  have "\<exists>d. loggerWrite (replicate 16 CHR ''x'') None (\<lambda>f args. Rendered f) (Some logger_example) 2 (Some ''CRC'')
      (Some ''bad sum'') () = Some (LOGGER_SUCCESS, Some d) \<and> to d = 5 \<and> toContext d = backendContext logger_example \<and>
    take (msgLength d) (message d) =
      take (length (replicate 16 CHR ''x'') - 1) (prefix_text None 2 ''CRC'' @ text_of (Rendered ''bad sum'')) \<and>
    msgLength d < length (replicate 16 CHR ''x'') \<and> length (message d) = length (replicate 16 CHR ''x'') \<and>
    message d ! msgLength d = NUL"
    by (rule logger_delivers_bounded_message) (simp_all add: logger_example_def)
  moreover have "take 15 (prefix_text None 2 ''CRC'' @ text_of (Rendered ''bad sum'')) = ''[WARN][CRC] bad''"
    by (simp add: prefix_text_def text_of_def INT_MAX_def loggerLevelToString_def logger_levels)
  ultimately show ?thesis
    by (auto simp: logger_levels)
qed

text \<open>C27: the gates stand in the documented order.  A severity that is not one of the four is
  refused; a severity above the threshold is dropped with success before the module, the
  format or the backend are looked at (they may be null); then a null module or format, then
  a missing backend are errors.  None of these delivers anything.\<close>

theorem logger_gates_in_order:
  assumes "0 \<le> runtimeThreshold l" "runtimeThreshold l \<le> 4"
  shows "loggerWrite stack prefixFails render None level module fmt args = Some (LOGGER_ERROR_NULL_POINTER, None) \<and>
    (if level \<notin> {1, 2, 3, 4}
     then loggerWrite stack prefixFails render (Some l) level module fmt args = Some (LOGGER_ERROR_INVALID_LEVEL, None)
     else if runtimeThreshold l < level
     then loggerWrite stack prefixFails render (Some l) level module fmt args = Some (LOGGER_SUCCESS, None)
     else if module = None \<or> fmt = None
     then loggerWrite stack prefixFails render (Some l) level module fmt args = Some (LOGGER_ERROR_NULL_POINTER, None)
     else backend l = None \<longrightarrow>
       loggerWrite stack prefixFails render (Some l) level module fmt args = Some (LOGGER_ERROR_NO_BACKEND, None))"
proof (cases "level \<in> {1, 2, 3, 4}")
  case False
  then have "level < 1 \<or> 4 < level" by auto
  with False show ?thesis
    by (auto simp: loggerWrite_def validateLogger_def validateMessageLevel_def logger_levels)
next
  case True
  then have "1 \<le> level" "level \<le> 4" by auto
  moreover have "(word_of_int level :: u32) > word_of_int (runtimeThreshold l) \<longleftrightarrow> runtimeThreshold l < level"
    using calculation assms by (simp add: word_less_def uint_word_of_int)
  ultimately show ?thesis
    using True by (simp add: loggerWrite_def validateLogger_def validateMessageLevel_def logger_levels)
qed

theorem logger_gates_in_order_witness:
  "loggerWrite [] None (\<lambda>f args. Rendered f) (Some logger_example) LOGGER_LEVEL_DEBUG None None () =
     Some (LOGGER_SUCCESS, None :: (nat, nat) delivery option)"
proof -
  have "0 \<le> runtimeThreshold logger_example" "runtimeThreshold logger_example \<le> 4"
    "\<not> LOGGER_LEVEL_DEBUG \<notin> {1, 2, 3, 4}" "runtimeThreshold logger_example < LOGGER_LEVEL_DEBUG"
    by (simp_all add: logger_example_def LOGGER_LEVEL_DEBUG_def)
  with conjunct2 [OF logger_gates_in_order [of logger_example "[]" None "\<lambda>f args. Rendered f" LOGGER_LEVEL_DEBUG None None "()"]]
  show ?thesis by (simp only: if_True if_False)
qed

text \<open>The configuration calls, and what the last effective ones of a sequence set.\<close>

datatype ('b, 'ctx) config_call = SetLevel LoggerLevel_t | SetBackend "'b ptr" "'ctx ptr" | ClearBackend

fun do_config :: "('b, 'ctx) config_call \<Rightarrow> ('b, 'ctx) Logger_t ptr \<Rightarrow> (LoggerStatus_t \<times> ('b, 'ctx) Logger_t ptr) run" where
  "do_config (SetLevel lv) logger = loggerSetLevel logger lv"
| "do_config (SetBackend b ctx) logger = loggerSetBackend logger b ctx"
| "do_config ClearBackend logger = loggerClearBackend logger"

primrec run_config :: "('b, 'ctx) config_call list \<Rightarrow> ('b, 'ctx) Logger_t ptr \<Rightarrow> ('b, 'ctx) Logger_t ptr run" where
  "run_config [] logger = Some logger"
| "run_config (c # cs) logger = do { (status, logger') \<leftarrow> do_config c logger; run_config cs logger' }"

fun last_level :: "LoggerLevel_t \<Rightarrow> ('b, 'ctx) config_call list \<Rightarrow> LoggerLevel_t" where
  "last_level lv [] = lv"
| "last_level lv (SetLevel lv' # cs) = last_level (if lv' \<in> {0, 1, 2, 3, 4} then lv' else lv) cs"
| "last_level lv (c # cs) = last_level lv cs"

fun last_backend :: "'b ptr \<times> 'ctx ptr \<Rightarrow> ('b, 'ctx) config_call list \<Rightarrow> 'b ptr \<times> 'ctx ptr" where
  "last_backend bc [] = bc"
| "last_backend bc (SetBackend (Some b) ctx # cs) = last_backend (Some b, ctx) cs"
| "last_backend bc (ClearBackend # cs) = last_backend (None, None) cs"
| "last_backend bc (c # cs) = last_backend bc cs"

lemma valid_threshold: "validateThresholdLevel lv =
    (if lv \<in> {0, 1, 2, 3, 4} then LOGGER_SUCCESS else LOGGER_ERROR_INVALID_LEVEL)"
proof -
  have "lv \<in> {0, 1, 2, 3, 4} \<longleftrightarrow> \<not> (lv < 0 \<or> 4 < lv)" by auto
  then show ?thesis
    by (simp add: validateThresholdLevel_def logger_levels)
qed

lemma run_config_eq:
  "run_config cs (Some l) = Some (Some (l\<lparr>backend := fst (last_backend (backend l, backendContext l) cs),
     backendContext := snd (last_backend (backend l, backendContext l) cs),
     runtimeThreshold := last_level (runtimeThreshold l) cs\<rparr>))"
proof (induction cs arbitrary: l)
  case Nil
  then show ?case by simp
next
  case (Cons c cs)
  show ?case
  proof (cases c)
    case (SetLevel lv)
    with Cons show ?thesis
      by (auto simp: loggerSetLevel_def validateLogger_def valid_threshold)
  next
    case (SetBackend b ctx)
    with Cons show ?thesis
      by (cases b) (auto simp: loggerSetBackend_def validateLogger_def)
  next
    case ClearBackend
    with Cons show ?thesis
      by (auto simp: loggerClearBackend_def validateLogger_def)
  qed
qed

lemma last_level_valid: "lv \<in> {0, 1, 2, 3, 4} \<Longrightarrow> last_level lv cs \<in> {0, 1, 2, 3, 4}"
  by (induction lv cs rule: last_level.induct) simp_all

text \<open>The configuration is what was last successfully set: initialisation accepts exactly the
  five levels, and after it and any sequence of configuration calls, refused ones among them,
  the threshold read back is the last valid level set, one of the five, and backend and
  context are those of the last registration, both null after a clear.\<close>

lemma logger_configuration:
  "if t \<in> {0, 1, 2, 3, 4}
   then \<exists>l l'. loggerInit (Some old) t = Some (LOGGER_SUCCESS, Some l) \<and> run_config cs (Some l) = Some (Some l') \<and>
     loggerGetLevel (Some l') (Some x) = Some (LOGGER_SUCCESS, Some (last_level t cs)) \<and>
     last_level t cs \<in> {0, 1, 2, 3, 4} \<and> (backend l', backendContext l') = last_backend (None, None) cs
   else loggerInit (Some old) t = Some (LOGGER_ERROR_INVALID_LEVEL, Some old)"
proof (cases "t \<in> {0, 1, 2, 3, 4}")
  case True
  let ?l = "old\<lparr>backend := None, backendContext := None, runtimeThreshold := t\<rparr>"
  have "loggerInit (Some old) t = Some (LOGGER_SUCCESS, Some ?l)"
    using True by (simp add: loggerInit_def validateLogger_def valid_threshold)
  moreover note run_config_eq [of cs ?l] last_level_valid [OF True, of cs]
  ultimately show ?thesis
    using True by (simp add: loggerGetLevel_def validateLogger_def)
next
  case False
  then show ?thesis
    unfolding loggerInit_def validateLogger_def valid_threshold by simp
qed

lemma logger_configuration_example:
  "\<exists>l l'. loggerInit (Some logger_example) 2 = Some (LOGGER_SUCCESS, Some l) \<and>
     run_config [SetBackend (Some 8) (Some 9), SetLevel 77, SetLevel 4] (Some l) = Some (Some l') \<and>
     loggerGetLevel (Some l') (Some 0) = Some (LOGGER_SUCCESS, Some 4) \<and> backend l' = Some 8"
  using logger_configuration [of 2 logger_example "[SetBackend (Some 8) (Some 9), SetLevel 77, SetLevel 4]" 0] by auto

text \<open>The compile-time gate.  A logging macro whose severity the build leaves out delivers
  nothing and does not even evaluate its arguments (it has no undefined behaviour when they
  do); every other one delivers exactly what the call of \<open>loggerWrite\<close> at its severity does.\<close>

lemma logger_compile_time_gate:
  "\<forall>(macro, level) \<in> {(LOGGER_ERROR, 1), (LOGGER_WARN, 2), (LOGGER_INFO, 3), (LOGGER_DEBUG, 4)}.
    macro ct stack prefixFails render logger module fmt args =
      (if ct < level then Some None
       else do {
         a \<leftarrow> args;
         (status, d) \<leftarrow> loggerWrite stack prefixFails render logger level module fmt a;
         Some d
       })"
  by (simp add: LOGGER_ERROR_def LOGGER_WARN_def LOGGER_INFO_def LOGGER_DEBUG_def logger_macro_def logger_levels
      logger_level_vals not_le)

lemma loggerWrite_dropped:
  assumes "1 \<le> level" "level \<le> 4" "0 \<le> runtimeThreshold l" "runtimeThreshold l < level"
  shows "loggerWrite stack prefixFails render (Some l) level module fmt args = Some (LOGGER_SUCCESS, None)"
  using assms by (simp add: loggerWrite_def validateLogger_def validateMessageLevel_def logger_levels
      word_less_def uint_word_of_int)

text \<open>C18: the logger from its configuration to its output.  In every build the preprocessor
  accepts, with any buffer size it accepts, after \<open>loggerInit\<close> with a valid threshold and
  \<open>loggerSetBackend\<close>, a macro whose severity the build leaves out does nothing, not even
  evaluate its arguments; one above the threshold evaluates them and delivers nothing; any
  other delivers to the backend, with its context, the prefix and the text cut to one less
  than the buffer and terminated at the stated length.\<close>

theorem logger_end_to_end:
  assumes "compile_time_level_ok ct" "max_message_length_ok (length stack)" "t \<in> {0, 1, 2, 3, 4}"
  shows "\<exists>l l'. loggerInit (Some old) t = Some (LOGGER_SUCCESS, Some l) \<and>
    loggerSetBackend (Some l) (Some b) ctx = Some (LOGGER_SUCCESS, Some l') \<and>
    (\<forall>(macro, level) \<in> {(LOGGER_ERROR, 1), (LOGGER_WARN, 2), (LOGGER_INFO, 3), (LOGGER_DEBUG, 4)}.
       if ct < level then macro ct stack prefixFails render (Some l') (Some m) (Some f) args = Some None
       else if t < level then macro ct stack prefixFails render (Some l') (Some m) (Some f) (Some a) = Some None
       else \<exists>d. macro ct stack prefixFails render (Some l') (Some m) (Some f) (Some a) = Some (Some d) \<and>
         to d = b \<and> toContext d = ctx \<and> msgLength d < length stack \<and> message d ! msgLength d = NUL \<and>
         take (msgLength d) (message d) = take (length stack - 1) (prefix_text prefixFails level m @ text_of (render f a)))"
proof -
  let ?l = "old\<lparr>backend := None, backendContext := None, runtimeThreshold := t\<rparr>"
  let ?l' = "?l\<lparr>backend := Some b, backendContext := ctx\<rparr>"
  have made: "loggerInit (Some old) t = Some (LOGGER_SUCCESS, Some ?l)"
    "loggerSetBackend (Some ?l) (Some b) ctx = Some (LOGGER_SUCCESS, Some ?l')"
    using assms(3) by (simp_all add: loggerInit_def loggerSetBackend_def validateLogger_def valid_threshold)
  have n: "2 \<le> length stack"
    using assms(2) by (simp add: max_message_length_ok_def)
  have each: "if ct < level then macro ct stack prefixFails render (Some ?l') (Some m) (Some f) args = Some None
       else if t < level then macro ct stack prefixFails render (Some ?l') (Some m) (Some f) (Some a) = Some None
       else \<exists>d. macro ct stack prefixFails render (Some ?l') (Some m) (Some f) (Some a) = Some (Some d) \<and>
         to d = b \<and> toContext d = ctx \<and> msgLength d < length stack \<and> message d ! msgLength d = NUL \<and>
         take (msgLength d) (message d) = take (length stack - 1) (prefix_text prefixFails level m @ text_of (render f a))"
    if ml: "macro = logger_macro level level" "1 \<le> level" "level \<le> 4" for macro and level :: int
  proof -
    have dropped: "t < level \<Longrightarrow> loggerWrite stack prefixFails render (Some ?l') level (Some m) (Some f) a = Some (LOGGER_SUCCESS, None)"
      using ml(2,3) assms(3) by (intro loggerWrite_dropped) auto
    have printed: "\<exists>d. loggerWrite stack prefixFails render (Some ?l') level (Some m) (Some f) a = Some (LOGGER_SUCCESS, Some d) \<and>
        to d = b \<and> toContext d = ctx \<and> msgLength d < length stack \<and> message d ! msgLength d = NUL \<and>
        take (msgLength d) (message d) = take (length stack - 1) (prefix_text prefixFails level m @ text_of (render f a))"
      if "\<not> t < level"
    proof -
      have "level \<le> runtimeThreshold ?l'" "runtimeThreshold ?l' \<le> 4" "backend ?l' = Some b"
        using that assms(3) by auto
      from loggerWrite_prints [OF ml(2,3) this n, of prefixFails render m f a] show ?thesis
        by auto
    qed
    show ?thesis
      unfolding ml(1) logger_macro_def using dropped printed by (auto simp: not_less)
  qed
  have levels: "LOGGER_ERROR = logger_macro 1 1" "LOGGER_WARN = logger_macro 2 2"
    "LOGGER_INFO = logger_macro 3 3" "LOGGER_DEBUG = logger_macro 4 4"
    by (simp_all add: LOGGER_ERROR_def LOGGER_WARN_def LOGGER_INFO_def LOGGER_DEBUG_def logger_levels logger_level_vals)
  show ?thesis
    by (rule exI [of _ ?l], rule exI [of _ ?l'])
      (use made each [OF levels(1)] each [OF levels(2)] each [OF levels(3)] each [OF levels(4)] in simp)
qed

theorem logger_end_to_end_witness:
  "LOGGER_COMPILE_TIME_LEVEL None = 4 \<and>
   (\<exists>l l' d. loggerInit (Some logger_example) LOGGER_LEVEL_INFO = Some (LOGGER_SUCCESS, Some l) \<and>
     loggerSetBackend (Some l) (Some 8) (Some 9) = Some (LOGGER_SUCCESS, Some l') \<and>
     LOGGER_DEBUG (LOGGER_COMPILE_TIME_LEVEL (Some 3)) (replicate 16 NUL) None (\<lambda>f args. Rendered f) (Some l') (Some ''CRC'')
       (Some ''bad sum'') (None :: unit option) = Some None \<and>
     LOGGER_WARN (LOGGER_COMPILE_TIME_LEVEL (Some 3)) (replicate 16 NUL) None (\<lambda>f args. Rendered f) (Some l') (Some ''CRC'')
       (Some ''bad sum'') (Some ()) = Some (Some d) \<and> take (msgLength d) (message d) = ''[WARN][CRC] bad'')"
proof -
  have ok: "compile_time_level_ok 3" "max_message_length_ok (length (replicate 16 NUL))" "(3 :: int) \<in> {0, 1, 2, 3, 4}"
    by (simp_all add: compile_time_level_ok_def max_message_length_ok_def logger_level_vals)
  obtain l l' where l: "loggerInit (Some logger_example) 3 = Some (LOGGER_SUCCESS, Some l)"
    "loggerSetBackend (Some l) (Some 8) (Some 9) = Some (LOGGER_SUCCESS, Some l')"
    and all: "\<forall>(macro, level) \<in> {(LOGGER_ERROR, 1), (LOGGER_WARN, 2), (LOGGER_INFO, 3), (LOGGER_DEBUG, 4)}.
       if (3 :: int) < level then macro 3 (replicate 16 NUL) None (\<lambda>f args. Rendered f) (Some l') (Some ''CRC'') (Some ''bad sum'') None = Some None
       else if (3 :: int) < level then macro 3 (replicate 16 NUL) None (\<lambda>f args. Rendered f) (Some l') (Some ''CRC'') (Some ''bad sum'') (Some ()) = Some None
       else \<exists>d. macro 3 (replicate 16 NUL) None (\<lambda>f args. Rendered f) (Some l') (Some ''CRC'') (Some ''bad sum'') (Some ()) = Some (Some d) \<and>
         to d = 8 \<and> toContext d = Some 9 \<and> msgLength d < length (replicate 16 NUL) \<and> message d ! msgLength d = NUL \<and>
         take (msgLength d) (message d) =
           take (length (replicate 16 NUL) - 1) (prefix_text None level ''CRC'' @ text_of (Rendered ''bad sum''))"
    using logger_end_to_end [OF ok, of logger_example 8 "Some 9" None "\<lambda>f args. Rendered f" "''CRC''" "''bad sum''" None "()"]
    by blast
  have "take 15 (prefix_text None 2 ''CRC'' @ text_of (Rendered ''bad sum'')) = ''[WARN][CRC] bad''"
    by (simp add: prefix_text_def text_of_def INT_MAX_def loggerLevelToString_def logger_levels)
  with l all show ?thesis
    by (auto simp: logger_levels logger_level_vals LOGGER_COMPILE_TIME_LEVEL_def)
qed

end
