(* ===== verification/Spec2Isabelle.thy ===== *)
theory Spec2Isabelle
  imports Crc32 BitUtils PacketErrors Link SharedBuild MemoryPoolApi TimerLifecycle Logger
begin

text \<open>
  A verification library for the modules of the ECU platform: CRC-16 and CRC-32, the packet
  builder and parser, the ring buffer, the memory pool, the software timer, the logger and
  the bit utilities (\<open>src/*.c\<close> with \<open>include/*.h\<close>).  Every function of these nine modules is
  modelled, with all of its checks in the order of the code, and every public operation has
  its functional behaviour proved, error paths included.

  \<^bold>\<open>How C is modelled\<close> (theory \<open>Prelude\<close>).  \<open>uint8_t\<close> to \<open>uint32_t\<close>, \<open>size_t\<close> and \<open>uintptr_t\<close> are
  words of their width, so arithmetic wraps as in C; the last two are 64 bits wide (an LP64
  target), stated once (\<open>size_bits\<close>), and the theories check with 32 bits as well.
  A pointer argument is an option (\<open>None\<close> is \<open>NULL\<close>); a function that writes through a
  pointer returns the object's value after the call.  A run is an option too: \<open>None\<close> is
  undefined behaviour (an access outside its object, a dereference of \<open>NULL\<close>, a division by
  zero, a shift by the width or more), so each theorem that an operation gives \<open>Some r\<close> is
  also a proof that it is memory safe.  A C array is a list, read and written through the
  bounds-checked \<open>rd\<close>, \<open>wr\<close>, \<open>rd_block\<close>, \<open>wr_block\<close>; \<open>memcpy\<close> is \<open>rd_block\<close> and
  \<open>wr_block\<close>; a C structure is a record, an enumeration a datatype.  Records keep the names
  of the C fields, except where two structures of one theory share a name (\<open>handleGeneration\<close>,
  \<open>cbContext\<close>, \<open>currentCRC16\<close>, \<open>currentCRC32\<close>).

  \<^bold>\<open>The parts and their theories\<close>
  \<^item> \<open>CrcModel\<close>: the parametrised bit-serial CRC model (width, polynomial, initial value,
    reflection, final XOR), its linearity and burst detection (locale \<open>crc_generator\<close>), and
    the link to a register fed by bytes (locale \<open>byte_register\<close>).  \<open>Crc16\<close> (\<open>crc16.c\<close>) and
    \<open>Crc32\<close> (\<open>crc32.c\<close>) are both interpretations: the left-shifting and the reflected
    right-shifting register compute the same model, one-shot and incrementally (\<open>CrcStream\<close>:
    a context stands for the bytes fed to it, locale \<open>streaming_checksum\<close>), verification accepts exactly the model's value, and every burst up to the register width is detected.
    \<open>CrcDistance\<close> adds what the CRC-16 polynomial gives beyond bursts: it has an even number of
    terms (locale \<open>even_generator\<close>), so odd numbers of bit errors are detected, and its register
    first returns after 32767 steps (locale \<open>long_generator\<close>, the walk evaluated by the kernel),
    so two bit errors closer than that are detected too; together, any three.
  \<^item> \<open>Frame\<close>: the constants of \<open>protocol.h\<close> and the wire format as a specification
    (locale \<open>frame_checksum\<close>, provided by CRC-16).  \<open>PacketBuilder\<close> (\<open>packetBuilder.c\<close>) writes
    exactly such a frame or changes nothing; \<open>PacketParser\<close> (\<open>packetParser.c\<close>) accepts exactly
    the byte sequences that begin with one and reads nothing behind the stated length.
    \<open>PacketErrors\<close> carries the error detection of the checksum over to packets: which
    disturbed packets are noticed, exactly, and that three bit errors and bursts of 16 bits are
    the limit: every packet has an unnoticed error of four bits within 17.  This theory proves that builder and parser are inverse to each other, in both
    directions.  \<open>SharedBuild\<close> is the builder once more, with payload and packet buffer in one
    memory.
  \<^item> \<open>Fifo\<close>: a bounded queue as a list, and the interface \<open>bounded_fifo\<close> of a provider that
    refines it, with its behaviour over all sequences of operations proved once.  \<open>RingBuffer\<close>
    (\<open>ringBuffer.c\<close>) provides it through the abstraction \<open>rb_contents\<close> under the invariant
    \<open>rb_inv\<close>; the index arithmetic modulo the capacity is that of \<open>size_t\<close>.  \<open>RingBufferApi\<close> has
    the whole interface over sequences of calls, null pointers, rejected arguments and new
    initialisations included: all of it is answered as by a queue; what is accepted comes out
    in order, and what the queries say can be planned with.
  \<^item> \<open>Link\<close>: builder, ring buffer and parser fit together: in the bytes of built packets that
    went through a ring buffer, the size query leads from packet to packet and each one
    parses to what was built.  The code that calls them is the application's and not modelled.
  \<^item> \<open>Allocator\<close>: a stack of free blocks and the interface \<open>block_allocator\<close>; no sequence of
    acquires and releases of arbitrary addresses lets two clients hold one block or loses one.
    \<open>MemoryPool\<close> (\<open>memoryPool.c\<close>) provides it under \<open>mp_inv\<close>, which relates the state array, the
    free stack and the counter; the address arithmetic (overflow guards, alignment, index
    recovery) is proved exact.  \<open>MemoryPoolApi\<close> has the seven calls with any arguments on a
    pool in any state: each returns a status documented for it and keeps the pool well-formed.
  \<^item> \<open>SwTimer\<close> (\<open>swTimer.c\<close>): timer slots, handles with generations, the operations and the
    tick, with the well-formedness \<open>pool_wf\<close>.  The callbacks are the application's code and a
    parameter of the tick.  \<open>SwTimerTick\<close> proves that a tick ends, what it does for any
    callbacks that keep the pool well-formed (locale \<open>timer_callbacks\<close>) and, for a slot that
    the callbacks leave alone, its exact countdown (locale \<open>sparing_callbacks\<close>).
    \<open>TimerScript\<close> models the applications the module is made for: main program and callbacks
    are scripts of API calls on the pool, ticks and initialisations from within callbacks
    included, that see what each call returned before they make the next; a trace records what
    passes between application and module.  No application can break the pool, as long as
    a storage it initialises it with has the slots it promises (\<open>sound_call\<close>).  \<open>TimerQuiet\<close>
    interprets \<open>sparing_callbacks\<close> on scripts that leave a timer alone, \<open>TimerOrder\<close> says in which
    order the callbacks of a tick and of the ticks within it run (locale \<open>ordered_callbacks\<close>),
    \<open>SwTimerApi\<close> draws the consequences (one-shot and periodic timers fire at the right ticks),
    and \<open>TimerLifecycle\<close> is the state machine of one slot as a step relation: every run of an
    application is a path in it, with the events of the trace (locale \<open>lawful_callbacks\<close>), so
    that a stop is final until the next start, wherever it was made.
  \<^item> \<open>Logger\<close> (\<open>logger.c\<close>, the configuration checks and macros of \<open>logger.h\<close>): the gates in
    their order, the configuration, and the bounded formatting into the stack buffer.
  \<^item> \<open>BitUtils\<close> (\<open>bitUtils.c\<close>): bit and field operations, with the round trip of insertion and
    extraction.

  \<^bold>\<open>Loops and termination\<close>.  The counted loops of the code are \<open>for_upto\<close> (primitive
  recursion on the number of rounds) or primitive recursions of their own; the scan of
  \<open>softwareTimerTick\<close> reads the capacity again in each round and is a \<open>function\<close> that
  terminates because the index grows towards the limit of \<open>size_t\<close>.  The only bound is the depth \<open>n\<close> to
  which ticks nest in callbacks (\<open>script_exec\<close>): where it is exhausted the application is told
  that no tick was made, a run that ends has some depth, and the theorems hold for every one.

  \<^bold>\<open>Parameters\<close>.  \<open>loggerWrite\<close> takes what \<open>vsnprintf\<close> makes of the caller's format and
  arguments as a parameter (a text, or a failure that leaves arbitrary bytes behind); the
  bounded write and the result of the call are modelled.  The contents of a local variable
  or of the message buffer before its first write are arguments as well, and the theorems
  hold for all of them.

  \<^bold>\<open>Limits the models show\<close>.  \<open>ringBufferGetAvailableSpace\<close> has no null-buffer check and is
  undefined on a zeroed ring buffer (\<open>RingBuffer\<close>).  A timer pool may be given more
  than 256 slots, but handles have eight index bits, so handles alias from slot 256 on
  (\<open>create_aliases_above_256\<close>); the theorems on firing and on handles assume at most 256.  A timer
  started from the callback of a lower slot is counted down in the same tick
  (\<open>started_in_callback_loses_a_tick\<close>).  A packet must not be built from a payload that
  already lies in its place in the packet buffer, as a parsed packet's payload does
  (\<open>SharedBuild\<close>).  A handle's generation has eight bits: a stale handle is
  good again, for the timer that has the slot then, when the slot was deleted a multiple of
  256 times; and as a new initialisation starts the generations over, handles from before it
  can name timers created after it (\<open>init_revives_handle\<close> of \<open>TimerLifecycle\<close>).  Four bit errors can turn a packet into another one
  (\<open>PacketErrors\<close>).  \<open>memoryPoolInit\<close> refuses an initialised pool before it looks at the new
  dimensions, which the design document lists first (\<open>MemoryPool\<close>).  A memory pool whose stated
  dimensions run past the address space grants blocks that it never takes back
  (\<open>MemoryPool\<close>).

  \<^bold>\<open>Not modelled\<close>.  The tests (\<open>tests/\<close>), the build (\<open>CMakeLists.txt\<close>) and the documents
  (\<open>docs/\<close>, read for the contracts); concurrency (every module leaves synchronisation to its
  caller, \<open>ringBuffer.h\<close> in so many words: all sequences here are of whole calls, one after the
  other); objects of one call that overlap
  in memory, except payload and packet buffer; alignment of pointers; the bytes inside pool blocks, which
  the pool never touches.
\<close>

subsection \<open>Builder and parser together\<close>

text \<open>C1: what the builder writes, the parser reads: after a successful build, parsing the
  buffer with the reported length succeeds and gives back the command, the payload length and
  the payload, and \<open>packetParserGetPacketSize\<close> computes the reported length from the
  packet's own length field.\<close>

theorem build_then_parse:
  assumes "payload_readable p n" "unat n \<le> 255" "unat n + 7 \<le> unat sz" "unat sz \<le> length m"
  shows "\<exists>m' len pk. packetBuilderBuildPacket cmd p n (Some m) sz (Some old) =
      Some (PACKET_BUILDER_SUCCESS, Some m', Some len) \<and>
    packetParserGetPacketSize (Some m') = Some len \<and>
    packetParserParse (Some m') len (Some pk0) = Some (PACKET_PARSER_SUCCESS, Some pk) \<and>
    commandId pk = cmd \<and> payloadLength pk = n \<and> payload_of m' pk = payload_bytes p n"
proof -
  let ?pl = "payload_bytes p n" and ?rest = "drop (unat n + 7) m"
  have len: "length ?pl = unat n" "length ?pl \<le> 255"
    using assms(2) length_payload_bytes [OF assms(1)] by simp_all
  have k: "unat (7 + ucast n :: size_t) = unat n + 7"
    using u16_sizes(4) [OF assms(2)] .
  have size: "packetParserGetPacketSize (Some (frame cmd ?pl @ ?rest)) = Some (7 + ucast n)"
    using getPacketSize_frame [OF len(2), of cmd ?rest] unfolding len(1) k [symmetric] by simp
  have "unat (7 + ucast n :: size_t) \<le> length (frame cmd ?pl @ ?rest)" "length ?pl + 7 \<le> unat (7 + ucast n :: size_t)"
    using k len(1) by simp_all
  then have parse: "packetParserParse (Some (frame cmd ?pl @ ?rest)) (7 + ucast n) (Some pk0) =
      Some (PACKET_PARSER_SUCCESS, Some (packet_of cmd ?pl))"
    using parse_eq [of "7 + ucast n" "frame cmd ?pl @ ?rest" pk0] parse_frame [OF len(2), of "unat (7 + ucast n :: size_t)" cmd ?rest]
    by simp
  show ?thesis
    using build_ok [OF assms, of cmd old] size parse payload_of_packet [OF len(2), of cmd ?rest] len(1)
    by (intro exI [of _ "frame cmd ?pl @ ?rest"] exI [of _ "7 + ucast n"] exI [of _ "packet_of cmd ?pl"])
      (simp add: packet_of_def)
qed

theorem build_then_parse_witness:
  "\<exists>m' len pk. packetBuilderBuildPacket 0x21 (Some [4, 5, 6]) 3 (Some (replicate 16 0)) 16 (Some 0) =
      Some (PACKET_BUILDER_SUCCESS, Some m', Some len) \<and>
    packetParserParse (Some m') len (Some \<lparr>commandId = 0, payloadLength = 0, payload = None\<rparr>) =
      Some (PACKET_PARSER_SUCCESS, Some pk) \<and>
    commandId pk = 0x21 \<and> payload_of m' pk = [4, 5, 6]"
proof -
  have "payload_readable (Some [4, 5, 6]) 3" "unat (3 :: u16) \<le> 255" "unat (3 :: u16) + 7 \<le> unat (16 :: size_t)"
    "unat (16 :: size_t) \<le> length (replicate 16 (0 :: u8))" "payload_bytes (Some [4, 5, 6]) 3 = [4, 5, 6]"
    by (simp_all add: payload_readable_def payload_bytes_def)
  with build_then_parse [of "Some [4, 5, 6]" 3 16 "replicate 16 0" "0x21" 0 "\<lparr>commandId = 0, payloadLength = 0, payload = None\<rparr>"]
  show ?thesis by metis
qed

text \<open>C20: what the parser accepts, the builder reproduces: building the command and payload of a
  successfully parsed packet into any buffer with room for it writes the very bytes that were
  parsed, and touches no others.\<close>

theorem parse_then_build:
  assumes "unat rawLength \<le> length raw"
    and "packetParserParse (Some raw) rawLength (Some old) = Some (PACKET_PARSER_SUCCESS, Some pk)"
    and "unat (payloadLength pk) + 7 \<le> unat sz" "unat sz \<le> length m"
  shows "\<exists>m' len. packetBuilderBuildPacket (commandId pk) (Some (payload_of raw pk)) (payloadLength pk) (Some m) sz (Some x) =
      Some (PACKET_BUILDER_SUCCESS, Some m', Some len) \<and>
    unat len \<le> unat rawLength \<and> take (unat len) m' = take (unat len) raw \<and> drop (unat len) m' = drop (unat len) m"
proof -
  have ok: "parse_status raw (unat rawLength) = PACKET_PARSER_SUCCESS" "pk = parsed raw"
    using parse_total [OF assms(1,2)] by simp_all
  obtain cmd pl rest where f: "length pl \<le> 255" "length pl + 7 \<le> unat rawLength" "raw = frame cmd pl @ rest"
    using parse_success_iff [OF assms(1)] ok(1) by blast
  have pk: "pk = packet_of cmd pl"
    using parse_frame(2) [OF f(1,2), of cmd rest] ok(2) f(3) by simp
  have pl: "payload_of raw pk = pl" "commandId pk = cmd"
    using payload_of_packet [OF f(1), of cmd rest] pk f(3) by (simp_all add: packet_of_def)
  have n: "unat (payloadLength pk) = length pl"
    using f(1) pk by (simp add: packet_of_def unat_of_nat take_bit_nat_eq_self)
  have "payload_readable (Some pl) (payloadLength pk)" "payload_bytes (Some pl) (payloadLength pk) = pl"
    using n by (simp_all add: payload_readable_def payload_bytes_def)
  moreover have "unat (payloadLength pk) \<le> 255" "unat (7 + ucast (payloadLength pk) :: size_t) = length pl + 7"
    using n f(1) u16_sizes(4) [of "payloadLength pk"] by simp_all
  ultimately show ?thesis
    using build_ok [OF _ _ assms(3,4), of "Some pl" cmd x] pl n f by simp
qed

theorem parse_then_build_witness:
  "\<exists>m' len. packetBuilderBuildPacket 0x42 (Some [5]) 1 (Some (replicate 9 7)) 9 (Some 0) =
      Some (PACKET_BUILDER_SUCCESS, Some m', Some len) \<and> take (unat len) m' = take (unat len) [0xAA, 0x55, 0, 2, 0x42, 5, 0xD1, 0xAB]"
proof -
  let ?raw = "[0xAA, 0x55, 0, 2, 0x42, 5, 0xD1, 0xAB] :: u8 list"
  let ?old = "\<lparr>commandId = 0, payloadLength = 0, payload = None\<rparr>"
  have len: "unat (8 :: size_t) \<le> length ?raw" "length [5 :: u8] \<le> 255" "length [5 :: u8] + 7 \<le> 8"
    by simp_all
  have "parse_status ?raw 8 = PACKET_PARSER_SUCCESS" "parsed ?raw = packet_of 0x42 [5]"
    using parse_frame [OF len(2,3), of "0x42" "[]"] unfolding append_Nil2 frame_example by simp_all
  then have "packetParserParse (Some ?raw) 8 (Some ?old) = Some (PACKET_PARSER_SUCCESS, Some (packet_of 0x42 [5]))"
    using parse_eq [OF len(1), of ?old] by simp
  from parse_then_build [OF len(1) this, of 9 "replicate 9 7" 0] show ?thesis
    by (auto simp: packet_of_def payload_of_def)
qed

subsection \<open>The two checksums\<close>

text \<open>C37: both verifications accept exactly the checksum of the parametrised model over the bytes
  of the stated length and report a mismatch for every other value, whatever follows those
  bytes; with a null buffer and a nonzero length they report the null pointer, and with length
  zero a null buffer is the empty message.\<close>

theorem crc_verify_exact:
  assumes "unat len \<le> length bytes"
  shows "crc16Verify (Some bytes) len r16 =
      Some (if r16 = crc_value CRC16_params (take (unat len) bytes) then CRC16_SUCCESS else CRC16_ERROR_MISMATCH) \<and>
    crc32Verify (Some bytes) len r32 =
      Some (if r32 = crc_value CRC32_params (take (unat len) bytes) then CRC32_SUCCESS else CRC32_ERROR_MISMATCH) \<and>
    crc16Verify None len r16 =
      Some (if len \<noteq> 0 then CRC16_ERROR_NULL_POINTER
            else if r16 = crc_value CRC16_params [] then CRC16_SUCCESS else CRC16_ERROR_MISMATCH) \<and>
    crc32Verify None len r32 =
      Some (if len \<noteq> 0 then CRC32_ERROR_NULL_POINTER
            else if r32 = crc_value CRC32_params [] then CRC32_SUCCESS else CRC32_ERROR_MISMATCH)"
  using assms crc16_verify_exact crc32_verify_exact crc16Verify_NULL crc32Verify_NULL
    crc16Verify_empty crc32Verify_empty by simp

theorem crc_verify_exact_witness:
  "crc16Verify (Some [0x31, 0x32, 0x33, 0x34, 0x35, 0x36, 0x37, 0x38, 0x39, 0xFF]) 9 0x29B1 = Some CRC16_SUCCESS \<and>
   crc32Verify (Some [0x31, 0x32, 0x33, 0x34, 0x35, 0x36, 0x37, 0x38, 0x39, 0xFF]) 9 0xCBF43926 = Some CRC32_SUCCESS"
proof -
  have "crc_value CRC16_params [0x31, 0x32, 0x33, 0x34, 0x35, 0x36, 0x37, 0x38, 0x39] = 0x29B1"
    "crc_value CRC32_params [0x31, 0x32, 0x33, 0x34, 0x35, 0x36, 0x37, 0x38, 0x39] = 0xCBF43926"
    by code_simp+
  with crc_verify_exact [of 9 "[0x31, 0x32, 0x33, 0x34, 0x35, 0x36, 0x37, 0x38, 0x39, 0xFF]" "0x29B1" "0xCBF43926"]
  show ?thesis by simp
qed

text \<open>C36: a CRC context is the message fed to it.  On a context with any contents, for both
  modules: after \<open>Init\<close>, any sequence of calls, with chunks of any length, null buffers,
  results read at any point and new initialisations, is answered call by call from the
  message so far alone: each result read is the checksum of the parametrised model over exactly
  the bytes fed since the last \<open>Init\<close>, however they were cut, a null buffer of nonzero length
  and a null result pointer are reported and leave the message as it was, and every other
  call succeeds.\<close>

theorem crc_stream:
  assumes "\<forall>call\<in>set calls16. readable call" "\<forall>call\<in>set calls32. readable call"
  shows "\<exists>ctx16' ctx32'.
    stream_run (stream_do crc16Init crc16Update crc16GetResult) (StreamInit # calls16) ctx16 =
      Some ((CRC16_SUCCESS, None) #
        answers CRC16_SUCCESS CRC16_ERROR_NULL_POINTER (crc_value CRC16_params) calls16 [], ctx16') \<and>
    stream_run (stream_do crc32Init crc32Update crc32GetResult) (StreamInit # calls32) ctx32 =
      Some ((CRC32_SUCCESS, None) #
        answers CRC32_SUCCESS CRC32_ERROR_NULL_POINTER (crc_value CRC32_params) calls32 [], ctx32')"
  using crc16_stream.session_answered [OF assms(1), of ctx16] crc32_stream.session_answered [OF assms(2), of ctx32]
  by (simp del: stream_run.simps)

theorem crc_stream_witness:
  "\<exists>ctx16'. stream_run (stream_do crc16Init crc16Update crc16GetResult)
      [StreamInit, StreamUpdate (Some [0x31, 0x32, 0x33, 0x34]) 4, StreamUpdate None 1,
       StreamUpdate (Some [0x35, 0x36, 0x37, 0x38, 0x39, 0xFF]) 5, StreamResult (Some 0), StreamInit, StreamResult (Some 0)]
      \<lparr>currentCRC16 = 7\<rparr> =
    Some ([(CRC16_SUCCESS, None), (CRC16_SUCCESS, None), (CRC16_ERROR_NULL_POINTER, None),
      (CRC16_SUCCESS, None), (CRC16_SUCCESS, Some 0x29B1), (CRC16_SUCCESS, None), (CRC16_SUCCESS, Some 0xFFFF)], ctx16')"
proof -
  let ?calls = "[StreamUpdate (Some [0x31, 0x32, 0x33, 0x34]) 4, StreamUpdate None 1,
       StreamUpdate (Some [0x35, 0x36, 0x37, 0x38, 0x39, 0xFF]) 5, StreamResult (Some 0), StreamInit, StreamResult (Some 0)]"
  have "answers CRC16_SUCCESS CRC16_ERROR_NULL_POINTER (crc_value CRC16_params) ?calls [] =
      [(CRC16_SUCCESS, None), (CRC16_ERROR_NULL_POINTER, None), (CRC16_SUCCESS, None),
       (CRC16_SUCCESS, Some 0x29B1), (CRC16_SUCCESS, None), (CRC16_SUCCESS, Some 0xFFFF)]"
    by code_simp
  moreover have "\<forall>call\<in>set ?calls. readable call"
    by (simp add: readable_def)
  ultimately show ?thesis
    using crc_stream [of ?calls "[]" "\<lparr>currentCRC16 = 7\<rparr>" "\<lparr>currentCRC32 = 7\<rparr>"]
    by (simp del: stream_run.simps) blast
qed

end
